(* ===== verification/Prelude.thy ===== *)
theory Prelude
  imports Main "HOL-Library.Word" "HOL-Library.While_Combinator"
begin

text \<open>
  Shared ground of the development: the C++ integer types as words, byte strings as lists,
  the ways in which a C++ call can fail to return normally, and the loop combinator that every
  \<open>while\<close> of the sources is translated to.

  \<^item> \<open>size_t\<close> and \<open>uint64_t\<close> are \<^typ>\<open>64 word\<close>, \<open>uint32_t\<close> and \<open>unsigned\<close> are
    \<^typ>\<open>32 word\<close>, \<open>uint16_t\<close> is \<^typ>\<open>16 word\<close>, \<open>uint8_t\<close> and \<open>char\<close> are
    \<^typ>\<open>8 word\<close>.
  \<^item> An \<open>int\<close> is a \<^typ>\<open>32 word\<close> that is read with \<^const>\<open>sint\<close>; converting it to
    \<open>size_t\<close> is the sign extension \<open>scast\<close>, converting a \<open>size_t\<close> to it is the
    truncation \<open>ucast\<close>. Signed overflow, which C++ leaves undefined, is two's complement here;
    the properties that talk about counters exclude it by hypothesis.
  \<^item> A \<open>std::string\<close> is a list of bytes.
\<close>

section \<open>Integer types\<close>

type_synonym u8 = "8 word"
type_synonym u16 = "16 word"
type_synonym u32 = "32 word"
type_synonym u64 = "64 word"
type_synonym size_t = "64 word"
type_synonym cint = "32 word"
type_synonym byte = "8 word"
type_synonym bytes = "8 word list"

text \<open>The two conversions between \<open>int\<close> and \<open>size_t\<close>.\<close>

abbreviation int_to_size :: "cint \<Rightarrow> size_t" where
  "int_to_size \<equiv> scast"

abbreviation size_to_int :: "size_t \<Rightarrow> cint" where
  "size_to_int \<equiv> ucast"

section \<open>Calls that do not return normally\<close>

text \<open>
  \<open>OutOfRange\<close>, \<open>RuntimeError\<close> and \<open>UnixError\<close> (which carries \<open>errno\<close>) are the exceptions the sources throw,
  \<open>Undefined\<close> is undefined behaviour (a dangling reference, an index past the end of an
  array, erasing \<open>end()\<close>), and \<open>Diverges\<close> is a loop that never ends.
\<close>

datatype failure = OutOfRange string | RuntimeError string | UnixError string cint | Undefined string | Diverges

type_synonym 'a result = "failure + 'a"

definition andthen :: "'a result \<Rightarrow> ('a \<Rightarrow> 'b result) \<Rightarrow> 'b result" where
  "andthen r f = (case r of Inl e \<Rightarrow> Inl e | Inr x \<Rightarrow> f x)"

lemma andthen_simps [simp]:
  "andthen (Inl e) f = Inl e"
  "andthen (Inr x) f = f x"
  by (simp_all add: andthen_def)

lemma andthen_Inr_iff:
  "andthen r f = Inr y \<longleftrightarrow> (\<exists>x. r = Inr x \<and> f x = Inr y)"
  by (auto simp: andthen_def split: sum.splits)

lemma andthen_Inr_right [simp]: "andthen r Inr = r"
  by (cases r) simp_all

lemma andthen_assoc: "andthen (andthen r f) g = andthen r (\<lambda>x. andthen (f x) g)"
  by (cases r) simp_all

section \<open>Loops\<close>

text \<open>
  \<open>while_loop b c s\<close> runs \<open>while (b) { c }\<close> from state \<open>s\<close>; the body may fail, and a
  loop that never ends is \<^const>\<open>Diverges\<close>.
\<close>

definition while_loop :: "('s \<Rightarrow> bool) \<Rightarrow> ('s \<Rightarrow> 's result) \<Rightarrow> 's \<Rightarrow> 's result" where
  "while_loop b c s =
     (case while_option (\<lambda>r. case r of Inl _ \<Rightarrow> False | Inr t \<Rightarrow> b t)
             (\<lambda>r. case r of Inl e \<Rightarrow> Inl e | Inr t \<Rightarrow> c t) (Inr s) of
        None \<Rightarrow> Inl Diverges
      | Some r \<Rightarrow> r)"

lemma while_loop_unfold:
  "while_loop b c s = (if b s then andthen (c s) (while_loop b c) else Inr s)"
proof (cases "b s")
  case True
  then show ?thesis
  proof (cases "c s")
    case (Inl e)
    with True show ?thesis
      unfolding while_loop_def
      by (subst while_option_unfold, simp, subst while_option_unfold, simp)
  next
    case (Inr t)
    with True show ?thesis
      unfolding while_loop_def by (subst while_option_unfold, simp)
  qed
next
  case False
  then show ?thesis
    unfolding while_loop_def by (subst while_option_unfold, simp)
qed

lemma while_loop_False [simp]: "\<not> b s \<Longrightarrow> while_loop b c s = Inr s"
  by (subst while_loop_unfold) simp

text \<open>Total correctness: an invariant the body keeps and a measure it decreases.\<close>

lemma while_loop_total:
  assumes "I s"
    and body: "\<And>t. I t \<Longrightarrow> b t \<Longrightarrow> \<exists>u. c t = Inr u \<and> I u \<and> (m u :: nat) < m t"
  shows "\<exists>u. while_loop b c s = Inr u \<and> I u \<and> \<not> b u"
  using assms(1)
proof (induction "m s" arbitrary: s rule: less_induct)
  case less
  show ?case
  proof (cases "b s")
    case True
    with body[OF less.prems] obtain u where u: "c s = Inr u" "I u" "m u < m s" by blast
    with less.hyps obtain v where "while_loop b c u = Inr v \<and> I v \<and> \<not> b v" by blast
    with True u(1) show ?thesis by (subst while_loop_unfold) simp
  next
    case False
    with less.prems show ?thesis by simp
  qed
qed

text \<open>What every round keeps holds when the loop returns.\<close>

lemma while_loop_keeps:
  assumes "while_loop b c s = Inr t" and "I s" and "\<And>u v. I u \<Longrightarrow> b u \<Longrightarrow> c u = Inr v \<Longrightarrow> I v"
  shows "I t"
proof -
  let ?b = "\<lambda>r. case r of Inl _ \<Rightarrow> False | Inr t \<Rightarrow> b t" and ?c = "\<lambda>r. case r of Inl e \<Rightarrow> Inl e | Inr t \<Rightarrow> c t"
  let ?P = "\<lambda>r. case r of Inl _ \<Rightarrow> True | Inr u \<Rightarrow> I u"
  have w: "while_option ?b ?c (Inr s) = Some (Inr t)"
    using assms(1) by (auto simp: while_loop_def split: option.splits)
  have "?P (?c r)" if "?P r" "?b r" for r
    using that assms(3) by (auto split: sum.splits)
  from while_option_rule[where P = ?P, OF this w] assms(2) show ?thesis by simp
qed

lemma while_loop_ends:
  assumes "while_loop b c s = Inr t"
  shows "\<not> b t"
proof -
  have "while_option (\<lambda>r. case r of Inl _ \<Rightarrow> False | Inr t \<Rightarrow> b t) (\<lambda>r. case r of Inl e \<Rightarrow> Inl e | Inr t \<Rightarrow> c t) (Inr s) = Some (Inr t)"
    using assms by (auto simp: while_loop_def split: option.splits)
  from while_option_stop[OF this] show ?thesis by simp
qed

text \<open>A loop whose body returns and keeps the invariant ends with it or does not end.\<close>

lemma while_loop_safe:
  assumes "I s" and body: "\<And>t. I t \<Longrightarrow> b t \<Longrightarrow> \<exists>u. c t = Inr u \<and> I u"
  shows "while_loop b c s = Inl Diverges \<or> (\<exists>t. while_loop b c s = Inr t \<and> I t \<and> \<not> b t)"
proof -
  let ?b = "\<lambda>r. case r of Inl _ \<Rightarrow> False | Inr t \<Rightarrow> b t" and ?c = "\<lambda>r. case r of Inl e \<Rightarrow> Inl e | Inr t \<Rightarrow> c t"
  let ?P = "\<lambda>r. case r of Inl _ \<Rightarrow> False | Inr u \<Rightarrow> I u"
  have P: "?P (?c r)" if "?P r" "?b r" for r using that body by (cases r) fastforce+
  have start: "?P (Inr s)" using assms(1) by simp
  show ?thesis
  proof (cases "while_option ?b ?c (Inr s)")
    case (Some r)
    have "?P r" by (rule while_option_rule[where P = ?P, OF P Some start])
    moreover have "\<not> ?b r" by (rule while_option_stop[OF Some])
    ultimately show ?thesis using Some by (cases r) (auto simp: while_loop_def)
  qed (simp add: while_loop_def)
qed

text \<open>A loop whose guard can never be left.\<close>

lemma while_loop_diverges:
  assumes "I s" and step: "\<And>t. I t \<Longrightarrow> b t \<and> (\<exists>u. c t = Inr u \<and> I u)"
  shows "while_loop b c s = Inl Diverges"
proof -
  let ?b = "\<lambda>r. case r of Inl _ \<Rightarrow> False | Inr t \<Rightarrow> b t"
  let ?c = "\<lambda>r. case r of Inl e \<Rightarrow> Inl e | Inr t \<Rightarrow> c t"
  have inv: "\<exists>t. (?c ^^ k) (Inr s) = Inr t \<and> I t" for k
  proof (induction k)
    case 0
    with \<open>I s\<close> show ?case by simp
  next
    case (Suc k)
    then obtain t where "(?c ^^ k) (Inr s) = Inr t" "I t" by blast
    with step[OF \<open>I t\<close>] show ?case by auto
  qed
  have "while_option ?b ?c (Inr s) = None"
  proof -
    have "?b ((?c ^^ k) (Inr s))" for k
      using inv[of k] step by auto
    then show ?thesis by (auto simp: while_option_def)
  qed
  then show ?thesis by (simp add: while_loop_def)
qed

section \<open>Reading words as numbers\<close>

named_theorems word_reads \<open>how the conversions between the integer types act on values\<close>

lemma unat_u8_less: "unat (w :: u8) < 256"
  using unsigned_less[of w, where 'a = nat] by simp

lemma unat_u16_less: "unat (w :: u16) < 65536"
  using unsigned_less[of w, where 'a = nat] by simp

lemma unat_u32_less: "unat (w :: u32) < 4294967296"
  using unsigned_less[of w, where 'a = nat] by simp

lemma unat_u64_less: "unat (w :: u64) < 18446744073709551616"
  using unsigned_less[of w, where 'a = nat] by simp

lemma of_nat_unat_id: "of_nat (unat w) = (w :: 'a :: len word)"
  by simp

lemma unat_of_nat_u64: "n < 2 ^ 64 \<Longrightarrow> unat (of_nat n :: u64) = n"
  by (simp add: unat_of_nat)

lemma unat_of_nat_u32: "n < 2 ^ 32 \<Longrightarrow> unat (of_nat n :: u32) = n"
  by (simp add: unat_of_nat)

lemma unat_numeral_u64_big: "unat (4294967296 :: u64) = 2 ^ 32"
  by simp

lemma ucast_of_nat [simp]: "(ucast (of_nat n :: u64) :: u32) = of_nat n"
  by (rule word_unat_eq_iff [THEN iffD2])
    (simp add: unsigned_ucast_eq unsigned_of_nat take_bit_take_bit)

lemma ucast_as_of_nat: "(ucast (w :: u64) :: u32) = of_nat (unat w)"
  by (metis ucast_of_nat of_nat_unat_id)

lemma ucast_size_add [word_reads]: "(ucast (b + c :: u64) :: u32) = ucast b + ucast c"
  by (rule word_unat_eq_iff [THEN iffD2])
    (simp add: unsigned_ucast_eq unat_word_ariths take_bit_eq_mod mod_mod_cancel mod_add_eq)

lemma ucast_scast_int [simp]: "size_to_int (int_to_size a) = a"
  by (rule bit_word_eqI) (auto simp: bit_simps)

lemma ucast_ucast_u32 [simp]: "(ucast (ucast (w :: u32) :: u64) :: u32) = w"
  by (rule bit_word_eqI) (simp add: bit_simps)

lemma unat_ucast_u32 [simp]: "unat (ucast (w :: u32) :: u64) = unat w"
  using unat_u32_less[of w] by (simp add: unsigned_ucast_eq take_bit_nat_eq_self)

lemma unat_ucast_u16_u64 [simp]: "unat (ucast (w :: u16) :: u64) = unat w"
  using unat_u16_less[of w] by (simp add: unsigned_ucast_eq take_bit_nat_eq_self)

lemma unat_ucast_u64_u32: "unat (w :: u64) < 2 ^ 32 \<Longrightarrow> unat (ucast w :: u32) = unat w"
  by (simp add: unsigned_ucast_eq take_bit_nat_eq_self)

text \<open>An \<open>int\<close> below \<open>2^31\<close> has no sign bit, and its conversion to \<open>size_t\<close> keeps it.\<close>

lemma int_no_sign:
  assumes "unat (w :: cint) < 2 ^ 31"
  shows "\<not> bit w 31"
proof -
  have "bit w 31 \<longleftrightarrow> bit (unat w) 31" by (simp add: bit_unsigned_iff)
  also have "\<dots> \<longleftrightarrow> odd (unat w div 2 ^ 31)" by (rule bit_iff_odd)
  finally show ?thesis using assms by simp
qed

lemma scast_nonneg:
  assumes "unat (w :: cint) < 2 ^ 31"
  shows "int_to_size w = ucast w"
proof (rule bit_word_eqI)
  fix n
  show "bit (int_to_size w) n = bit (ucast w :: size_t) n"
    if "n < LENGTH(64)"
    using that int_no_sign[OF assms] bit_imp_le_length[of w n]
    by (cases "n = 31") (auto simp: bit_simps min_def)
qed

lemma unat_scast_int [word_reads]: "unat (w :: cint) < 2 ^ 31 \<Longrightarrow> unat (int_to_size w) = unat w"
  by (simp add: scast_nonneg)

lemma sint_word_of_int:
  "- (2 ^ 31) \<le> x \<Longrightarrow> x < 2 ^ 31 \<Longrightarrow> sint (word_of_int x :: cint) = x"
  by (simp add: signed_of_int signed_take_bit_int_eq_self)

lemma unat_add_u64:
  "unat (a :: u64) + unat b < 2 ^ 64 \<Longrightarrow> unat (a + b) = unat a + unat b"
  by (simp add: unat_word_ariths)

lemma unat_add_u32:
  "unat (a :: u32) + unat b < 2 ^ 32 \<Longrightarrow> unat (a + b) = unat a + unat b"
  by (simp add: unat_word_ariths)

lemma unat_sub_u64: "b \<le> (a :: u64) \<Longrightarrow> unat (a - b) = unat a - unat b"
  by (rule unat_sub)

section \<open>Byte strings\<close>

definition size_of :: "'a list \<Rightarrow> size_t" where
  "size_of xs = of_nat (length xs)"

text \<open>\<open>std::string::substr(pos, n)\<close>.\<close>

definition substr :: "'a list \<Rightarrow> size_t \<Rightarrow> size_t \<Rightarrow> 'a list result" where
  "substr s pos n =
     (if size_of s < pos then Inl (OutOfRange ''basic_string::substr'')
      else Inr (take (unat n) (drop (unat pos) s)))"

lemma unat_size_of: "length xs < 2 ^ 64 \<Longrightarrow> unat (size_of xs) = length xs"
  by (simp add: size_of_def unat_of_nat)

lemma size_of_Nil [simp]: "size_of [] = 0"
  by (simp add: size_of_def)

lemma ucast_size_of [simp]: "size_to_int (size_of xs) = of_nat (length xs)"
  by (simp add: size_of_def)

lemma size_of_append: "size_of (xs @ ys) = size_of xs + size_of ys"
  by (simp add: size_of_def)

lemma size_of_eq_0_iff: "length xs < 2 ^ 64 \<Longrightarrow> size_of xs = 0 \<longleftrightarrow> xs = []"
  using unat_size_of[of xs] by (metis length_0_conv size_of_Nil unat_0)

lemma substr_0 [simp]: "substr s 0 n = Inr (take (unat n) s)"
  by (simp add: substr_def)

lemma substr_ok:
  "unat pos \<le> length s \<Longrightarrow> length s < 2 ^ 64 \<Longrightarrow>
   substr s pos n = Inr (take (unat n) (drop (unat pos) s))"
  by (simp add: substr_def word_less_nat_alt unat_size_of not_less)

lemma substr_out_of_range:
  "length s < unat pos \<Longrightarrow> substr s pos n = Inl (OutOfRange ''basic_string::substr'')"
  using unat_u64_less[of pos] by (simp add: substr_def word_less_nat_alt unat_size_of)

end
