(* ===== verification/Interfaces.thy ===== *)
theory Interfaces
  imports Prelude
begin

text \<open>
  The contracts between components. Each locale names the operations a client calls and the
  laws it may rely on; the lemmas inside are proved once and reused through the
  interpretations in the theories of the providing components.
\<close>

section \<open>Bounded byte pipes\<close>

text \<open>
  What \<open>StreamReassembler\<close> and \<open>TCPSender\<close> expect of a stream: \<open>push\<close> appends the
  longest prefix that fits and says how much that was, \<open>pull\<close> removes from the front.
\<close>

locale byte_pipe =
  fixes inv :: "'s \<Rightarrow> bool"
    and contents :: "'s \<Rightarrow> 'b list"
    and room :: "'s \<Rightarrow> nat"
    and admissible :: "'b list \<Rightarrow> bool"
    and push :: "'s \<Rightarrow> 'b list \<Rightarrow> nat \<times> 's"
    and pull :: "'s \<Rightarrow> nat \<Rightarrow> 'b list \<times> 's"
  assumes push_count: "inv s \<Longrightarrow> admissible d \<Longrightarrow> fst (push s d) = min (length d) (room s)"
    and push_contents: "inv s \<Longrightarrow> admissible d \<Longrightarrow>
          contents (snd (push s d)) = contents s @ take (room s) d"
    and push_room: "inv s \<Longrightarrow> admissible d \<Longrightarrow>
          room (snd (push s d)) = room s - length d"
    and push_inv: "inv s \<Longrightarrow> admissible d \<Longrightarrow> inv (snd (push s d))"
    and pull_data: "inv s \<Longrightarrow> fst (pull s n) = take n (contents s)"
    and pull_contents: "inv s \<Longrightarrow> contents (snd (pull s n)) = drop n (contents s)"
    and pull_inv: "inv s \<Longrightarrow> inv (snd (pull s n))"
begin

primrec push_all :: "'s \<Rightarrow> 'b list list \<Rightarrow> 's" where
  "push_all s [] = s"
| "push_all s (d # ds) = push_all (snd (push s d)) ds"

lemma push_all_fits:
  assumes "inv s" and "list_all admissible ds" and "length (concat ds) \<le> room s"
  shows "inv (push_all s ds) \<and> contents (push_all s ds) = contents s @ concat ds
    \<and> room (push_all s ds) = room s - length (concat ds)"
  using assms
proof (induction ds arbitrary: s)
  case Nil
  then show ?case by simp
next
  case (Cons d ds)
  let ?s = "snd (push s d)"
  have fit: "length d \<le> room s" and rest: "length (concat ds) \<le> room ?s"
    using Cons.prems by (simp_all add: push_room)
  have "inv ?s" using Cons.prems by (simp add: push_inv)
  with Cons.IH[of ?s] Cons.prems rest fit show ?case
    by (simp add: push_contents push_room)
qed

primrec pull_all :: "'s \<Rightarrow> nat list \<Rightarrow> 'b list \<times> 's" where
  "pull_all s [] = ([], s)"
| "pull_all s (n # ns) =
     (let (d, s1) = pull s n; (ds, s2) = pull_all s1 ns in (d @ ds, s2))"

text \<open>Successive pulls deliver the same bytes as one pull of the total.\<close>

lemma pull_all_prefix:
  assumes "inv s"
  shows "fst (pull_all s ns) = take (sum_list ns) (contents s)
    \<and> contents (snd (pull_all s ns)) = drop (sum_list ns) (contents s)"
  using assms
proof (induction ns arbitrary: s)
  case Nil
  then show ?case by simp
next
  case (Cons n ns)
  let ?s = "snd (pull s n)"
  have "inv ?s" using Cons.prems by (rule pull_inv)
  from Cons.IH[OF this] Cons.prems show ?case
    by (simp add: split_beta pull_data pull_contents take_add add.commute)
qed

end

section \<open>Histories of queue-like components\<close>

text \<open>
  A component whose steps accept and deliver elements, and whose contents account for the
  difference. Whatever the sequence of steps, what has been delivered is a prefix of what has
  been accepted, and the contents are the rest.
\<close>

locale fifo_history =
  fixes inv :: "'s \<Rightarrow> bool"
    and contents :: "'s \<Rightarrow> 'b list"
    and legal :: "'o \<Rightarrow> bool"
    and step :: "'s \<Rightarrow> 'o \<Rightarrow> 'b list \<times> 'b list \<times> 's"
  assumes step_inv: "inv s \<Longrightarrow> legal x \<Longrightarrow> step s x = (acc, del, s') \<Longrightarrow> inv s'"
    and step_account: "inv s \<Longrightarrow> legal x \<Longrightarrow> step s x = (acc, del, s') \<Longrightarrow>
          contents s @ acc = del @ contents s'"
begin

primrec run :: "'s \<Rightarrow> 'o list \<Rightarrow> 'b list \<times> 'b list \<times> 's" where
  "run s [] = ([], [], s)"
| "run s (x # xs) =
     (let (a, d, s1) = step s x; (as, ds, s2) = run s1 xs in (a @ as, d @ ds, s2))"

lemma run_account:
  assumes "inv s" and "list_all legal xs" and "run s xs = (acc, del, s')"
  shows "inv s' \<and> contents s @ acc = del @ contents s'"
  using assms
proof (induction xs arbitrary: s acc del s')
  case Nil
  then show ?case by simp
next
  case (Cons x xs)
  obtain a d s1 where st: "step s x = (a, d, s1)" by (metis prod_cases3)
  obtain as ds s2 where rn: "run s1 xs = (as, ds, s2)" by (metis prod_cases3)
  from Cons.prems st rn have eqs: "acc = a @ as" "del = d @ ds" "s' = s2" by simp_all
  have one: "inv s1" "contents s @ a = d @ contents s1"
    using Cons.prems st step_inv step_account by auto
  from Cons.IH[OF one(1) _ rn] Cons.prems(2)
  have "inv s2" "contents s1 @ as = ds @ contents s2" by simp_all
  with one(2) eqs show ?case by (metis append.assoc)
qed

end

section \<open>Strings that lose a prefix\<close>

text \<open>
  The contract \<open>Buffer\<close>, \<open>BufferList\<close> and \<open>BufferViewList\<close> share: a string is exposed,
  \<open>remove\<close> discards bytes from its front and throws when there are not enough.
\<close>

locale prefix_view =
  fixes inv :: "'s \<Rightarrow> bool"
    and view :: "'s \<Rightarrow> bytes"
    and remove :: "'s \<Rightarrow> size_t \<Rightarrow> 's result"
  assumes remove_ok: "inv s \<Longrightarrow> unat n \<le> length (view s) \<Longrightarrow>
      \<exists>s'. remove s n = Inr s' \<and> inv s' \<and> view s' = drop (unat n) (view s)"
begin

text \<open>
  A queue of such strings: the loop pops the elements that are removed as a whole and shortens
  the next one. It ends because every round but the last one shortens the queue.
\<close>

lemma queue_remove:
  fixes q :: "'s list"
  assumes "list_all inv q" and "length (concat (map view q)) < 2 ^ 63"
    and body: "\<And>n. body (n, []) = Inl err"
      "\<And>n e es. body (n, e # es) =
        (if n < size_of (view e) then andthen (remove e n) (\<lambda>e'. Inr (0, e' # es))
         else Inr (n - size_of (view e), es))"
  shows "(length (concat (map view q)) < unat n \<longrightarrow> while_loop (\<lambda>(n, q). 0 < n) body (n, q) = Inl err) \<and>
    (unat n \<le> length (concat (map view q)) \<longrightarrow>
      (\<exists>q'. while_loop (\<lambda>(n, q). 0 < n) body (n, q) = Inr (0, q') \<and> list_all inv q' \<and>
        concat (map view q') = drop (unat n) (concat (map view q))))"
  using assms(1,2)
proof (induction q arbitrary: n)
  case Nil
  then show ?case by (cases "n = 0") (auto simp: word_greater_zero_iff while_loop_unfold body unat_eq_zero)
next
  case (Cons e es)
  show ?case
  proof (cases "n = 0")
    case True
    with Cons.prems show ?thesis by (auto intro!: exI[of _ "e # es"])
  next
    case False
    then have pos: "0 < n" by (simp add: word_greater_zero_iff)
    have sz: "unat (size_of (view e)) = length (view e)" using Cons.prems by (simp add: unat_size_of)
    show ?thesis
    proof (cases "n < size_of (view e)")
      case True
      then have lt: "unat n < length (view e)" by (simp add: word_less_nat_alt sz)
      then obtain e' where e': "remove e n = Inr e'" "inv e'" "view e' = drop (unat n) (view e)"
        using remove_ok[of e n] Cons.prems by auto
      then have "while_loop (\<lambda>(n, q). 0 < n) body (n, e # es) = Inr (0, e' # es)"
        using pos True by (subst while_loop_unfold) (simp add: body)
      with e' lt Cons.prems show ?thesis by auto
    next
      case False
      then have ge: "length (view e) \<le> unat n" by (simp add: word_less_nat_alt sz)
      then have sub: "unat (n - size_of (view e)) = unat n - length (view e)"
        by (subst unat_sub) (simp_all add: word_le_nat_alt sz)
      have "while_loop (\<lambda>(n, q). 0 < n) body (n, e # es) = while_loop (\<lambda>(n, q). 0 < n) body (n - size_of (view e), es)"
        using pos False by (subst while_loop_unfold) (simp add: body)
      with Cons.IH[of "n - size_of (view e)"] Cons.prems sub ge show ?thesis by auto
    qed
  qed
qed

end

locale prefix_removable = prefix_view +
  fixes msg :: string
  assumes remove_throws: "inv s \<Longrightarrow> length (view s) < unat n \<Longrightarrow> remove s n = Inl (OutOfRange msg)"
begin

lemma remove_iff: "inv s \<Longrightarrow> (\<exists>s'. remove s n = Inr s') \<longleftrightarrow> unat n \<le> length (view s)"
  using remove_ok[of s n] remove_throws[of s n] by (cases "unat n \<le> length (view s)") auto

lemma remove_twice:
  assumes "inv s" and "unat m + unat n \<le> length (view s)"
  shows "\<exists>s'. andthen (remove s m) (\<lambda>t. remove t n) = Inr s' \<and> inv s' \<and>
    view s' = drop (unat m + unat n) (view s)"
proof -
  from assms obtain t where t: "remove s m = Inr t" "inv t" "view t = drop (unat m) (view s)"
    using remove_ok[of s m] by auto
  moreover have "unat n \<le> length (view t)" using assms(2) t(3) by simp
  then obtain u where "remove t n = Inr u" "inv u" "view u = drop (unat n) (view t)"
    using remove_ok[OF t(2)] by blast
  ultimately show ?thesis by (simp add: add.commute)
qed

end

section \<open>Refinement of an abstract machine\<close>

text \<open>Operations one after the other, with what each returned.\<close>

primrec run_ops :: "('s \<Rightarrow> 'o \<Rightarrow> ('y \<times> 's) result) \<Rightarrow> 's \<Rightarrow> 'o list \<Rightarrow> ('y list \<times> 's) result" where
  "run_ops step s [] = Inr ([], s)"
| "run_ops step s (x # xs) =
     andthen (step s x) (\<lambda>(y, s1).
     andthen (run_ops step s1 xs) (\<lambda>(ys, s2). Inr (y # ys, s2)))"

primrec spec_run :: "('o \<Rightarrow> 'a \<Rightarrow> 'y \<times> 'a) \<Rightarrow> 'o list \<Rightarrow> 'a \<Rightarrow> 'y list \<times> 'a" where
  "spec_run spec [] a = ([], a)"
| "spec_run spec (x # xs) a =
     (let (y, a1) = spec x a; (ys, a2) = spec_run spec xs a1 in (y # ys, a2))"

text \<open>
  A component that implements an abstract machine: on every legal operation it returns
  normally, keeps its invariant, answers as the machine does and stays related to it.
\<close>

locale simulation =
  fixes inv :: "'s \<Rightarrow> bool"
    and legal :: "'o \<Rightarrow> bool"
    and step :: "'s \<Rightarrow> 'o \<Rightarrow> ('y \<times> 's) result"
    and abs :: "'s \<Rightarrow> 'a"
    and spec :: "'o \<Rightarrow> 'a \<Rightarrow> 'y \<times> 'a"
  assumes sim: "inv s \<Longrightarrow> legal x \<Longrightarrow>
    \<exists>y s'. step s x = Inr (y, s') \<and> inv s' \<and> spec x (abs s) = (y, abs s')"
begin

lemma run_sim:
  assumes "inv s" and "list_all legal xs"
  shows "\<exists>ys s'. run_ops step s xs = Inr (ys, s') \<and> inv s' \<and> spec_run spec xs (abs s) = (ys, abs s')"
  using assms
proof (induction xs arbitrary: s)
  case Nil
  then show ?case by simp
next
  case (Cons x xs)
  from Cons.prems obtain y s1 where one: "step s x = Inr (y, s1)" "inv s1" "spec x (abs s) = (y, abs s1)"
    using sim by fastforce
  from Cons.IH[OF one(2)] Cons.prems obtain ys s2 where
    "run_ops step s1 xs = Inr (ys, s2)" "inv s2" "spec_run spec xs (abs s1) = (ys, abs s2)" by auto
  with one show ?case by simp
qed

end

section \<open>Sequence-number codecs\<close>

text \<open>
  What sender and receiver rely on: an absolute number, encoded, is recovered exactly from a
  checkpoint that is less than \<open>half\<close> away.
\<close>

locale seqno_codec =
  fixes enc :: "nat \<Rightarrow> 'w"
    and dec :: "'w \<Rightarrow> nat \<Rightarrow> 'e + nat"
    and limit :: nat
    and half :: nat
  assumes dec_enc: "c < limit \<Longrightarrow> n < c + half \<Longrightarrow> c < n + half \<Longrightarrow> dec (enc n) c = Inr n"
    and half_pos: "0 < half"
begin

lemma enc_inj_on_window:
  assumes "c < limit" and "m < c + half" "c < m + half" "n < c + half" "c < n + half"
    and "enc m = enc n"
  shows "m = n"
  by (metis assms dec_enc sum.inject(2))

lemma dec_enc_self: "c < limit \<Longrightarrow> dec (enc c) c = Inr c"
  using half_pos by (intro dec_enc) simp_all

text \<open>Comparing two decoded numbers is comparing the originals.\<close>

lemma dec_order:
  assumes "c < limit" and "m < c + half" "c < m + half" "n < c + half" "c < n + half"
  shows "dec (enc m) c = Inr x \<Longrightarrow> dec (enc n) c = Inr y \<Longrightarrow> x \<le> y \<longleftrightarrow> m \<le> n"
  by (metis assms dec_enc sum.inject(2))

end

end
