(* ===== verification/Byte_Stream.thy ===== *)
theory Byte_Stream
  imports Prelude Interfaces
begin

text \<open>
  The flow-controlled in-memory stream of \<open>libsponge/byte_stream.{hh,cc}\<close>: a bounded buffer
  with a writer and a reader and two running totals. The totals and the capacity are \<open>int\<close>
  members, so they wrap at 32 bits and are sign-extended when an accessor returns them.
\<close>

section \<open>State and operations\<close>

record ByteStream =
  bs_capacity :: cint
  bs_end :: bool
  bs_total_read :: cint
  bs_written :: cint
  bs_buffer :: bytes
  bs_error :: bool

definition ByteStream_new :: "size_t \<Rightarrow> ByteStream" where
  "ByteStream_new cp =
     \<lparr>bs_capacity = size_to_int cp, bs_end = False, bs_total_read = 0, bs_written = 0,
      bs_buffer = [], bs_error = False\<rparr>"

definition ByteStream_remaining_capacity :: "ByteStream \<Rightarrow> size_t" where
  "ByteStream_remaining_capacity s = int_to_size (bs_capacity s) - size_of (bs_buffer s)"

definition ByteStream_write :: "ByteStream \<Rightarrow> bytes \<Rightarrow> size_t \<times> ByteStream" where
  "ByteStream_write s data =
     (if size_of data \<le> ByteStream_remaining_capacity s
      then (size_of data,
            s\<lparr>bs_buffer := bs_buffer s @ data,
              bs_written := size_to_int (int_to_size (bs_written s) + size_of data)\<rparr>)
      else let count = size_to_int (ByteStream_remaining_capacity s)
           in (int_to_size count,
               s\<lparr>bs_buffer := bs_buffer s @ take (unat (int_to_size count)) data,
                 bs_written := bs_written s + count\<rparr>))"

definition ByteStream_peek_output :: "ByteStream \<Rightarrow> size_t \<Rightarrow> bytes" where
  "ByteStream_peek_output s len = take (unat len) (bs_buffer s)"

definition ByteStream_pop_output :: "ByteStream \<Rightarrow> size_t \<Rightarrow> ByteStream result" where
  "ByteStream_pop_output s len =
     andthen (substr (bs_buffer s) len (size_of (bs_buffer s)))
       (\<lambda>b. Inr (s\<lparr>bs_buffer := b,
                   bs_total_read := size_to_int (int_to_size (bs_total_read s) + len)\<rparr>))"

definition ByteStream_read :: "ByteStream \<Rightarrow> size_t \<Rightarrow> (bytes \<times> ByteStream) result" where
  "ByteStream_read s len =
     (let l = (if size_of (bs_buffer s) < len then size_to_int (size_of (bs_buffer s))
               else size_to_int len);
          res = ByteStream_peek_output s (int_to_size l)
      in andthen (ByteStream_pop_output s (int_to_size l)) (\<lambda>s'. Inr (res, s')))"

definition ByteStream_end_input :: "ByteStream \<Rightarrow> ByteStream" where
  "ByteStream_end_input s = s\<lparr>bs_end := True\<rparr>"

definition ByteStream_set_error :: "ByteStream \<Rightarrow> ByteStream" where
  "ByteStream_set_error s = s\<lparr>bs_error := True\<rparr>"

definition ByteStream_input_ended :: "ByteStream \<Rightarrow> bool" where
  "ByteStream_input_ended s = bs_end s"

definition ByteStream_error :: "ByteStream \<Rightarrow> bool" where
  "ByteStream_error s = bs_error s"

definition ByteStream_buffer_size :: "ByteStream \<Rightarrow> size_t" where
  "ByteStream_buffer_size s = size_of (bs_buffer s)"

definition ByteStream_buffer_empty :: "ByteStream \<Rightarrow> bool" where
  "ByteStream_buffer_empty s = (if size_of (bs_buffer s) = 0 then True else False)"

definition ByteStream_eof :: "ByteStream \<Rightarrow> bool" where
  "ByteStream_eof s \<longleftrightarrow> ByteStream_input_ended s \<and> size_of (bs_buffer s) = 0"

definition ByteStream_bytes_written :: "ByteStream \<Rightarrow> size_t" where
  "ByteStream_bytes_written s = int_to_size (bs_written s)"

definition ByteStream_bytes_read :: "ByteStream \<Rightarrow> size_t" where
  "ByteStream_bytes_read s = int_to_size (bs_total_read s)"

section \<open>Invariants\<close>

text \<open>
  \<open>bs_wf\<close> holds after every sequence of calls. \<open>bs_linear\<close> adds that fewer than \<open>2^31\<close>
  bytes have been written, which is when the totals can be read as numbers.
\<close>

definition bs_wf :: "ByteStream \<Rightarrow> bool" where
  "bs_wf s \<longleftrightarrow> unat (bs_capacity s) < 2 ^ 31 \<and> length (bs_buffer s) \<le> unat (bs_capacity s) \<and>
     bs_written s = bs_total_read s + of_nat (length (bs_buffer s))"

definition bs_linear :: "ByteStream \<Rightarrow> bool" where
  "bs_linear s \<longleftrightarrow> bs_wf s \<and> unat (bs_written s) < 2 ^ 31 \<and>
     unat (bs_total_read s) + length (bs_buffer s) = unat (bs_written s)"

named_theorems bs_defs \<open>the operations of the byte stream\<close>

lemmas bs_operation_defs [bs_defs] =
  ByteStream_new_def ByteStream_remaining_capacity_def ByteStream_write_def
  ByteStream_peek_output_def ByteStream_pop_output_def ByteStream_read_def
  ByteStream_end_input_def ByteStream_set_error_def ByteStream_input_ended_def
  ByteStream_error_def ByteStream_buffer_size_def ByteStream_buffer_empty_def
  ByteStream_eof_def ByteStream_bytes_written_def ByteStream_bytes_read_def

definition bs_room :: "ByteStream \<Rightarrow> nat" where
  "bs_room s = unat (bs_capacity s) - length (bs_buffer s)"

section \<open>Behaviour of the operations\<close>

lemma bs_wf_length: "bs_wf s \<Longrightarrow> length (bs_buffer s) < 2 ^ 31"
  by (auto simp: bs_wf_def)

lemma bs_wf_unat_size [simp]: "bs_wf s \<Longrightarrow> unat (size_of (bs_buffer s)) = length (bs_buffer s)"
  using bs_wf_length by (subst unat_size_of) fastforce+

lemma remaining_capacity_room:
  assumes "bs_wf s"
  shows "unat (ByteStream_remaining_capacity s) = bs_room s"
proof -
  have "size_of (bs_buffer s) \<le> int_to_size (bs_capacity s)"
    using assms by (simp add: word_le_nat_alt unat_scast_int bs_wf_def[of s])
  with assms show ?thesis
    by (simp add: ByteStream_remaining_capacity_def unat_sub bs_room_def unat_scast_int bs_wf_def[of s])
qed

lemma buffer_empty_iff [simp]: "bs_wf s \<Longrightarrow> ByteStream_buffer_empty s \<longleftrightarrow> bs_buffer s = []"
  using bs_wf_length[of s] by (simp add: ByteStream_buffer_empty_def size_of_eq_0_iff)

lemma eof_iff: "bs_wf s \<Longrightarrow> ByteStream_eof s \<longleftrightarrow> bs_end s \<and> bs_buffer s = []"
  using bs_wf_length[of s]
  by (simp add: ByteStream_eof_def ByteStream_input_ended_def size_of_eq_0_iff)

text \<open>\<open>write\<close> accepts the longest prefix that fits and reports its length.\<close>

lemma write_spec:
  assumes "bs_wf s" and "length data < 2 ^ 63"
  shows "ByteStream_write s data =
     (of_nat (min (length data) (bs_room s)),
      s\<lparr>bs_buffer := bs_buffer s @ take (bs_room s) data,
        bs_written := bs_written s + of_nat (min (length data) (bs_room s))\<rparr>)"
proof -
  have room: "bs_room s < 2 ^ 31"
    using assms(1) by (auto simp: bs_wf_def bs_room_def)
  have rem: "ByteStream_remaining_capacity s = of_nat (bs_room s)"
    by (metis assms(1) remaining_capacity_room of_nat_unat_id)
  have sz: "unat (size_of data) = length data"
    using assms(2) by (simp add: unat_size_of)
  have fits: "size_of data \<le> ByteStream_remaining_capacity s \<longleftrightarrow> length data \<le> bs_room s"
    by (simp add: word_le_nat_alt sz remaining_capacity_room[OF assms(1)])
  have cnt: "int_to_size (size_to_int (ByteStream_remaining_capacity s)) = of_nat (bs_room s)"
    using room by (intro word_unat_eq_iff [THEN iffD2])
      (simp add: rem unat_scast_int unat_of_nat_u32 unat_of_nat_u64)
  show ?thesis
  proof (cases "length data \<le> bs_room s")
    case True
    then show ?thesis
      using fits by (simp add: ByteStream_write_def word_reads min_def size_of_def)
  next
    case False
    then show ?thesis
      using fits room by (simp add: ByteStream_write_def Let_def cnt min_def)
        (simp add: rem unat_of_nat_u64)
  qed
qed

lemma write_wf:
  assumes "bs_wf s" and "length data < 2 ^ 63"
  shows "bs_wf (snd (ByteStream_write s data))"
  using assms(1) by (simp add: write_spec[OF assms]) (auto simp: bs_wf_def bs_room_def min_def)

text \<open>\<open>pop_output\<close> throws when asked for more than the buffer holds, as \<open>substr\<close> does.\<close>

lemma pop_output_spec:
  assumes "bs_wf s"
  shows "ByteStream_pop_output s len =
     (if length (bs_buffer s) < unat len then Inl (OutOfRange ''basic_string::substr'')
      else Inr (s\<lparr>bs_buffer := drop (unat len) (bs_buffer s),
                  bs_total_read := bs_total_read s + ucast len\<rparr>))"
  using assms bs_wf_length[OF assms]
  by (simp add: ByteStream_pop_output_def substr_out_of_range substr_ok word_reads)

lemma pop_output_wf:
  assumes "bs_wf s" and "ByteStream_pop_output s len = Inr s'"
  shows "bs_wf s'"
proof -
  have le: "unat len \<le> length (bs_buffer s)"
    using assms by (simp add: pop_output_spec split: if_splits)
  have "(ucast len :: cint) = of_nat (unat len)" by (rule ucast_as_of_nat)
  moreover have "(of_nat (length (bs_buffer s)) :: cint) =
      of_nat (unat len) + of_nat (length (bs_buffer s) - unat len)"
    using le by (simp flip: of_nat_add)
  ultimately show ?thesis
    using assms le by (auto simp: pop_output_spec bs_wf_def split: if_splits)
qed

text \<open>\<open>read\<close> clamps its argument first, so it never throws.\<close>

lemma read_spec:
  assumes "bs_wf s"
  shows "ByteStream_read s len =
     Inr (take (unat len) (bs_buffer s),
          s\<lparr>bs_buffer := drop (unat len) (bs_buffer s),
            bs_total_read := bs_total_read s + of_nat (min (unat len) (length (bs_buffer s)))\<rparr>)"
proof -
  let ?n = "min (unat len) (length (bs_buffer s))"
  define l where "l = (if size_of (bs_buffer s) < len then size_to_int (size_of (bs_buffer s))
                       else size_to_int len)"
  have small: "length (bs_buffer s) < 2 ^ 31" by (rule bs_wf_length[OF assms])
  have lt: "size_of (bs_buffer s) < len \<longleftrightarrow> length (bs_buffer s) < unat len"
    by (simp add: word_less_nat_alt assms)
  have "l = of_nat (unat (if size_of (bs_buffer s) < len then size_of (bs_buffer s) else len))"
    by (simp add: l_def)
  also have "\<dots> = of_nat ?n"
    by (simp add: lt assms min_def)
  finally have leq: "l = of_nat ?n" .
  then have l: "unat (int_to_size l) = ?n"
    using small by (simp add: unat_scast_int unat_of_nat_u32 min_less_iff_disj)
  have "ByteStream_read s len =
      Inr (take ?n (bs_buffer s),
           s\<lparr>bs_buffer := drop ?n (bs_buffer s), bs_total_read := bs_total_read s + of_nat ?n\<rparr>)"
    by (simp add: ByteStream_read_def Let_def ByteStream_peek_output_def
        pop_output_spec[OF assms] l leq[symmetric] flip: l_def)
  then show ?thesis by (simp add: min_def)
qed

lemma read_wf:
  assumes "bs_wf s" and "ByteStream_read s len = Inr (d, s')"
  shows "bs_wf s'"
proof -
  let ?n = "min (unat len) (length (bs_buffer s))"
  have "(of_nat (length (bs_buffer s)) :: cint) = of_nat ?n + of_nat (length (bs_buffer s) - unat len)"
    by (simp add: min_def flip: of_nat_add)
  then show ?thesis
    using assms by (auto simp: read_spec bs_wf_def)
qed

section \<open>The stream as a bounded pipe\<close>

interpretation bs_pipe: byte_pipe bs_wf bs_buffer bs_room "\<lambda>d. length d < 2 ^ 63"
  "\<lambda>s d. map_prod unat id (ByteStream_write s d)"
  "\<lambda>s n. projr (ByteStream_read s (of_nat (min n (length (bs_buffer s)))))"
proof (unfold_locales, goal_cases)
  case (1 s d)
  then show ?case
    by (simp add: write_spec) (rule unat_of_nat_u64, simp)
next
  case (2 s d)
  then show ?case by (simp add: write_spec)
next
  case (3 s d)
  then show ?case by (auto simp: write_spec bs_room_def min_def)
next
  case (4 s d)
  then show ?case by (simp add: write_wf)
next
  case (5 s n)
  then show ?case using bs_wf_length[of s] by (simp add: read_spec unat_of_nat_u64 min_def)
next
  case (6 s n)
  then show ?case using bs_wf_length[of s] by (simp add: read_spec unat_of_nat_u64 min_def)
next
  case (7 s n)
  then show ?case
    using read_wf[of s "of_nat (min n (length (bs_buffer s)))"] by (simp add: read_spec)
qed

section \<open>Histories\<close>

text \<open>
  A call of the public interface; \<open>bs_step\<close> returns the bytes the call accepted and the bytes
  it delivered. A \<open>pop_output\<close> that throws leaves the stream as it was.
\<close>

datatype bs_op = Write bytes | Pop_output size_t | Read size_t | End_input | Set_error

fun bs_step :: "ByteStream \<Rightarrow> bs_op \<Rightarrow> bytes \<times> bytes \<times> ByteStream" where
  "bs_step s (Write d) = (let (n, s') = ByteStream_write s d in (take (unat n) d, [], s'))"
| "bs_step s (Pop_output n) =
     (case ByteStream_pop_output s n of
        Inl _ \<Rightarrow> ([], [], s)
      | Inr s' \<Rightarrow> ([], ByteStream_peek_output s n, s'))"
| "bs_step s (Read n) =
     (case ByteStream_read s n of Inl _ \<Rightarrow> ([], [], s) | Inr (d, s') \<Rightarrow> ([], d, s'))"
| "bs_step s End_input = ([], [], ByteStream_end_input s)"
| "bs_step s Set_error = ([], [], ByteStream_set_error s)"

primrec bs_run :: "ByteStream \<Rightarrow> bs_op list \<Rightarrow> bytes \<times> bytes \<times> ByteStream" where
  "bs_run s [] = ([], [], s)"
| "bs_run s (x # xs) =
     (let (a, d, s1) = bs_step s x; (as, ds, s2) = bs_run s1 xs in (a @ as, d @ ds, s2))"

fun bs_legal :: "bs_op \<Rightarrow> bool" where
  "bs_legal (Write d) \<longleftrightarrow> length d < 2 ^ 63"
| "bs_legal _ \<longleftrightarrow> True"

lemma unat_min_room:
  "bs_wf s \<Longrightarrow> unat (of_nat (min n (bs_room s)) :: size_t) = min n (bs_room s)"
  by (rule unat_of_nat_u64) (auto simp: bs_wf_def bs_room_def)

text \<open>One step: well-formedness, the account of bytes, and the two totals.\<close>

lemma bs_step_facts:
  assumes "bs_wf s" and "bs_legal x" and "bs_step s x = (a, d, s')"
  shows "bs_wf s'" and "bs_buffer s @ a = d @ bs_buffer s'"
    and "bs_written s' = bs_written s + of_nat (length a)"
    and "bs_total_read s' = bs_total_read s + of_nat (length d)"
    and "bs_capacity s' = bs_capacity s"
proof -
  have "bs_wf s' \<and> bs_buffer s @ a = d @ bs_buffer s' \<and>
      bs_written s' = bs_written s + of_nat (length a) \<and>
      bs_total_read s' = bs_total_read s + of_nat (length d) \<and> bs_capacity s' = bs_capacity s"
  proof (cases x)
    case (Write b)
    then have b: "length b < 2 ^ 63" using assms(2) by simp
    have tk: "take (min (length b) (bs_room s)) b = take (bs_room s) b" by (simp add: min_def)
    from write_wf[OF assms(1) b] assms(3) Write show ?thesis
      by (auto simp: write_spec[OF assms(1) b] unat_min_room[OF assms(1)] tk)
  next
    case (Pop_output n)
    with assms pop_output_wf[OF assms(1), of n] show ?thesis
      by (auto simp: pop_output_spec ByteStream_peek_output_def min_def split: if_splits)
  next
    case (Read n)
    with assms read_wf[OF assms(1), of n] show ?thesis
      by (auto simp: read_spec min_def split: if_splits)
  qed (use assms in \<open>auto simp: bs_defs bs_wf_def\<close>)
  then show "bs_wf s'" and "bs_buffer s @ a = d @ bs_buffer s'"
    and "bs_written s' = bs_written s + of_nat (length a)"
    and "bs_total_read s' = bs_total_read s + of_nat (length d)"
    and "bs_capacity s' = bs_capacity s"
    by simp_all
qed

interpretation bs_hist: fifo_history bs_wf bs_buffer bs_legal bs_step
  by unfold_locales (blast intro: bs_step_facts)+

lemma bs_run_is_run: "bs_run s xs = bs_hist.run s xs"
  by (induction xs arbitrary: s) (simp_all add: split_beta)

lemma bs_run_totals:
  assumes "bs_wf s" and "list_all bs_legal xs" and "bs_run s xs = (w, r, s')"
  shows "bs_written s' = bs_written s + of_nat (length w) \<and>
    bs_total_read s' = bs_total_read s + of_nat (length r) \<and> bs_capacity s' = bs_capacity s"
  using assms
proof (induction xs arbitrary: s w r s')
  case Nil
  then show ?case by simp
next
  case (Cons x xs)
  obtain a d s1 where st: "bs_step s x = (a, d, s1)" by (metis prod_cases3)
  obtain as ds s2 where rn: "bs_run s1 xs = (as, ds, s2)" by (metis prod_cases3)
  have "bs_legal x" using Cons.prems by simp
  note one = bs_step_facts[OF Cons.prems(1) this st]
  from Cons.IH[OF one(1) _ rn] Cons.prems one st rn show ?case by auto
qed

lemma bs_new_wf [simp]: "unat cp < 2 ^ 31 \<Longrightarrow> bs_wf (ByteStream_new cp)"
  by (simp add: bs_wf_def ByteStream_new_def unat_ucast_u64_u32)


section \<open>Properties\<close>

text \<open>C28: A byte stream is a bounded first-in first-out queue. After any sequence of calls on a new
stream, the bytes delivered to the reader followed by the buffered bytes are exactly the bytes
accepted from the writer; the buffer never exceeds the capacity and \<open>remaining_capacity\<close> is the
rest; and as long as fewer than \<open>2^31\<close> bytes were accepted, \<open>bytes_written\<close> and \<open>bytes_read\<close> are
the two counts.\<close>

theorem bs_fifo:
  assumes cp: "unat cp < 2 ^ 31" and leg: "list_all bs_legal ops"
    and run: "bs_run (ByteStream_new cp) ops = (w, r, s)"
  shows "w = r @ bs_buffer s \<and> length (bs_buffer s) \<le> unat cp \<and>
    unat (ByteStream_remaining_capacity s) = unat cp - length (bs_buffer s) \<and>
    (length w < 2 ^ 31 \<longrightarrow>
       unat (ByteStream_bytes_written s) = length w \<and> unat (ByteStream_bytes_read s) = length r)"
proof -
  have new: "bs_wf (ByteStream_new cp)" using cp by simp
  have acc: "bs_wf s" "w = r @ bs_buffer s"
    using bs_hist.run_account[OF new leg run[unfolded bs_run_is_run]]
    by (simp_all add: ByteStream_new_def)
  note tot = bs_run_totals[OF new leg run]
  have cap: "unat (bs_capacity s) = unat cp"
    using tot cp by (simp add: ByteStream_new_def unat_ucast_u64_u32)
  have len: "unat (ByteStream_bytes_written s) = length w \<and> unat (ByteStream_bytes_read s) = length r"
    if small: "length w < 2 ^ 31"
  proof -
    have "length r < 2 ^ 31" using acc(2) small by simp
    then have "unat (bs_written s) = length w" "unat (bs_total_read s) = length r"
      using tot small by (simp_all add: ByteStream_new_def unat_of_nat_u32)
    then show ?thesis using small \<open>length r < 2 ^ 31\<close>
      by (simp add: ByteStream_bytes_written_def ByteStream_bytes_read_def unat_scast_int)
  qed
  show ?thesis
    using acc cap len remaining_capacity_room[OF acc(1)] by (simp add: bs_room_def bs_wf_def)
qed

theorem bs_fifo_witness:
  "bs_run (ByteStream_new 3) [Write [1, 2, 3, 4], Read 2, Write [5, 6], Pop_output 9, End_input] =
     ([1, 2, 3, 5, 6], [1, 2], \<lparr>bs_capacity = 3, bs_end = True, bs_total_read = 2, bs_written = 5,
       bs_buffer = [3, 5, 6], bs_error = False\<rparr>) \<and>
   unat (ByteStream_bytes_written \<lparr>bs_capacity = 3, bs_end = True, bs_total_read = 2, bs_written = 5,
       bs_buffer = [3, 5, 6], bs_error = False\<rparr>) = 5"
proof -
  have run: "bs_run (ByteStream_new 3) [Write [1, 2, 3, 4], Read 2, Write [5, 6], Pop_output 9, End_input] =
     ([1, 2, 3, 5, 6], [1, 2], \<lparr>bs_capacity = 3, bs_end = True, bs_total_read = 2, bs_written = 5,
       bs_buffer = [3, 5, 6], bs_error = False\<rparr>)"
    by code_simp
  with bs_fifo[OF _ _ run] show ?thesis by simp
qed

text \<open>\<open>read\<close> clamps its argument to the buffer size and so never throws, while \<open>pop_output\<close>
throws \<open>out_of_range\<close> exactly when asked for more than is buffered; when it does not, \<open>read\<close> is
\<open>peek_output\<close> followed by \<open>pop_output\<close>.\<close>

theorem read_is_peek_pop:
  assumes "bs_wf s"
  shows "\<exists>s'. ByteStream_read s len = Inr (ByteStream_peek_output s len, s') \<and>
    ByteStream_pop_output s len =
      (if length (bs_buffer s) < unat len then Inl (OutOfRange ''basic_string::substr'') else Inr s')"
proof -
  have "(ucast len :: cint) = of_nat (unat len)" by (rule ucast_as_of_nat)
  then show ?thesis
    using assms by (simp add: read_spec pop_output_spec ByteStream_peek_output_def min_def)
qed

theorem read_is_peek_pop_witness:
  "\<exists>s'. ByteStream_read (snd (ByteStream_write (ByteStream_new 4) [1, 2, 3])) 2 =
      Inr (ByteStream_peek_output (snd (ByteStream_write (ByteStream_new 4) [1, 2, 3])) 2, s') \<and>
    ByteStream_pop_output (snd (ByteStream_write (ByteStream_new 4) [1, 2, 3])) 2 =
      (if length (bs_buffer (snd (ByteStream_write (ByteStream_new 4) [1, 2, 3]))) < unat (2 :: size_t)
       then Inl (OutOfRange ''basic_string::substr'') else Inr s')"
  by (rule read_is_peek_pop, rule write_wf) simp_all

text \<open>The totals are \<open>int\<close> members: the byte that takes \<open>written\<close> to \<open>2^31\<close> makes it negative, and
\<open>bytes_written\<close> returns \<open>2^64 - 2^31\<close> from then on.\<close>

theorem bytes_written_wraps:
  "ByteStream_bytes_written (snd (ByteStream_write
     ((ByteStream_new 10)\<lparr>bs_total_read := 0x7FFFFFFF, bs_written := 0x7FFFFFFF\<rparr>) [1])) =
   0xFFFFFFFF80000000"
  by code_simp

end
