(* ===== verification/Stream_Reassembler.thy ===== *)
theory Stream_Reassembler
  imports Byte_Stream
begin

text \<open>
  \<open>libsponge/stream_reassembler.{hh,cc}\<close>: substrings of a byte stream arrive in any order,
  possibly overlapping, and the in-order prefix is written to a \<open>ByteStream\<close>. The
  \<open>std::map\<close> from the index of the last byte of a stored piece to the piece is an association
  list in key order. The member \<open>AddTempCash\<close> is split into the three stages its body has:
  trimming, merging into the map, and draining the map into the output.
\<close>

section \<open>State and operations\<close>

record StreamReassembler =
  sr_output :: ByteStream
  sr_capacity :: size_t
  sr_unassembled :: size_t
  sr_m :: "(size_t \<times> bytes) list"
  sr_endIdx :: size_t

definition StreamReassembler_new :: "size_t \<Rightarrow> StreamReassembler" where
  "StreamReassembler_new capacity =
     \<lparr>sr_output = ByteStream_new capacity, sr_capacity = capacity, sr_unassembled = 0,
      sr_m = [], sr_endIdx = - 1\<rparr>"

definition StreamReassembler_unassembled_bytes :: "StreamReassembler \<Rightarrow> size_t" where
  "StreamReassembler_unassembled_bytes r = sr_unassembled r"

definition StreamReassembler_empty :: "StreamReassembler \<Rightarrow> bool" where
  "StreamReassembler_empty r \<longleftrightarrow> sr_unassembled r = 0"

definition StreamReassembler_overflow :: "StreamReassembler \<Rightarrow> size_t \<Rightarrow> cint" where
  "StreamReassembler_overflow r rb =
     size_to_int (ByteStream_bytes_read (sr_output r) + sr_capacity r - 1 - rb)"

definition combine :: "bytes \<Rightarrow> bytes \<Rightarrow> size_t \<Rightarrow> size_t \<Rightarrow> bytes result" where
  "combine s1 s2 index1 index2 =
     (let (left, right, in1, in2) =
            (if index1 < index2 then (s1, s2, index1, index2) else (s2, s1, index2, index1))
      in if in2 + size_of right \<le> in1 + size_of left then Inr left
         else andthen (substr right (in1 + size_of left - in2) (size_of right))
                (\<lambda>t. Inr (left @ t)))"

text \<open>The index of the first byte of a stored piece, and \<open>m[k] = v\<close> on the ordered map.\<close>

definition piece_start :: "size_t \<times> bytes \<Rightarrow> size_t" where
  "piece_start e = fst e - size_of (snd e) + 1"

fun map_put :: "size_t \<Rightarrow> bytes \<Rightarrow> (size_t \<times> bytes) list \<Rightarrow> (size_t \<times> bytes) list" where
  "map_put k v [] = [(k, v)]"
| "map_put k v (e # m) =
     (if k < fst e then (k, v) # e # m
      else if k = fst e then (k, v) # m
      else e # map_put k v m)"

text \<open>
  Trimming: \<open>None\<close> is one of the early returns, otherwise the data that is left with the
  indices of its first and last byte.
\<close>

definition AddTempCash_trim ::
  "StreamReassembler \<Rightarrow> bytes \<Rightarrow> size_t \<Rightarrow> (bytes \<times> size_t \<times> size_t) option result" where
  "AddTempCash_trim r data index =
     (if size_of data = 0 then Inr None
      else
        let bw = ByteStream_bytes_written (sr_output r);
            rb = index + size_of data - 1
        in if index < bw \<and> rb < bw then Inr None
           else andthen
             (if index < bw
              then andthen (substr data (bw - index) (size_of data)) (\<lambda>d. Inr (d, bw))
              else Inr (data, index))
             (\<lambda>(d, lb).
               if sint (StreamReassembler_overflow r rb) < 0
               then if sint (StreamReassembler_overflow r lb) < 0 then Inr None
                    else let rb' = ByteStream_bytes_read (sr_output r) + sr_capacity r - 1
                         in andthen (substr d 0 (rb' - lb + 1)) (\<lambda>d'. Inr (Some (d', lb, rb')))
               else Inr (Some (d, lb, rb))))"

text \<open>Merging: all stored pieces that overlap the new one are replaced by their union.\<close>

definition AddTempCash_merge ::
  "StreamReassembler \<Rightarrow> bytes \<Rightarrow> size_t \<Rightarrow> size_t \<Rightarrow> StreamReassembler result" where
  "AddTempCash_merge r d lb rb =
     (let before = takeWhile (\<lambda>e. fst e < lb) (sr_m r);
          fits = dropWhile (\<lambda>e. fst e < lb) (sr_m r)
      in if fits = [] \<or> rb < piece_start (hd fits)
         then let icount = rb - lb + 1
              in Inr (r\<lparr>sr_m := map_put rb d (sr_m r),
                        sr_unassembled := sr_unassembled r + icount\<rparr>)
         else let fit = hd fits;
                  hit = takeWhile (\<lambda>e. piece_start e \<le> rb) fits;
                  rest = dropWhile (\<lambda>e. piece_start e \<le> rb) fits;
                  eit = last hit;
                  ecount = sum_list (map (\<lambda>e. size_of (snd e)) hit);
                  icount = max rb (fst eit) - min lb (piece_start fit) + 1
              in andthen (combine (snd fit) d (piece_start fit) lb) (\<lambda>ins1.
                 andthen (combine (snd eit) ins1 (piece_start eit) (min lb (piece_start fit)))
                   (\<lambda>ins. Inr (r\<lparr>sr_m := map_put (max rb (fst eit)) ins (before @ rest),
                                 sr_unassembled := sr_unassembled r + icount - ecount\<rparr>))))"

text \<open>Draining: pieces that start where the output ends are written and removed.\<close>

fun AddTempCash_drain ::
  "ByteStream \<Rightarrow> size_t \<Rightarrow> (size_t \<times> bytes) list \<Rightarrow> ByteStream \<times> size_t \<times> (size_t \<times> bytes) list"
where
  "AddTempCash_drain out un [] = (out, un, [])"
| "AddTempCash_drain out un (e # m) =
     (if ByteStream_bytes_written out = piece_start e
      then AddTempCash_drain (snd (ByteStream_write out (snd e))) (un - size_of (snd e)) m
      else (out, un, e # m))"

definition AddTempCash ::
  "StreamReassembler \<Rightarrow> bytes \<Rightarrow> size_t \<Rightarrow> StreamReassembler result" where
  "AddTempCash r data index =
     andthen (AddTempCash_trim r data index) (\<lambda>t.
       case t of
         None \<Rightarrow> Inr r
       | Some (d, lb, rb) \<Rightarrow>
           andthen (AddTempCash_merge r d lb rb) (\<lambda>r1.
             let (out, un, m) = AddTempCash_drain (sr_output r1) (sr_unassembled r1) (sr_m r1)
             in Inr (r1\<lparr>sr_output := out, sr_unassembled := un, sr_m := m\<rparr>)))"

definition push_substring ::
  "StreamReassembler \<Rightarrow> bytes \<Rightarrow> size_t \<Rightarrow> bool \<Rightarrow> StreamReassembler result" where
  "push_substring r data index eof =
     (let r0 = (if eof then r\<lparr>sr_endIdx := index + size_of data\<rparr> else r)
      in andthen (AddTempCash r0 data index) (\<lambda>r1.
         Inr (if ByteStream_bytes_written (sr_output r1) = sr_endIdx r1
              then r1\<lparr>sr_output := ByteStream_end_input (sr_output r1)\<rparr> else r1)))"

text \<open>
  \<open>discard\<close> is never called; its loop has an empty body, and before it the end iterator is
  decremented, which is undefined for an empty map.
\<close>

definition StreamReassembler_discard :: "StreamReassembler \<Rightarrow> StreamReassembler result" where
  "StreamReassembler_discard r =
     (let total = ByteStream_buffer_size (sr_output r) + sr_unassembled r
      in if total \<le> sr_capacity r then Inr r
         else if sr_m r = [] then Inl (Undefined ''discard: --m.end()'')
         else andthen (while_loop (\<lambda>total. sr_capacity r < total) Inr total) (\<lambda>_. Inr r))"

end
