(* ===== verification/Intervals.thy ===== *)
theory Intervals
  imports Prelude
begin

text \<open>
  Slices of a byte stream and sorted lists of disjoint index intervals: the mathematical side
  of the reassembler's map. \<open>iv_merge\<close> inserts an interval and fuses it with every interval it
  overlaps, in the way the map of pieces is updated.
\<close>

section \<open>Slices of the stream\<close>

definition slice :: "'a list \<Rightarrow> nat \<Rightarrow> nat \<Rightarrow> 'a list" where
  "slice xs i n = take n (drop i xs)"

lemma length_slice [simp]: "i + n \<le> length xs \<Longrightarrow> length (slice xs i n) = n"
  by (simp add: slice_def)

lemma slice_append: "slice xs i n @ slice xs (i + n) k = slice xs i (n + k)"
  by (simp add: slice_def take_add) (simp add: add.commute)

lemma slice_join:
  "i \<le> j \<Longrightarrow> j \<le> k \<Longrightarrow> slice xs i (j - i) @ slice xs j (k - j) = slice xs i (k - i)"
  using slice_append[of xs i "j - i" "k - j"] by simp

lemma drop_slice: "drop k (slice xs i n) = slice xs (i + k) (n - k)"
  by (simp add: slice_def drop_take add.commute)

lemma take_slice: "take k (slice xs i n) = slice xs i (min k n)"
  by (simp add: slice_def)

lemma slice_0 [simp]: "slice xs i 0 = []" "slice xs 0 n = take n xs"
  by (simp_all add: slice_def)

section \<open>Intervals of stream indices\<close>

text \<open>
  The map of the reassembler stores, for an interval \<open>(l, h)\<close> of indices, the bytes
  \<open>l..h\<close> under the key \<open>h\<close>.
\<close>

type_synonym interval = "nat \<times> nat"

definition ends_before :: "interval \<Rightarrow> interval \<Rightarrow> bool" where
  "ends_before p q \<longleftrightarrow> snd p < fst q"

definition iv_wf :: "nat \<Rightarrow> nat \<Rightarrow> interval list \<Rightarrow> bool" where
  "iv_wf lo hi ivs \<longleftrightarrow> (\<forall>p \<in> set ivs. lo \<le> fst p \<and> fst p \<le> snd p \<and> snd p < hi) \<and>
     sorted_wrt ends_before ivs"

definition iv_set :: "interval list \<Rightarrow> nat set" where
  "iv_set ivs = (\<Union>p \<in> set ivs. {fst p..snd p})"

definition iv_total :: "interval list \<Rightarrow> nat" where
  "iv_total ivs = (\<Sum>p \<leftarrow> ivs. Suc (snd p) - fst p)"

lemma iv_set_simps [simp]:
  "iv_set [] = {}"
  "iv_set (p # ivs) = {fst p..snd p} \<union> iv_set ivs"
  "iv_set (ivs @ jvs) = iv_set ivs \<union> iv_set jvs"
  by (auto simp: iv_set_def)

lemma iv_total_simps [simp]:
  "iv_total [] = 0"
  "iv_total (p # ivs) = Suc (snd p) - fst p + iv_total ivs"
  "iv_total (ivs @ jvs) = iv_total ivs + iv_total jvs"
  by (simp_all add: iv_total_def)

lemma finite_iv_set [simp]: "finite (iv_set ivs)"
  by (simp add: iv_set_def)

lemma iv_wf_Cons:
  "iv_wf lo hi (p # ivs) \<longleftrightarrow> lo \<le> fst p \<and> fst p \<le> snd p \<and> snd p < hi \<and>
     (\<forall>q \<in> set ivs. snd p < fst q) \<and> iv_wf lo hi ivs"
  by (auto simp: iv_wf_def ends_before_def)

lemma iv_wf_ConsD:
  "iv_wf lo hi (p # ps) \<Longrightarrow> q \<in> set ps \<Longrightarrow> fst p < fst q \<and> snd p < fst q \<and> snd p < snd q"
  by (fastforce simp: iv_wf_def ends_before_def)

lemma iv_wf_append:
  "iv_wf lo hi (ivs @ jvs) \<longleftrightarrow> iv_wf lo hi ivs \<and> iv_wf lo hi jvs \<and>
     (\<forall>p \<in> set ivs. \<forall>q \<in> set jvs. snd p < fst q)"
  by (auto simp: iv_wf_def ends_before_def sorted_wrt_append)

lemma iv_wf_Nil [simp]: "iv_wf lo hi []"
  by (simp add: iv_wf_def)

lemma iv_set_bounds: "iv_wf lo hi ivs \<Longrightarrow> iv_set ivs \<subseteq> {lo..<hi}"
  by (fastforce simp: iv_wf_def iv_set_def)

lemma iv_wf_raise:
  "iv_wf lo hi ivs \<Longrightarrow> \<forall>p \<in> set ivs. lo' \<le> fst p \<Longrightarrow> hi \<le> hi' \<Longrightarrow> iv_wf lo' hi' ivs"
  by (fastforce simp: iv_wf_def)

text \<open>Disjoint intervals: the total length counts the covered indices.\<close>

lemma iv_total_card: "iv_wf lo hi ivs \<Longrightarrow> iv_total ivs = card (iv_set ivs)"
proof (induction ivs)
  case Nil
  then show ?case by simp
next
  case (Cons p ivs)
  then have "{fst p..snd p} \<inter> iv_set ivs = {}"
    by (fastforce simp: iv_wf_Cons iv_set_def)
  with Cons show ?case by (simp add: iv_wf_Cons card_Un_disjoint)
qed

definition iv_merge :: "nat \<Rightarrow> nat \<Rightarrow> interval list \<Rightarrow> interval list" where
  "iv_merge lb rb ivs =
     (let before = takeWhile (\<lambda>p. snd p < lb) ivs;
          fits = dropWhile (\<lambda>p. snd p < lb) ivs
      in if fits = [] \<or> rb < fst (hd fits) then before @ (lb, rb) # fits
         else let hit = takeWhile (\<lambda>p. fst p \<le> rb) fits;
                  rest = dropWhile (\<lambda>p. fst p \<le> rb) fits
              in before @ (min lb (fst (hd fits)), max rb (snd (last hit))) # rest)"

text \<open>The parts into which \<open>iv_merge\<close> splits the list, with what is known of each.\<close>

lemma iv_parts:
  fixes ivs :: "interval list" and lb rb :: nat
  assumes wf: "iv_wf lo hi ivs"
    and before_def: "before = takeWhile (\<lambda>p. snd p < lb) ivs"
    and fits_def: "fits = dropWhile (\<lambda>p. snd p < lb) ivs"
    and hit_def: "hit = takeWhile (\<lambda>p. fst p \<le> rb) fits"
    and rest_def: "rest = dropWhile (\<lambda>p. fst p \<le> rb) fits"
  shows "ivs = before @ fits" and "fits = hit @ rest"
    and "\<forall>p \<in> set before. snd p < lb" and "\<forall>p \<in> set fits. lb \<le> snd p"
    and "\<forall>p \<in> set hit. fst p \<le> rb" and "\<forall>p \<in> set rest. rb < fst p"
proof -
  show eq: "ivs = before @ fits" and eq2: "fits = hit @ rest"
    by (simp_all add: before_def fits_def hit_def rest_def)
  show "\<forall>p \<in> set before. snd p < lb" by (auto simp: before_def dest: set_takeWhileD)
  show "\<forall>p \<in> set hit. fst p \<le> rb" by (auto simp: hit_def dest: set_takeWhileD)
  have wff: "iv_wf lo hi fits" using wf unfolding eq iv_wf_append by blast
  show "\<forall>p \<in> set fits. lb \<le> snd p"
  proof (cases fits)
    case (Cons p ps)
    then have "\<not> snd p < lb" using hd_dropWhile[of "\<lambda>p. snd p < lb" ivs] by (auto simp: fits_def)
    with wff Cons iv_wf_ConsD[of lo hi p ps] show ?thesis by force
  qed simp
  show "\<forall>p \<in> set rest. rb < fst p"
  proof (cases rest)
    case (Cons p ps)
    then have "\<not> fst p \<le> rb" using hd_dropWhile[of "\<lambda>p. fst p \<le> rb" fits] by (auto simp: rest_def)
    moreover have "iv_wf lo hi rest" using wff unfolding eq2 iv_wf_append by blast
    ultimately show ?thesis using Cons iv_wf_ConsD[of lo hi p ps] by force
  qed simp
qed


text \<open>Overlapping pieces and the new interval together cover an interval without holes.\<close>

lemma iv_hit_cover:
  assumes wf: "iv_wf lo hi hit" and ne: "hit \<noteq> []"
    and touch: "\<forall>p \<in> set hit. lb \<le> snd p" "\<forall>p \<in> set hit. fst p \<le> rb" and "lb \<le> rb"
  shows "iv_set hit \<union> {lb..rb} = {min lb (fst (hd hit))..max rb (snd (last hit))}"
  using assms
proof (induction hit arbitrary: lb)
  case Nil
  then show ?case by simp
next
  case (Cons p ps)
  show ?case
  proof (cases ps)
    case Nil
    with Cons.prems show ?thesis by (auto simp: iv_wf_Cons)
  next
    case (Cons q qs)
    let ?lb = "Suc (snd p)"
    have le: "fst q \<le> rb" "snd p < fst q" "fst p \<le> snd p" "lb \<le> snd p"
      using Cons.prems \<open>ps = q # qs\<close> by (auto simp: iv_wf_Cons)
    have "iv_set ps \<union> {?lb..rb} = {min ?lb (fst (hd ps))..max rb (snd (last ps))}"
    proof (rule Cons.IH)
      show "iv_wf lo hi ps" "ps \<noteq> []" using Cons.prems \<open>ps = q # qs\<close> by (auto simp: iv_wf_Cons)
      show "\<forall>x \<in> set ps. ?lb \<le> snd x"
        using iv_wf_ConsD[OF Cons.prems(1)] by (meson Suc_leI)
      show "\<forall>x \<in> set ps. fst x \<le> rb" "?lb \<le> rb" using Cons.prems le by auto
    qed
    then have "iv_set (p # ps) \<union> {lb..rb} = {fst p..snd p} \<union> {lb..rb} \<union> {?lb..max rb (snd (last ps))}"
      using le \<open>ps = q # qs\<close> by (auto simp: min_def) 
    also have "\<dots> = {min lb (fst p)..max rb (snd (last ps))}"
      using le by (auto simp: min_def max_def)
    finally show ?thesis using \<open>ps = q # qs\<close> by simp
  qed
qed

lemma iv_merge_wf:
  assumes wf: "iv_wf lo hi ivs" and lr: "lo \<le> lb" "lb \<le> rb" "rb < hi"
  shows "iv_wf lo hi (iv_merge lb rb ivs)"
    and "iv_set (iv_merge lb rb ivs) = iv_set ivs \<union> {lb..rb}"
proof -
  define before where "before = takeWhile (\<lambda>p. snd p < lb) ivs"
  define fits where "fits = dropWhile (\<lambda>p. snd p < lb) ivs"
  define hit where "hit = takeWhile (\<lambda>p. fst p \<le> rb) fits"
  define rest where "rest = dropWhile (\<lambda>p. fst p \<le> rb) fits"
  note parts = iv_parts[OF wf before_def fits_def hit_def rest_def]
  have wfs: "iv_wf lo hi before" "iv_wf lo hi fits"
    and sep: "\<forall>p \<in> set before. \<forall>q \<in> set fits. snd p < fst q"
    using wf unfolding parts(1) iv_wf_append by blast+
  have wfh: "iv_wf lo hi hit" "iv_wf lo hi rest"
    and sep2: "\<forall>p \<in> set hit. \<forall>q \<in> set rest. snd p < fst q"
    using wfs(2) unfolding parts(2) iv_wf_append by blast+
  have "iv_wf lo hi (iv_merge lb rb ivs) \<and> iv_set (iv_merge lb rb ivs) = iv_set ivs \<union> {lb..rb}"
  proof (cases "fits = [] \<or> rb < fst (hd fits)")
    case True
    then have eq: "iv_merge lb rb ivs = before @ (lb, rb) # fits"
      unfolding iv_merge_def Let_def before_def[symmetric] fits_def[symmetric] by simp
    have "\<forall>q \<in> set fits. rb < fst q"
      using True wfs(2) by (cases fits) (auto simp: iv_wf_Cons)
    then show ?thesis
      unfolding eq iv_wf_append iv_wf_Cons using wfs sep parts(3) lr
      by (auto simp: parts(1))
  next
    case False
    then obtain p ps where fp: "fits = p # ps" by (cases fits) auto
    let ?q = "last hit"
    have hn: "hit \<noteq> []" using False fp by (simp add: hit_def)
    then have qin: "?q \<in> set hit" by simp
    have ph: "p = hd hit" "p \<in> set hit" using False fp by (simp_all add: hit_def)
    have eq: "iv_merge lb rb ivs = before @ (min lb (fst p), max rb (snd ?q)) # rest"
      using False unfolding iv_merge_def Let_def before_def[symmetric] fits_def[symmetric]
        hit_def[symmetric] rest_def[symmetric] by (simp add: fp)
    have cover: "iv_set hit \<union> {lb..rb} = {min lb (fst p)..max rb (snd ?q)}"
      using iv_hit_cover[OF wfh(1) hn] parts(4,5) lr(2) ph(1) by (simp add: parts(2))
    have pq: "p \<in> set fits" "?q \<in> set fits" using ph qin parts(2) by auto
    have "iv_wf lo hi (iv_merge lb rb ivs)"
      unfolding eq iv_wf_append iv_wf_Cons
    proof (intro conjI)
      show "iv_wf lo hi before" "iv_wf lo hi rest" using wfs wfh by blast+
      show "lo \<le> fst (min lb (fst p), max rb (snd ?q))"
        and "snd (min lb (fst p), max rb (snd ?q)) < hi"
        using wfs(2) pq lr by (auto simp: iv_wf_def)
      show "fst (min lb (fst p), max rb (snd ?q)) \<le> snd (min lb (fst p), max rb (snd ?q))"
        using lr by auto
      show "\<forall>x \<in> set rest. snd (min lb (fst p), max rb (snd ?q)) < fst x"
        using parts(6) sep2 qin by auto
      then show "\<forall>x \<in> set before. \<forall>y \<in> set ((min lb (fst p), max rb (snd ?q)) # rest). snd x < fst y"
        using parts(2,3) sep pq(1) by auto
    qed
    moreover have "iv_set (iv_merge lb rb ivs) = iv_set ivs \<union> {lb..rb}"
    proof -
      have "iv_set ivs = iv_set before \<union> (iv_set hit \<union> iv_set rest)"
        by (metis iv_set_simps(3) parts(1,2))
      with cover show ?thesis unfolding eq by (simp add: cover [symmetric] Un_ac)
    qed
    ultimately show ?thesis ..
  qed
  then show "iv_wf lo hi (iv_merge lb rb ivs)"
    and "iv_set (iv_merge lb rb ivs) = iv_set ivs \<union> {lb..rb}" by simp_all
qed

end
