(* ===== verification/Reassembler_Correct.thy ===== *)
theory Reassembler_Correct
  imports Stream_Reassembler Intervals
begin

text \<open>
  Correctness of the stream reassembler: the map of pieces is a sorted list of disjoint index
  intervals, a push adds the pushed indices that fall into the window, and the output is the
  part of the stream before the first missing index.
\<close>

section \<open>The map as a list of intervals\<close>

definition enc :: "bytes \<Rightarrow> interval \<Rightarrow> size_t \<times> bytes" where
  "enc xs p = (of_nat (snd p), slice xs (fst p) (Suc (snd p) - fst p))"

lemma of_nat_le_u64: "a < 2 ^ 64 \<Longrightarrow> b < 2 ^ 64 \<Longrightarrow> (of_nat a :: u64) \<le> of_nat b \<longleftrightarrow> a \<le> b"
  by (simp add: word_le_nat_alt unat_of_nat_u64)

lemma of_nat_less_u64: "a < 2 ^ 64 \<Longrightarrow> b < 2 ^ 64 \<Longrightarrow> (of_nat a :: u64) < of_nat b \<longleftrightarrow> a < b"
  by (simp add: word_less_nat_alt unat_of_nat_u64)

lemma of_nat_eq_u64: "a < 2 ^ 64 \<Longrightarrow> b < 2 ^ 64 \<Longrightarrow> (of_nat a :: u64) = of_nat b \<longleftrightarrow> a = b"
  by (metis unat_of_nat_u64)

lemma of_nat_diff_u64: "b \<le> a \<Longrightarrow> (of_nat a - of_nat b :: u64) = of_nat (a - b)"
  by simp

lemma of_nat_max_u64: "a < 2 ^ 64 \<Longrightarrow> b < 2 ^ 64 \<Longrightarrow> max (of_nat a) (of_nat b) = (of_nat (max a b) :: u64)"
  by (simp add: max_def of_nat_le_u64)

lemma of_nat_min_u64: "a < 2 ^ 64 \<Longrightarrow> b < 2 ^ 64 \<Longrightarrow> min (of_nat a) (of_nat b) = (of_nat (min a b) :: u64)"
  by (simp add: min_def of_nat_le_u64)

lemma size_of_slice: "i + n \<le> length xs \<Longrightarrow> size_of (slice xs i n) = of_nat n"
  by (simp add: size_of_def)

lemma enc_fst [simp]: "fst (enc xs p) = of_nat (snd p)"
  by (simp add: enc_def)

lemma enc_snd [simp]: "snd (enc xs p) = slice xs (fst p) (Suc (snd p) - fst p)"
  by (simp add: enc_def)

lemma enc_piece_start:
  assumes "fst p \<le> snd p" and "snd p < length xs"
  shows "piece_start (enc xs p) = of_nat (fst p)"
proof -
  have "(of_nat (Suc (snd p)) :: u64) = of_nat (Suc (snd p) - fst p) + of_nat (fst p)"
    using assms by (simp flip: of_nat_add)
  with assms show ?thesis
    by (simp add: piece_start_def size_of_slice algebra_simps)
qed

text \<open>Joining two overlapping or adjacent slices gives the slice of their union.\<close>

lemma combine_slices:
  assumes le: "i \<le> i'" "j \<le> j'" "i' \<le> length xs" "j' \<le> length xs" and big: "length xs < 2 ^ 63"
    and touch: "i \<le> j'" "j \<le> i'"
  shows "combine (slice xs i (i' - i)) (slice xs j (j' - j)) (of_nat i) (of_nat j) =
    Inr (slice xs (min i j) (max i' j' - min i j))"
proof -
  have main: "(if of_nat b + size_of (slice xs b (b' - b)) \<le> of_nat a + size_of (slice xs a (a' - a))
        then Inr (slice xs a (a' - a))
        else andthen (substr (slice xs b (b' - b)) (of_nat a + size_of (slice xs a (a' - a)) - of_nat b)
                        (size_of (slice xs b (b' - b)))) (\<lambda>t. Inr (slice xs a (a' - a) @ t))) =
      (Inr (slice xs a (max a' b' - a)) :: bytes result)"
    if h: "a \<le> b" "a \<le> a'" "b \<le> b'" "b \<le> a'" "a' \<le> length xs" "b' \<le> length xs" for a a' b b'
  proof -
    have sz: "of_nat a + size_of (slice xs a (a' - a)) = (of_nat a' :: u64)"
      "of_nat b + size_of (slice xs b (b' - b)) = (of_nat b' :: u64)"
      using h by (simp_all add: size_of_slice flip: of_nat_add)
    have cmp: "(of_nat b' :: u64) \<le> of_nat a' \<longleftrightarrow> b' \<le> a'"
      using h big by (intro of_nat_le_u64) simp_all
    have pos: "unat (of_nat a' - of_nat b :: u64) = a' - b"
      using h big by (simp add: of_nat_diff_u64 unat_of_nat_u64 del: of_nat_diff flip: of_nat_diff)
    show ?thesis
    proof (cases "b' \<le> a'")
      case True
      then show ?thesis by (simp add: sz cmp max_def)
    next
      case False
      have len: "length (slice xs b (b' - b)) = b' - b" using h by simp
      have un: "unat (size_of (slice xs b (b' - b))) = b' - b"
        using h big by (subst unat_size_of) (simp_all add: len)
      have "substr (slice xs b (b' - b)) (of_nat a' - of_nat b) (size_of (slice xs b (b' - b))) =
          Inr (take (b' - b) (drop (a' - b) (slice xs b (b' - b))))"
        using False h big by (subst substr_ok) (simp_all add: pos un len)
      also have "take (b' - b) (drop (a' - b) (slice xs b (b' - b))) = slice xs a' (b' - a')"
        using False h by (simp add: drop_slice take_slice)
      finally show ?thesis
        using False h slice_join[of a a' b' xs] by (simp add: sz cmp max_def)
    qed
  qed
  have lt: "(of_nat i :: u64) < of_nat j \<longleftrightarrow> i < j"
    using le big by (intro of_nat_less_u64) simp_all
  show ?thesis
  proof (cases "i < j")
    case True
    then show ?thesis using main[of i j i' j'] assms by (simp add: combine_def lt min_def)
  next
    case False
    then show ?thesis using main[of j i j' i'] assms by (simp add: combine_def lt min_def max.commute)
  qed
qed


section \<open>Merging on words is merging on intervals\<close>

lemma map_put_middle:
  assumes "\<forall>e \<in> set a. fst e < k" and "\<forall>e \<in> set c. k < fst e"
  shows "map_put k v (a @ c) = a @ (k, v) # c"
  using assms
proof (induction a)
  case Nil
  then show ?case by (cases c) simp_all
next
  case (Cons e a)
  then show ?case by auto
qed

lemma takeWhile_map_cong:
  "(\<And>p. p \<in> set ps \<Longrightarrow> P (f p) = Q p) \<Longrightarrow> takeWhile P (map f ps) = map f (takeWhile Q ps)"
  by (induction ps) auto

lemma dropWhile_map_cong:
  "(\<And>p. p \<in> set ps \<Longrightarrow> P (f p) = Q p) \<Longrightarrow> dropWhile P (map f ps) = map f (dropWhile Q ps)"
  by (induction ps) auto

lemma sum_list_enc:
  "\<forall>p \<in> set ps. fst p \<le> snd p \<and> snd p < length xs \<Longrightarrow>
   sum_list (map (\<lambda>e. size_of (snd e)) (map (enc xs) ps)) = of_nat (iv_total ps)"
  by (induction ps) (auto simp: size_of_slice of_nat_diff)

lemma iv_wf_mem: "iv_wf lo hi ivs \<Longrightarrow> p \<in> set ivs \<Longrightarrow> lo \<le> fst p \<and> fst p \<le> snd p \<and> snd p < hi"
  by (auto simp: iv_wf_def)

text \<open>The word-level splits of the map agree with the splits of the interval list.\<close>

lemma enc_splits:
  assumes wf: "\<forall>p \<in> set ivs. fst p \<le> snd p \<and> snd p < length xs" and big: "length xs < 2 ^ 63"
    and lim: "lb < length xs" "rb < length xs"
  shows "takeWhile (\<lambda>e. fst e < of_nat lb) (map (enc xs) ivs) = map (enc xs) (takeWhile (\<lambda>p. snd p < lb) ivs)"
    and "dropWhile (\<lambda>e. fst e < of_nat lb) (map (enc xs) ivs) = map (enc xs) (dropWhile (\<lambda>p. snd p < lb) ivs)"
    and "takeWhile (\<lambda>e. piece_start e \<le> of_nat rb) (map (enc xs) ivs) = map (enc xs) (takeWhile (\<lambda>p. fst p \<le> rb) ivs)"
    and "dropWhile (\<lambda>e. piece_start e \<le> of_nat rb) (map (enc xs) ivs) = map (enc xs) (dropWhile (\<lambda>p. fst p \<le> rb) ivs)"
proof -
  have a: "(fst (enc xs p) < of_nat lb) = (snd p < lb)" if "p \<in> set ivs" for p
    using wf[rule_format, OF that] big lim by (simp add: of_nat_less_u64)
  have b: "(piece_start (enc xs p) \<le> of_nat rb) = (fst p \<le> rb)" if "p \<in> set ivs" for p
  proof -
    from wf that have "fst p \<le> snd p" "snd p < length xs" by blast+
    with big lim show ?thesis by (simp add: enc_piece_start of_nat_le_u64)
  qed
  show "takeWhile (\<lambda>e. fst e < of_nat lb) (map (enc xs) ivs) = map (enc xs) (takeWhile (\<lambda>p. snd p < lb) ivs)"
    "dropWhile (\<lambda>e. fst e < of_nat lb) (map (enc xs) ivs) = map (enc xs) (dropWhile (\<lambda>p. snd p < lb) ivs)"
    using a by (simp_all add: takeWhile_map_cong dropWhile_map_cong)
  show "takeWhile (\<lambda>e. piece_start e \<le> of_nat rb) (map (enc xs) ivs) = map (enc xs) (takeWhile (\<lambda>p. fst p \<le> rb) ivs)"
    "dropWhile (\<lambda>e. piece_start e \<le> of_nat rb) (map (enc xs) ivs) = map (enc xs) (dropWhile (\<lambda>p. fst p \<le> rb) ivs)"
    using b by (simp_all add: takeWhile_map_cong dropWhile_map_cong)
qed

lemma of_nat_total_u64:
  "(of_nat (a + c) :: u64) = of_nat a + of_nat c"
  by simp

lemma AddTempCash_merge_spec:
  assumes m: "sr_m r = map (enc xs) ivs" and un: "sr_unassembled r = of_nat (iv_total ivs)"
    and wf: "iv_wf lo (length xs) ivs" and big: "length xs < 2 ^ 63"
    and lr: "lb \<le> rb" "rb < length xs"
  shows "AddTempCash_merge r (slice xs lb (Suc rb - lb)) (of_nat lb) (of_nat rb) =
    Inr (r\<lparr>sr_m := map (enc xs) (iv_merge lb rb ivs),
           sr_unassembled := of_nat (iv_total (iv_merge lb rb ivs))\<rparr>)"
proof -
  define before fits hit rest where parts:
    "before = takeWhile (\<lambda>p. snd p < lb) ivs" "fits = dropWhile (\<lambda>p. snd p < lb) ivs"
    "hit = takeWhile (\<lambda>p. fst p \<le> rb) fits" "rest = dropWhile (\<lambda>p. fst p \<le> rb) fits"
  note P = iv_parts[OF wf parts]
  have all: "\<forall>p \<in> set ivs. fst p \<le> snd p \<and> snd p < length xs"
    using wf by (auto simp: iv_wf_def)
  have allf: "\<forall>p \<in> set fits. fst p \<le> snd p \<and> snd p < length xs"
    using all P(1) by auto
  have lb: "lb < length xs" using lr by simp
  note S = enc_splits[OF all big lb lr(2), folded parts] enc_splits[OF allf big lb lr(2), folded parts]
  have less: "(of_nat a :: u64) < of_nat b \<longleftrightarrow> a < b" if "a < length xs" "b < length xs" for a b
    using that big by (intro of_nat_less_u64) simp_all
  have card: "of_nat b - of_nat a + 1 = (of_nat (Suc b - a) :: u64)" if "a \<le> b" for a b
    using that by (simp add: of_nat_diff algebra_simps)
  have bef: "\<forall>p \<in> set before. snd p < lb" by (rule P(3))
  have tot0: "iv_total ivs = iv_total before + iv_total fits"
    using arg_cong[OF P(1), of iv_total] by simp
  show ?thesis
  proof (cases "fits = [] \<or> rb < fst (hd fits)")
    case True
    have new: "iv_merge lb rb ivs = before @ (lb, rb) # fits"
      using True by (simp add: iv_merge_def Let_def flip: parts)
    have guard: "map (enc xs) fits = [] \<or> of_nat rb < piece_start (hd (map (enc xs) fits))"
    proof (cases fits)
      case (Cons p ps)
      with True allf lr show ?thesis by (simp add: enc_piece_start less)
    qed simp
    have "map_put (of_nat rb) (slice xs lb (Suc rb - lb)) (map (enc xs) before @ map (enc xs) fits) =
        map (enc xs) before @ (of_nat rb, slice xs lb (Suc rb - lb)) # map (enc xs) fits"
    proof (rule map_put_middle)
      show "\<forall>e \<in> set (map (enc xs) before). fst e < of_nat rb"
        using bef lr by (auto simp: less)
      have "\<forall>p \<in> set fits. rb < snd p"
      proof (cases fits)
        case (Cons p ps)
        moreover have "iv_wf lo (length xs) fits" using wf P(1) by (simp add: iv_wf_append)
        ultimately show ?thesis using True allf iv_wf_ConsD[of lo "length xs" p ps] by force
      qed simp
      then show "\<forall>e \<in> set (map (enc xs) fits). of_nat rb < fst e"
        using allf lr by (auto simp: less)
    qed
    then have put: "map_put (of_nat rb) (slice xs lb (Suc rb - lb)) (map (enc xs) ivs) =
        map (enc xs) (iv_merge lb rb ivs)"
      unfolding new by (simp add: enc_def) (simp add: P(1))
    have tot: "of_nat (iv_total ivs) + (of_nat rb - of_nat lb + 1) = (of_nat (iv_total (iv_merge lb rb ivs)) :: u64)"
      unfolding new tot0 card[OF lr(1)] by simp
    show ?thesis using guard put tot
      by (simp add: AddTempCash_merge_def m un S Let_def)
  next
    case False
    then obtain p ps where fits: "fits = p # ps" and prb: "fst p \<le> rb" by (cases fits) auto
    have hit: "hit \<noteq> []" "hd hit = p" using fits prb by (simp_all add: parts)
    define q where "q = last hit"
    have pin: "p \<in> set fits" "q \<in> set fits" and qrb: "fst q \<le> rb"
      using hit P(5) P(2) unfolding q_def by auto
    have lbs: "lb \<le> snd p" "lb \<le> snd q" and pq: "fst p \<le> snd p" "snd p < length xs" "fst q \<le> snd q" "snd q < length xs"
      using P(4) allf pin by blast+
    have wff: "iv_wf lo (length xs) fits" using wf P(1) by (simp add: iv_wf_append)
    have mono: "fst p \<le> fst q" "snd p \<le> snd q"
      using iv_wf_ConsD[of lo "length xs" p ps q] wff pin(2) by (auto simp: fits)
    let ?l = "min lb (fst p)" and ?h = "max rb (snd q)"
    have new: "iv_merge lb rb ivs = before @ (?l, ?h) # rest"
      using False unfolding iv_merge_def Let_def parts[symmetric] q_def by (simp add: fits)
    have c1: "combine (slice xs (fst p) (Suc (snd p) - fst p)) (slice xs lb (Suc rb - lb)) (of_nat (fst p)) (of_nat lb) =
        Inr (slice xs ?l (Suc (max rb (snd p)) - ?l))"
      using combine_slices[of "fst p" "Suc (snd p)" lb "Suc rb" xs] pq lr lbs prb big
      by (simp add: min.commute max.commute)
    have c2: "combine (slice xs (fst q) (Suc (snd q) - fst q)) (slice xs ?l (Suc (max rb (snd p)) - ?l)) (of_nat (fst q)) (of_nat ?l) =
        Inr (slice xs ?l (Suc ?h - ?l))"
      using combine_slices[of "fst q" "Suc (snd q)" ?l "Suc (max rb (snd p))" xs] pq lr lbs prb qrb mono big
      by (simp add: min_def max_def split: if_splits)
    have ends: "(max (of_nat rb) (of_nat (snd q)) :: u64) = of_nat ?h"
      "(min (of_nat lb) (of_nat (fst p)) :: u64) = of_nat ?l"
      using pq lr big by (auto intro!: of_nat_max_u64 of_nat_min_u64)
    have sub': "\<forall>p \<in> set rest. fst p \<le> snd p \<and> snd p < length xs" using allf P(2) by auto
    have put: "map_put (of_nat ?h) (slice xs ?l (Suc ?h - ?l)) (map (enc xs) before @ map (enc xs) rest) =
        map (enc xs) (iv_merge lb rb ivs)"
    proof (subst map_put_middle)
      show "\<forall>e \<in> set (map (enc xs) before). fst e < of_nat ?h"
        using bef lr pq by (auto simp: less)
      have "\<forall>x \<in> set rest. snd q < fst x"
        using wff unfolding P(2) iv_wf_append q_def using hit by simp
      then show "\<forall>e \<in> set (map (enc xs) rest). of_nat ?h < fst e"
        using sub' P(6) lr pq by (auto simp: less intro: less_le_trans)
    qed (simp add: new enc_def)
    have tot: "of_nat (iv_total ivs) + (of_nat ?h - of_nat ?l + 1) - of_nat (iv_total hit) =
        (of_nat (iv_total (iv_merge lb rb ivs)) :: u64)"
    proof -
      have "?l \<le> ?h" using lr by simp
      moreover have "iv_total fits = iv_total hit + iv_total rest"
        using arg_cong[OF P(2), of iv_total] by simp
      ultimately show ?thesis unfolding new tot0 by (simp only: card) simp
    qed
    have sub: "\<forall>p \<in> set hit. fst p \<le> snd p \<and> snd p < length xs" using allf P(2) by auto
    have last: "last (map (enc xs) hit) = enc xs q" using hit by (simp add: q_def last_map)
    have hd: "hd (map (enc xs) fits) = enc xs p" by (simp add: fits)
    show ?thesis
      unfolding AddTempCash_merge_def m un S Let_def hd last sum_list_enc[OF sub]
      using c1 c2 put tot pq lr prb by (simp add: enc_piece_start ends fits less)
  qed
qed


section \<open>Draining\<close>

lemma bytes_written_nat:
  "bs_linear s \<Longrightarrow> ByteStream_bytes_written s = of_nat (unat (bs_written s))"
  by (metis ByteStream_bytes_written_def bs_linear_def of_nat_unat_id unat_scast_int)

lemma bytes_read_nat:
  assumes "bs_linear s"
  shows "ByteStream_bytes_read s = of_nat (unat (bs_total_read s))"
proof -
  have "unat (bs_total_read s) < 2 ^ 31" using assms by (simp add: bs_linear_def)
  then show ?thesis by (metis ByteStream_bytes_read_def of_nat_unat_id unat_scast_int)
qed

lemma write_linear:
  assumes lin: "bs_linear s" and room: "length d \<le> bs_room s"
    and small: "unat (bs_written s) + length d < 2 ^ 31"
  shows "snd (ByteStream_write s d) =
      s\<lparr>bs_buffer := bs_buffer s @ d, bs_written := of_nat (unat (bs_written s) + length d)\<rparr>"
    and "bs_linear (s\<lparr>bs_buffer := bs_buffer s @ d,
                      bs_written := of_nat (unat (bs_written s) + length d)\<rparr>)"
proof -
  have wf: "bs_wf s" and len: "length d < 2 ^ 63" using lin small by (simp_all add: bs_linear_def)
  show eq: "snd (ByteStream_write s d) =
      s\<lparr>bs_buffer := bs_buffer s @ d, bs_written := of_nat (unat (bs_written s) + length d)\<rparr>"
    using room by (simp add: write_spec[OF wf len] min_def)
  have "unat (of_nat (unat (bs_written s) + length d) :: cint) = unat (bs_written s) + length d"
    using small by (intro unat_of_nat_u32) simp
  then show "bs_linear (s\<lparr>bs_buffer := bs_buffer s @ d,
                      bs_written := of_nat (unat (bs_written s) + length d)\<rparr>)"
    using write_wf[OF wf len] lin small unfolding eq by (simp add: bs_linear_def)
qed

text \<open>
  Draining stops at the first index that is still missing; the set of known indices does not
  change and no stored piece is adjacent to the output any more.
\<close>

lemma AddTempCash_drain_spec:
  assumes "bs_linear out" and "unat (bs_written out) = W" and "iv_wf W hi ivs" and "hi \<le> length xs"
    and "length xs < 2 ^ 31" and "hi \<le> unat (bs_total_read out) + unat (bs_capacity out)"
  shows "\<exists>W' ivs'. AddTempCash_drain out (of_nat (iv_total ivs)) (map (enc xs) ivs) =
      (out\<lparr>bs_buffer := bs_buffer out @ slice xs W (W' - W), bs_written := of_nat W'\<rparr>,
       of_nat (iv_total ivs'), map (enc xs) ivs') \<and>
    W \<le> W' \<and> (W' \<le> W \<or> W' \<le> hi) \<and> iv_wf (Suc W') hi ivs' \<and> {..<W} \<union> iv_set ivs = {..<W'} \<union> iv_set ivs' \<and>
    bs_linear (out\<lparr>bs_buffer := bs_buffer out @ slice xs W (W' - W), bs_written := of_nat W'\<rparr>)"
  using assms
proof (induction ivs arbitrary: out W)
  case Nil
  then have "of_nat W = bs_written out" by (metis of_nat_unat_id)
  with Nil show ?case by (intro exI[of _ W] exI[of _ "[]"]) simp
next
  case (Cons p ivs)
  note pre = Cons.prems
  have p: "W \<le> fst p" "fst p \<le> snd p" "snd p < hi" "iv_wf W hi ivs" "\<forall>q \<in> set ivs. snd p < fst q"
    using pre(3) by (simp_all add: iv_wf_Cons)
  have ps: "piece_start (enc xs p) = of_nat (fst p)" using p pre(4) by (simp add: enc_piece_start)
  have bw: "ByteStream_bytes_written out = of_nat W" using pre(1,2) by (simp add: bytes_written_nat)
  show ?case
  proof (cases "W = fst p")
    case True
    let ?W = "Suc (snd p)"
    let ?d = "slice xs W (?W - W)"
    let ?o = "out\<lparr>bs_buffer := bs_buffer out @ ?d, bs_written := of_nat ?W\<rparr>"
    have len: "length ?d = ?W - W" using p pre(4) by simp
    have sum: "unat (bs_written out) + length ?d = ?W" using len pre(2) True p by simp
    have room: "length ?d \<le> bs_room out"
      unfolding len bs_room_def using pre(1,2,6) p True unfolding bs_linear_def by linarith
    have small: "unat (bs_written out) + length ?d < 2 ^ 31" using sum p pre(4,5) by simp
    note wr = write_linear[OF pre(1) room small, unfolded sum]
    have W: "unat (bs_written ?o) = ?W"
      using p pre(4,5) unat_of_nat_u32[of ?W] by simp
    have "iv_wf ?W hi ivs" using p by (auto simp: iv_wf_def)
    moreover have "hi \<le> unat (bs_total_read ?o) + unat (bs_capacity ?o)" using pre(6) by simp
    ultimately obtain W' ivs' where IH:
      "AddTempCash_drain ?o (of_nat (iv_total ivs)) (map (enc xs) ivs) =
        (?o\<lparr>bs_buffer := bs_buffer ?o @ slice xs ?W (W' - ?W), bs_written := of_nat W'\<rparr>,
         of_nat (iv_total ivs'), map (enc xs) ivs')"
      "?W \<le> W'" "W' \<le> ?W \<or> W' \<le> hi" "iv_wf (Suc W') hi ivs'" "{..<?W} \<union> iv_set ivs = {..<W'} \<union> iv_set ivs'"
      "bs_linear (?o\<lparr>bs_buffer := bs_buffer ?o @ slice xs ?W (W' - ?W), bs_written := of_nat W'\<rparr>)"
      using Cons.IH[OF wr(2) W _ pre(4,5)] by blast
    have join: "?d @ slice xs ?W (W' - ?W) = slice xs W (W' - W)"
      using slice_join[of W ?W W' xs] IH(2) p True by simp
    have sz: "of_nat (iv_total (p # ivs)) - size_of ?d = (of_nat (iv_total ivs) :: u64)"
      using True p len by (simp add: size_of_def)
    have known: "{..<W} \<union> iv_set (p # ivs) = {..<?W} \<union> iv_set ivs" using True p by auto
    have "AddTempCash_drain out (of_nat (iv_total (p # ivs))) (map (enc xs) (p # ivs)) =
        AddTempCash_drain ?o (of_nat (iv_total ivs)) (map (enc xs) ivs)"
      using bw ps True wr(1) sz by simp
    moreover have "W \<le> W'" "W' \<le> hi" using IH(2,3) p by auto
    ultimately show ?thesis using IH known join
      by (intro exI[of _ W'] exI[of _ ivs']) simp
  next
    case False
    then have "(of_nat W :: u64) \<noteq> of_nat (fst p)"
      using p pre(4,5) by (simp add: of_nat_eq_u64)
    moreover have "iv_wf (Suc W) hi (p # ivs)"
      using iv_wf_raise[OF pre(3), of "Suc W" hi] p False by fastforce
    moreover have "of_nat W = bs_written out" using pre(2) by (metis of_nat_unat_id)
    ultimately show ?thesis
      using bw ps pre(1) by (intro exI[of _ W] exI[of _ "p # ivs"]) simp
  qed
qed


section \<open>Trimming\<close>

lemma ucast_word_of_int: "(ucast (word_of_int x :: u64) :: u32) = word_of_int x"
  by (rule bit_word_eqI) (simp add: bit_simps)

lemma overflow_value:
  assumes "ByteStream_bytes_read (sr_output r) = of_nat R"
    and cap: "sr_capacity r = of_nat c" and "R + c < 2 ^ 31" and "k < 2 ^ 31"
  shows "sint (StreamReassembler_overflow r (of_nat k)) = int R + int c - 1 - int k"
proof -
  have "of_nat R + sr_capacity r - 1 - of_nat k =
      (word_of_int (int R + int c - 1 - int k) :: u64)"
    by (simp add: cap)
  then have "StreamReassembler_overflow r (of_nat k) =
      word_of_int (int R + int c - 1 - int k)"
    by (simp only: StreamReassembler_overflow_def assms(1) ucast_word_of_int)
  moreover have "sint (word_of_int (int R + int c - 1 - int k) :: cint) =
      int R + int c - 1 - int k"
    using assms(3,4) by (intro sint_word_of_int) simp_all
  ultimately show ?thesis by simp
qed

lemma AddTempCash_trim_spec:
  assumes bw: "ByteStream_bytes_written (sr_output r) = of_nat W"
    and br: "ByteStream_bytes_read (sr_output r) = of_nat R" and cap: "sr_capacity r = of_nat c"
    and lim: "R + c < 2 ^ 31" "length xs < 2 ^ 31" "i + n \<le> length xs"
    and WR: "R \<le> W" "W \<le> length xs"
  shows "AddTempCash_trim r (slice xs i n) (of_nat i) =
    (let lb = max i W; end = min (i + n) (R + c)
     in if n = 0 \<or> i + n \<le> W \<or> end \<le> lb then Inr None
        else Inr (Some (slice xs lb (end - lb), of_nat lb, of_nat (end - 1))))"
proof -
  have sz: "size_of (slice xs i n) = of_nat n" using lim by (simp add: size_of_slice)
  have n0: "(of_nat n :: u64) = 0 \<longleftrightarrow> n = 0"
    using of_nat_eq_u64[of n 0] lim by simp
  show ?thesis
  proof (cases "n = 0 \<or> i + n \<le> W")
    case True
    have "of_nat i + of_nat n - 1 = (of_nat (i + n - 1) :: u64)" if "n \<noteq> 0"
      using that by simp
    moreover have "(of_nat (i + n - 1) :: u64) < of_nat W \<longleftrightarrow> i + n - 1 < W"
      "(of_nat i :: u64) < of_nat W \<longleftrightarrow> i < W"
      using lim WR by (simp_all add: of_nat_less_u64)
    ultimately show ?thesis
      using True by (auto simp: AddTempCash_trim_def Let_def sz n0 bw)
  next
    case False
    define lb where "lb = max i W"
    have lb: "lb < i + n" "i \<le> lb" using False by (auto simp: lb_def)
    have rb: "of_nat i + of_nat n - 1 = (of_nat (i + n - 1) :: u64)"
      using False by simp
    have cmp: "(of_nat (i + n - 1) :: u64) < of_nat W \<longleftrightarrow> i + n - 1 < W"
      "(of_nat i :: u64) < of_nat W \<longleftrightarrow> i < W"
      using lim WR by (simp_all add: of_nat_less_u64)
    have front: "(if (of_nat i :: u64) < of_nat W
        then andthen (substr (slice xs i n) (of_nat W - of_nat i) (of_nat n)) (\<lambda>d. Inr (d, of_nat W))
        else Inr (slice xs i n, of_nat i)) = Inr (slice xs lb (i + n - lb), of_nat lb :: u64)"
    proof (cases "i < W")
      case True
      have "unat (of_nat W - of_nat i :: u64) = W - i" "unat (of_nat n :: u64) = n"
        using True lim WR unat_of_nat_u64[of "W - i"] unat_of_nat_u64[of n] by simp_all
      moreover have "W - i \<le> n" "n - (W - i) = i + n - W" using True False by auto
      ultimately show ?thesis using True lim
        by (subst substr_ok) (simp_all add: cmp lb_def drop_slice take_slice del: diff_diff_right diff_diff_left)
    qed (simp add: cmp lb_def)
    have ov: "sint (StreamReassembler_overflow r (of_nat (i + n - 1))) < 0 \<longleftrightarrow> R + c < i + n"
      "sint (StreamReassembler_overflow r (of_nat lb)) < 0 \<longleftrightarrow> R + c \<le> lb"
      using overflow_value[OF br cap lim(1), of "i + n - 1"] overflow_value[OF br cap lim(1), of lb] lim lb False
      by auto
    have cut: "substr (slice xs lb (i + n - lb)) 0 (of_nat R + sr_capacity r - 1 - of_nat lb + 1) =
        Inr (slice xs lb (R + c - lb))" and rb': "of_nat R + sr_capacity r - 1 = (of_nat (R + c - 1) :: u64)"
      if "R + c < i + n" "lb < R + c"
    proof -
      have "of_nat R + sr_capacity r = (of_nat (R + c) :: u64)" by (simp add: cap)
      then have "of_nat R + sr_capacity r - of_nat lb = (of_nat (R + c - lb) :: u64)"
        using that by (metis of_nat_diff_u64 less_imp_le)
      moreover have "of_nat R + sr_capacity r - 1 - of_nat lb + 1 = of_nat R + sr_capacity r - of_nat lb"
        by simp
      moreover have "unat (of_nat (R + c - lb) :: u64) = R + c - lb"
        using lim by (intro unat_of_nat_u64) simp
      ultimately have "unat (of_nat R + sr_capacity r - 1 - of_nat lb + 1) = R + c - lb" by metis
      with that show "substr (slice xs lb (i + n - lb)) 0 (of_nat R + sr_capacity r - 1 - of_nat lb + 1) =
        Inr (slice xs lb (R + c - lb))" by (simp only: substr_0 take_slice) simp
      show "of_nat R + sr_capacity r - 1 = (of_nat (R + c - 1) :: u64)" using that by (simp add: cap)
    qed
    have mid: "\<not> ((of_nat i :: u64) < of_nat W \<and> (of_nat (i + n - 1) :: u64) < of_nat W)"
      unfolding cmp using False by auto
    show ?thesis
      unfolding AddTempCash_trim_def sz bw br Let_def rb n0 front andthen_simps case_prod_conv ov if_not_P[OF mid]
      using False lb cut rb' by (auto simp: lb_def[symmetric])
  qed
qed

section \<open>The invariant and the abstraction\<close>

text \<open>
  For a stream \<open>xs\<close>: \<open>sr_written\<close> and \<open>sr_read\<close> are the two totals of the output, \<open>sr_core\<close> says
  that the output holds the stream between them and that the map holds the intervals \<open>ivs\<close> of
  the stream inside the window, \<open>sr_inv\<close> adds the end-of-stream bookkeeping.
\<close>

definition sr_written :: "StreamReassembler \<Rightarrow> nat" where
  "sr_written r = unat (bs_written (sr_output r))"

definition sr_read :: "StreamReassembler \<Rightarrow> nat" where
  "sr_read r = unat (bs_total_read (sr_output r))"

definition sr_core :: "bytes \<Rightarrow> StreamReassembler \<Rightarrow> interval list \<Rightarrow> bool" where
  "sr_core xs r ivs \<longleftrightarrow>
     bs_linear (sr_output r) \<and> unat (bs_capacity (sr_output r)) = unat (sr_capacity r) \<and>
     length xs + unat (sr_capacity r) < 2 ^ 31 \<and> sr_written r \<le> length xs \<and>
     bs_buffer (sr_output r) = slice xs (sr_read r) (sr_written r - sr_read r) \<and>
     sr_m r = map (enc xs) ivs \<and> sr_unassembled r = of_nat (iv_total ivs) \<and>
     iv_wf (Suc (sr_written r)) (min (sr_read r + unat (sr_capacity r)) (length xs)) ivs"

definition sr_ending :: "bytes \<Rightarrow> StreamReassembler \<Rightarrow> bool" where
  "sr_ending xs r \<longleftrightarrow> sr_endIdx r \<in> {- 1, of_nat (length xs)} \<and>
     (bs_end (sr_output r) \<longleftrightarrow> sr_endIdx r \<noteq> - 1 \<and> sr_written r = length xs)"

definition sr_inv :: "bytes \<Rightarrow> StreamReassembler \<Rightarrow> bool" where
  "sr_inv xs r \<longleftrightarrow> (\<exists>ivs. sr_core xs r ivs) \<and> sr_ending xs r"

text \<open>The indices the reassembler has, read off its state.\<close>

definition sr_known :: "StreamReassembler \<Rightarrow> nat set" where
  "sr_known r = {..<sr_written r} \<union>
     (\<Union>e \<in> set (sr_m r). {Suc (unat (fst e)) - length (snd e)..unat (fst e)})"

text \<open>
  The abstract reassembler: the set of known indices, the number of bytes read, and whether the
  end of the stream has been announced.
\<close>

type_synonym spec_state = "nat set \<times> nat \<times> bool"

definition prefix_len :: "nat set \<Rightarrow> nat" where
  "prefix_len K = (LEAST k. k \<notin> K)"

fun spec_push :: "nat \<Rightarrow> nat \<Rightarrow> nat \<Rightarrow> bool \<Rightarrow> spec_state \<Rightarrow> spec_state" where
  "spec_push c i n eof (K, R, f) = (K \<union> ({i..<i + n} \<inter> {..<R + c}), R, f \<or> eof)"

fun spec_take :: "nat \<Rightarrow> spec_state \<Rightarrow> spec_state" where
  "spec_take n (K, R, f) = (K, R + min n (prefix_len K - R), f)"

definition sr_abs :: "StreamReassembler \<Rightarrow> spec_state" where
  "sr_abs r = (sr_known r, sr_read r, sr_endIdx r \<noteq> - 1)"

lemma sr_known_core:
  assumes "sr_core xs r ivs"
  shows "sr_known r = {..<sr_written r} \<union> iv_set ivs"
proof -
  have "{Suc (unat (fst (enc xs p))) - length (snd (enc xs p))..unat (fst (enc xs p))} = {fst p..snd p}"
    if "p \<in> set ivs" for p
  proof -
    have "fst p \<le> snd p" "snd p < length xs" "length xs < 2 ^ 31"
      using assms that by (auto simp: sr_core_def iv_wf_def)
    then show ?thesis by (simp add: unat_of_nat_u64)
  qed
  moreover have "sr_m r = map (enc xs) ivs" using assms by (simp add: sr_core_def)
  ultimately have "(\<Union>e \<in> set (sr_m r). {Suc (unat (fst e)) - length (snd e)..unat (fst e)}) = iv_set ivs"
    unfolding iv_set_def by (simp only: set_map image_image) (rule SUP_cong, simp_all only:)
  then show ?thesis by (simp add: sr_known_def)
qed

lemma prefix_len_core:
  assumes "iv_wf (Suc W) hi ivs"
  shows "prefix_len ({..<W} \<union> iv_set ivs) = W"
  unfolding prefix_len_def
proof (rule Least_equality)
  show "W \<notin> {..<W} \<union> iv_set ivs" using iv_set_bounds[OF assms] by auto
qed auto

lemma sr_read_le_written: "bs_linear (sr_output r) \<Longrightarrow> sr_read r \<le> sr_written r"
  by (simp add: bs_linear_def sr_read_def sr_written_def)

lemma AddTempCash_sim:
  assumes core: "sr_core xs r ivs" and lim: "i + n \<le> length xs"
  shows "\<exists>r' ivs'. AddTempCash r (slice xs i n) (of_nat i) = Inr r' \<and> sr_core xs r' ivs' \<and>
    {..<sr_written r'} \<union> iv_set ivs' =
      {..<sr_written r} \<union> iv_set ivs \<union> ({i..<i + n} \<inter> {..<sr_read r + unat (sr_capacity r)}) \<and>
    sr_read r' = sr_read r \<and> sr_written r \<le> sr_written r' \<and>
    sr_capacity r' = sr_capacity r \<and> sr_endIdx r' = sr_endIdx r \<and>
    bs_end (sr_output r') = bs_end (sr_output r)"
proof -
  let ?W = "sr_written r" and ?R = "sr_read r" and ?c = "unat (sr_capacity r)"
  define lb en hi where "lb = max i ?W" and "en = min (i + n) (?R + ?c)" and "hi = min (?R + ?c) (length xs)"
  note C = core[unfolded sr_core_def, folded hi_def]
  have lin: "bs_linear (sr_output r)" using C by simp
  note RW = sr_read_le_written[OF lin]
  have trim: "AddTempCash_trim r (slice xs i n) (of_nat i) =
      (if n = 0 \<or> i + n \<le> ?W \<or> en \<le> lb then Inr None
       else Inr (Some (slice xs lb (en - lb), of_nat lb, of_nat (en - 1))))"
    unfolding lb_def en_def using C RW lim
    by (subst AddTempCash_trim_spec[where W = ?W and R = ?R and c = ?c])
      (auto simp: bytes_written_nat bytes_read_nat sr_written_def sr_read_def Let_def)
  show ?thesis
  proof (cases "n = 0 \<or> i + n \<le> ?W \<or> en \<le> lb")
    case True
    have "{i..<i + n} \<inter> {..<?R + ?c} \<subseteq> {..<?W}"
      using True by (auto simp: lb_def en_def)
    then show ?thesis
      using True core by (intro exI[of _ r] exI[of _ ivs]) (auto simp: AddTempCash_def trim)
  next
    case False
    define rb where "rb = en - 1"
    have b: "lb \<le> rb" "rb < hi" "?W \<le> lb" "Suc rb = en" "hi \<le> length xs" "hi \<le> ?R + ?c" "length xs < 2 ^ 31"
      using False lim C by (auto simp: rb_def en_def hi_def lb_def)
    have wfW: "iv_wf ?W hi ivs" and wfL: "iv_wf ?W (length xs) ivs"
      using C b by (auto intro!: iv_wf_raise[of "Suc ?W" hi ivs] simp: iv_wf_def)
    let ?jvs = "iv_merge lb rb ivs"
    have en: "en - 1 = rb" "en - lb = Suc rb - lb" using b(4) by linarith+
    have cap: "?R + ?c = unat (bs_total_read (sr_output r)) + unat (bs_capacity (sr_output r))"
      using C by (simp add: sr_read_def)
    note M = iv_merge_wf[OF wfW b(3,1,2)]
    have merge: "AddTempCash_merge r (slice xs lb (en - lb)) (of_nat lb) (of_nat rb) =
        Inr (r\<lparr>sr_m := map (enc xs) ?jvs, sr_unassembled := of_nat (iv_total ?jvs)\<rparr>)"
      unfolding en using C b by (intro AddTempCash_merge_spec[OF _ _ wfL]) auto
    obtain W' ivs' where D:
      "AddTempCash_drain (sr_output r) (of_nat (iv_total ?jvs)) (map (enc xs) ?jvs) =
        ((sr_output r)\<lparr>bs_buffer := bs_buffer (sr_output r) @ slice xs ?W (W' - ?W), bs_written := of_nat W'\<rparr>,
         of_nat (iv_total ivs'), map (enc xs) ivs')"
      "?W \<le> W'" "W' \<le> ?W \<or> W' \<le> hi" "iv_wf (Suc W') hi ivs'" "{..<?W} \<union> iv_set ?jvs = {..<W'} \<union> iv_set ivs'"
      "bs_linear ((sr_output r)\<lparr>bs_buffer := bs_buffer (sr_output r) @ slice xs ?W (W' - ?W), bs_written := of_nat W'\<rparr>)"
      using AddTempCash_drain_spec[OF lin sr_written_def[symmetric] M(1) b(5,7)] b(6)[unfolded cap] by blast
    let ?r = "r\<lparr>sr_output := (sr_output r)\<lparr>bs_buffer := bs_buffer (sr_output r) @ slice xs ?W (W' - ?W),
        bs_written := of_nat W'\<rparr>, sr_unassembled := of_nat (iv_total ivs'), sr_m := map (enc xs) ivs'\<rparr>"
    have res: "AddTempCash r (slice xs i n) (of_nat i) = Inr ?r"
      using False merge D(1) unfolding AddTempCash_def trim rb_def by simp
    have W': "sr_written ?r = W'" "sr_read ?r = ?R"
      using D(3) C b unat_of_nat_u32[of W'] by (auto simp: sr_written_def sr_read_def)
    have "sr_core xs ?r ivs'"
      using C D b RW W' slice_join[of ?R ?W W' xs] by (auto simp: sr_core_def hi_def)
    moreover have "{..<W'} \<union> iv_set ivs' = {..<?W} \<union> iv_set ivs \<union> ({i..<i + n} \<inter> {..<?R + ?c})"
    proof -
      have "{lb..rb} \<union> {..<?W} = {..<?W} \<union> ({i..<i + n} \<inter> {..<?R + ?c})"
        using False b(4) by (auto simp: lb_def en_def rb_def)
      then show ?thesis using D(5) M(2) by auto
    qed
    ultimately show ?thesis
      using res W' D(2) by (intro exI[of _ ?r] exI[of _ ivs']) simp
  qed
qed


lemma bs_linear_end [simp]: "bs_linear (s\<lparr>bs_end := b\<rparr>) = bs_linear s"
  by (simp add: bs_linear_def bs_wf_def)

lemma sr_core_cong:
  assumes "sr_core xs r ivs"
  shows "sr_core xs (r\<lparr>sr_endIdx := e\<rparr>) ivs"
    and "sr_core xs (r\<lparr>sr_output := ByteStream_end_input (sr_output r)\<rparr>) ivs"
  using assms
  by (simp_all add: sr_core_def sr_written_def sr_read_def ByteStream_end_input_def)

lemma of_nat_ne_minus_1: "n < 2 ^ 31 \<Longrightarrow> (of_nat n :: u64) \<noteq> - 1"
proof
  assume "n < 2 ^ 31" and "(of_nat n :: u64) = - 1"
  moreover have "unat (- 1 :: u64) = 2 ^ 64 - 1"
    by (simp add: unsigned_minus_1_eq_mask mask_eq_exp_minus_1)
  ultimately show False using unat_of_nat_u64[of n] by simp
qed

lemma push_substring_sim:
  assumes inv: "sr_inv xs r" and lim: "i + n \<le> length xs" and fin: "eof \<longrightarrow> i + n = length xs"
  shows "\<exists>r'. push_substring r (slice xs i n) (of_nat i) eof = Inr r' \<and> sr_inv xs r' \<and>
    sr_capacity r' = sr_capacity r \<and> sr_abs r' = spec_push (unat (sr_capacity r)) i n eof (sr_abs r)"
proof -
  obtain ivs where core: "sr_core xs r ivs" and ending: "sr_ending xs r" using inv by (auto simp: sr_inv_def)
  have small: "length xs < 2 ^ 31" using core by (simp add: sr_core_def)
  have ne: "(of_nat (length xs) :: u64) \<noteq> - 1" by (rule of_nat_ne_minus_1[OF small])
  define r0 where "r0 = (if eof then r\<lparr>sr_endIdx := of_nat i + size_of (slice xs i n)\<rparr> else r)"
  have e0: "sr_endIdx r0 \<in> {- 1, of_nat (length xs)}" "sr_endIdx r0 \<noteq> - 1 \<longleftrightarrow> eof \<or> sr_endIdx r \<noteq> - 1"
    using ending fin lim ne by (auto simp: r0_def sr_ending_def size_of_slice simp flip: of_nat_add)
  have core0: "sr_core xs r0 ivs" using core by (simp add: r0_def sr_core_cong)
  have same: "sr_written r0 = sr_written r" "sr_read r0 = sr_read r" "sr_capacity r0 = sr_capacity r"
    "sr_output r0 = sr_output r" by (simp_all add: r0_def sr_written_def sr_read_def)
  obtain r1 ivs' where A: "AddTempCash r0 (slice xs i n) (of_nat i) = Inr r1" "sr_core xs r1 ivs'"
    "{..<sr_written r1} \<union> iv_set ivs' =
      {..<sr_written r} \<union> iv_set ivs \<union> ({i..<i + n} \<inter> {..<sr_read r + unat (sr_capacity r)})"
    "sr_read r1 = sr_read r" "sr_written r \<le> sr_written r1" "sr_capacity r1 = sr_capacity r" "sr_endIdx r1 = sr_endIdx r0"
    "bs_end (sr_output r1) = bs_end (sr_output r)"
    using AddTempCash_sim[OF core0 lim] unfolding same by blast
  define r2 where "r2 = (if ByteStream_bytes_written (sr_output r1) = sr_endIdx r1
              then r1\<lparr>sr_output := ByteStream_end_input (sr_output r1)\<rparr> else r1)"
  have W1: "sr_written r1 \<le> length xs" "bs_linear (sr_output r1)" using A(2) by (simp_all add: sr_core_def)
  have bw: "ByteStream_bytes_written (sr_output r1) = of_nat (sr_written r1)"
    using W1 by (simp add: bytes_written_nat sr_written_def)
  have hit: "ByteStream_bytes_written (sr_output r1) = sr_endIdx r1 \<longleftrightarrow>
      sr_endIdx r1 \<noteq> - 1 \<and> sr_written r1 = length xs"
    using e0(1) W1 small of_nat_ne_minus_1[of "sr_written r1"] ne unfolding bw A(7)
    by (auto simp: of_nat_eq_u64)
  have core2: "sr_core xs r2 ivs'" using A(2) by (simp add: r2_def sr_core_cong)
  have same2: "sr_written r2 = sr_written r1" "sr_read r2 = sr_read r1" "sr_capacity r2 = sr_capacity r1"
    "sr_endIdx r2 = sr_endIdx r1"
    by (simp_all add: r2_def sr_written_def sr_read_def ByteStream_end_input_def)
  have "bs_end (sr_output r2) \<longleftrightarrow> bs_end (sr_output r) \<or> (sr_endIdx r1 \<noteq> - 1 \<and> sr_written r1 = length xs)"
    using hit A(8) by (simp add: r2_def ByteStream_end_input_def)
  then have "sr_ending xs r2"
    using ending e0 A(5,7) W1 unfolding sr_ending_def same2 by auto
  moreover have "sr_abs r2 = spec_push (unat (sr_capacity r)) i n eof (sr_abs r)"
    using A(3,4,7) e0(2) by (auto simp: sr_abs_def sr_known_core[OF core2] sr_known_core[OF core] same2)
  moreover have "push_substring r (slice xs i n) (of_nat i) eof = Inr r2"
    using A(1) by (simp add: push_substring_def r0_def[symmetric] r2_def Let_def)
  ultimately show ?thesis
    using core2 A(6) same2 by (auto simp: sr_inv_def)
qed


section \<open>Reading and observing\<close>

lemma ByteStream_read_sim:
  assumes inv: "sr_inv xs r"
  shows "\<exists>o'. ByteStream_read (sr_output r) n =
      Inr (slice xs (sr_read r) (min (unat n) (prefix_len (sr_known r) - sr_read r)), o') \<and>
    sr_inv xs (r\<lparr>sr_output := o'\<rparr>) \<and> sr_abs (r\<lparr>sr_output := o'\<rparr>) = spec_take (unat n) (sr_abs r)"
proof -
  obtain ivs where core: "sr_core xs r ivs" and ending: "sr_ending xs r" using inv by (auto simp: sr_inv_def)
  let ?W = "sr_written r" and ?R = "sr_read r" and ?c = "unat (sr_capacity r)"
  note C = core[unfolded sr_core_def]
  have lin: "bs_linear (sr_output r)" and wf: "bs_wf (sr_output r)" using C by (auto simp: bs_linear_def)
  have ivwf: "iv_wf (Suc ?W) (min (?R + ?c) (length xs)) ivs" using C by simp
  note RW = sr_read_le_written[OF lin]
  have len: "length (bs_buffer (sr_output r)) = ?W - ?R" using C RW by simp
  have W: "prefix_len (sr_known r) = ?W"
    unfolding sr_known_core[OF core] by (rule prefix_len_core[OF ivwf])
  define k where "k = min (unat n) (?W - ?R)"
  define o' where "o' = (sr_output r)\<lparr>bs_buffer := drop (unat n) (bs_buffer (sr_output r)),
      bs_total_read := bs_total_read (sr_output r) + of_nat k\<rparr>"
  have rd: "ByteStream_read (sr_output r) n = Inr (take (unat n) (bs_buffer (sr_output r)), o')"
    unfolding o'_def k_def len[symmetric] by (rule read_spec[OF wf])
  have out: "take (unat n) (bs_buffer (sr_output r)) = slice xs ?R k"
    "drop (unat n) (bs_buffer (sr_output r)) = slice xs (?R + k) (?W - (?R + k))"
    using C RW by (auto simp: take_slice drop_slice k_def min_def)
  have small: "?R + k < 2 ^ 31" using C RW by (auto simp: k_def)
  have R': "unat (bs_total_read o') = ?R + k"
    using small by (simp add: o'_def sr_read_def unat_add_u32 unat_of_nat_u32)
  have "bs_linear o'"
    using read_wf[OF wf rd] lin R' len unfolding bs_linear_def
    by (auto simp: o'_def sr_read_def sr_written_def k_def)
  let ?r = "r\<lparr>sr_output := o'\<rparr>"
  have obs: "sr_written ?r = ?W" "sr_read ?r = ?R + k" using R' by (simp_all add: sr_written_def sr_read_def o'_def)
  have "sr_core xs ?r ivs"
    using C \<open>bs_linear o'\<close> out(2) obs iv_wf_raise[of "Suc ?W" "min (?R + ?c) (length xs)" ivs "Suc ?W" "min (?R + k + ?c) (length xs)"]
    unfolding sr_core_def by (auto simp: o'_def iv_wf_def)
  moreover have "sr_ending xs ?r" using ending by (simp add: sr_ending_def sr_written_def o'_def)
  moreover have "sr_known ?r = sr_known r" using obs by (simp add: sr_known_def)
  ultimately show ?thesis
    using rd out(1) obs by (intro exI[of _ o']) (auto simp: sr_inv_def sr_abs_def W k_def)
qed

text \<open>What the accessors return, in terms of the known indices.\<close>

lemma sr_observe:
  assumes inv: "sr_inv xs r"
  defines "K \<equiv> sr_known r"
  shows "bs_buffer (sr_output r) = slice xs (sr_read r) (prefix_len K - sr_read r)"
    and "prefix_len K \<le> length xs" and "sr_read r \<le> prefix_len K"
    and "unat (StreamReassembler_unassembled_bytes r) = card {k \<in> K. prefix_len K \<le> k}"
    and "length (bs_buffer (sr_output r)) + unat (StreamReassembler_unassembled_bytes r) \<le> unat (sr_capacity r)"
    and "ByteStream_input_ended (sr_output r) \<longleftrightarrow> sr_endIdx r \<noteq> - 1 \<and> prefix_len K = length xs"
    and "K \<subseteq> {..<min (sr_read r + unat (sr_capacity r)) (length xs)}"
proof -
  obtain ivs where core: "sr_core xs r ivs" and ending: "sr_ending xs r" using inv by (auto simp: sr_inv_def)
  let ?W = "sr_written r" and ?R = "sr_read r" and ?c = "unat (sr_capacity r)"
  note C = core[unfolded sr_core_def]
  have lin: "bs_linear (sr_output r)" and wf: "bs_wf (sr_output r)" using C by (auto simp: bs_linear_def)
  have ivwf: "iv_wf (Suc ?W) (min (?R + ?c) (length xs)) ivs" using C by simp
  note RW = sr_read_le_written[OF lin]
  have K: "K = {..<?W} \<union> iv_set ivs" unfolding K_def by (rule sr_known_core[OF core])
  have W: "prefix_len K = ?W" unfolding K by (rule prefix_len_core[OF ivwf])
  have sub: "iv_set ivs \<subseteq> {Suc ?W..<min (?R + ?c) (length xs)}" by (rule iv_set_bounds[OF ivwf])
  have len: "length (bs_buffer (sr_output r)) = ?W - ?R" using C RW by simp
  have room: "?W \<le> ?R + ?c" using wf len C by (auto simp: bs_wf_def)
  have set: "{k \<in> K. prefix_len K \<le> k} = iv_set ivs" using sub by (auto simp: W) (auto simp: K)
  have tot: "iv_total ivs = card (iv_set ivs)" by (rule iv_total_card[OF ivwf])
  have bound: "card (iv_set ivs) \<le> min (?R + ?c) (length xs) - Suc ?W" using card_mono[OF _ sub] by simp
  have "length xs < 2 ^ 31" using C by simp
  with bound have "card (iv_set ivs) < 2 ^ 64" by simp
  then have un: "unat (StreamReassembler_unassembled_bytes r) = card (iv_set ivs)"
    using C by (simp add: StreamReassembler_unassembled_bytes_def tot unat_of_nat_u64)
  show "bs_buffer (sr_output r) = slice xs ?R (prefix_len K - ?R)" "prefix_len K \<le> length xs" "?R \<le> prefix_len K"
    using C RW by (simp_all add: W)
  show "unat (StreamReassembler_unassembled_bytes r) = card {k \<in> K. prefix_len K \<le> k}" by (simp add: un set)
  show "length (bs_buffer (sr_output r)) + unat (StreamReassembler_unassembled_bytes r) \<le> ?c"
    unfolding un len using le_trans[OF bound diff_le_mono[OF min.cobounded1]] room RW by linarith
  show "ByteStream_input_ended (sr_output r) \<longleftrightarrow> sr_endIdx r \<noteq> - 1 \<and> prefix_len K = length xs"
    using ending by (simp add: W sr_ending_def ByteStream_input_ended_def)
  show "K \<subseteq> {..<min (?R + ?c) (length xs)}" unfolding K using sub room C by auto
qed


section \<open>Whole executions\<close>

text \<open>
  Segments of a stream \<open>xs\<close> arrive in any order and the reader takes bytes in between.
  \<open>Arrive i n eof\<close> pushes the bytes \<open>i..<i+n\<close>; the flag may only be set on the last ones.
\<close>

datatype sr_op = Arrive nat nat bool | Take size_t

fun sr_legal :: "bytes \<Rightarrow> sr_op \<Rightarrow> bool" where
  "sr_legal xs (Arrive i n eof) \<longleftrightarrow> i + n \<le> length xs \<and> (eof \<longrightarrow> i + n = length xs)"
| "sr_legal xs (Take n) \<longleftrightarrow> True"

fun sr_step :: "bytes \<Rightarrow> StreamReassembler \<Rightarrow> sr_op \<Rightarrow> (bytes \<times> StreamReassembler) result" where
  "sr_step xs r (Arrive i n eof) =
     andthen (push_substring r (slice xs i n) (of_nat i) eof) (\<lambda>r'. Inr ([], r'))"
| "sr_step xs r (Take n) =
     andthen (ByteStream_read (sr_output r) n) (\<lambda>(d, out). Inr (d, r\<lparr>sr_output := out\<rparr>))"

fun spec_step :: "bytes \<Rightarrow> nat \<Rightarrow> sr_op \<Rightarrow> spec_state \<Rightarrow> bytes \<times> spec_state" where
  "spec_step xs c (Arrive i n eof) a = ([], spec_push c i n eof a)"
| "spec_step xs c (Take n) (K, R, f) =
     (slice xs R (min (unat n) (prefix_len K - R)), spec_take (unat n) (K, R, f))"

interpretation sr_sim: simulation "\<lambda>r. sr_inv xs r \<and> sr_capacity r = c" "sr_legal xs" "sr_step xs"
  sr_abs "spec_step xs (unat c)" for xs c
proof
  fix r x
  assume inv: "sr_inv xs r \<and> sr_capacity r = c" and leg: "sr_legal xs x"
  show "\<exists>y r'. sr_step xs r x = Inr (y, r') \<and> (sr_inv xs r' \<and> sr_capacity r' = c) \<and>
      spec_step xs (unat c) x (sr_abs r) = (y, sr_abs r')"
  proof (cases x)
    case (Arrive i n eof)
    then show ?thesis using push_substring_sim[of xs r i n eof] inv leg by auto
  next
    case (Take n)
    then show ?thesis using ByteStream_read_sim[of xs r n] inv by (auto simp: sr_abs_def)
  qed
qed

lemma sr_new_inv:
  assumes "length xs + unat cap < 2 ^ 31"
  shows "sr_inv xs (StreamReassembler_new cap)" and "sr_capacity (StreamReassembler_new cap) = cap"
    and "sr_abs (StreamReassembler_new cap) = ({}, 0, False)"
proof -
  have "unat (ucast cap :: cint) = unat cap" using assms by (intro unat_ucast_u64_u32) simp
  then show "sr_inv xs (StreamReassembler_new cap)"
    using assms of_nat_ne_minus_1[of "length xs"]
    by (auto simp: sr_inv_def sr_core_def sr_ending_def StreamReassembler_new_def bs_linear_def
        bs_wf_def ByteStream_new_def sr_written_def sr_read_def intro!: exI[of _ "[]"])
  show "sr_capacity (StreamReassembler_new cap) = cap" by (simp add: StreamReassembler_new_def)
  show "sr_abs (StreamReassembler_new cap) = ({}, 0, False)"
    by (simp add: sr_abs_def sr_known_def StreamReassembler_new_def ByteStream_new_def sr_written_def sr_read_def)
qed

text \<open>The bytes the abstract machine hands out are consecutive parts of the stream.\<close>

lemma spec_run_delivers:
  "spec_run (spec_step xs c) ops (K, R, f) = (ys, K', R', f') \<Longrightarrow>
   R \<le> R' \<and> concat ys = slice xs R (R' - R) \<and> (f' \<longleftrightarrow> f \<or> (\<exists>i n. Arrive i n True \<in> set ops))"
proof (induction ops arbitrary: K R f ys)
  case Nil
  then show ?case by simp
next
  case (Cons x ops)
  obtain y K1 R1 f1 where one: "spec_step xs c x (K, R, f) = (y, K1, R1, f1)" by (metis prod_cases3)
  obtain ys1 K2 R2 f2 where rest: "spec_run (spec_step xs c) ops (K1, R1, f1) = (ys1, K2, R2, f2)"
    by (metis prod_cases3)
  have eqs: "ys = y # ys1" "K' = K2" "R' = R2" "f' = f2" using Cons.prems one rest by simp_all
  have "R \<le> R1 \<and> y = slice xs R (R1 - R) \<and> (f1 \<longleftrightarrow> f \<or> (\<exists>i n. x = Arrive i n True))"
    using one by (cases x) auto
  with Cons.IH[OF rest[folded eqs(2-4)]] eqs(1) show ?case by (auto simp: slice_join)
qed


text \<open>C12: The reassembler implements the abstract machine. Whatever legal sequence of arrivals and
reads it goes through, every call returns, every read hands out exactly the bytes the abstract
machine hands out, and the final set of known indices, the number of bytes read and the
end-of-stream flag are those of the machine. An arrival adds the pushed indices that lie inside
the window of \<open>capacity\<close> bytes starting at the first unread byte.\<close>

theorem reassembler_refines:
  assumes "length xs + unat cap < 2 ^ 31" and "list_all (sr_legal xs) ops"
  shows "\<exists>ys r. run_ops (sr_step xs) (StreamReassembler_new cap) ops = Inr (ys, r) \<and>
    spec_run (spec_step xs (unat cap)) ops ({}, 0, False) = (ys, sr_abs r)"
  using sr_sim.run_sim[of xs "StreamReassembler_new cap" cap ops] sr_new_inv[OF assms(1)] assms(2) by auto

theorem reassembler_refines_witness:
  "\<exists>ys r. run_ops (sr_step [7, 8, 9]) (StreamReassembler_new 2)
      [Arrive 1 2 True, Arrive 0 1 False, Take 1, Arrive 1 2 True] = Inr (ys, r) \<and>
    spec_run (spec_step [7, 8, 9] (unat (2 :: size_t)))
      [Arrive 1 2 True, Arrive 0 1 False, Take 1, Arrive 1 2 True] ({}, 0, False) = (ys, sr_abs r)"
  by (rule reassembler_refines) simp_all

text \<open>C15: Delivery in order and exactly once. After any legal sequence of arrivals and reads of a
stream \<open>xs\<close>, the bytes read so far followed by the bytes buffered in the output are the first
\<open>w\<close> bytes of \<open>xs\<close>, where \<open>w\<close> is the least index that is not known; \<open>unassembled_bytes\<close>
counts the known indices behind it, each once; buffered and unassembled bytes together stay
within the capacity; and the output has ended exactly when an arrival announced the end and
nothing is missing.\<close>

theorem reassembler_delivers:
  assumes "length xs + unat cap < 2 ^ 31" and "list_all (sr_legal xs) ops"
  shows "\<exists>ys r. run_ops (sr_step xs) (StreamReassembler_new cap) ops = Inr (ys, r) \<and>
    (let w = prefix_len (sr_known r)
     in concat ys @ bs_buffer (sr_output r) = take w xs \<and>
        unat (StreamReassembler_unassembled_bytes r) = card {k \<in> sr_known r. w \<le> k} \<and>
        length (bs_buffer (sr_output r)) + unat (StreamReassembler_unassembled_bytes r) \<le> unat cap \<and>
        (ByteStream_input_ended (sr_output r) \<longleftrightarrow> (\<exists>i n. Arrive i n True \<in> set ops) \<and> w = length xs))"
proof -
  from sr_sim.run_sim[of xs "StreamReassembler_new cap" cap ops] sr_new_inv[OF assms(1)] assms(2)
  obtain ys r where run: "run_ops (sr_step xs) (StreamReassembler_new cap) ops = Inr (ys, r)"
    and inv: "sr_inv xs r" and cap: "sr_capacity r = cap"
    and spec: "spec_run (spec_step xs (unat cap)) ops ({}, 0, False) = (ys, sr_abs r)" by auto
  note D = spec_run_delivers[OF spec[unfolded sr_abs_def]]
  note O = sr_observe[OF inv]
  have "concat ys @ bs_buffer (sr_output r) = take (prefix_len (sr_known r)) xs"
    using D O(1,3) slice_join[of 0 "sr_read r" "prefix_len (sr_known r)" xs] by simp
  with run O D cap show ?thesis by (auto simp: Let_def)
qed

theorem reassembler_delivers_witness:
  "\<exists>ys r. run_ops (sr_step [7, 8, 9]) (StreamReassembler_new 2)
      [Arrive 1 2 True, Arrive 0 1 False, Take 1, Arrive 1 2 True] = Inr (ys, r) \<and>
    (let w = prefix_len (sr_known r)
     in concat ys @ bs_buffer (sr_output r) = take w [7, 8, 9] \<and>
        unat (StreamReassembler_unassembled_bytes r) = card {k \<in> sr_known r. w \<le> k} \<and>
        length (bs_buffer (sr_output r)) + unat (StreamReassembler_unassembled_bytes r) \<le> unat (2 :: size_t) \<and>
        (ByteStream_input_ended (sr_output r) \<longleftrightarrow>
           (\<exists>i n. Arrive i n True \<in> set [Arrive 1 2 True, Arrive 0 1 False, Take 1, Arrive 1 2 True]) \<and>
           w = length [7 :: byte, 8, 9]))"
  by (rule reassembler_delivers) simp_all


end
