(* ===== verification/Buffers.thy ===== *)
theory Buffers
  imports Interfaces
begin

text \<open>
  \<open>libsponge/util/buffer.{hh,cc}\<close>: a \<open>Buffer\<close> is a shared string with the number of bytes
  discarded from its front, a \<open>BufferList\<close> is a queue of them, a \<open>BufferViewList\<close> is a queue of
  string views. All three expose a string; the last section shows that each implements the
  contract of a string that loses a prefix. The other components hold the exposed string.
\<close>

section \<open>Buffer\<close>

record Buffer =
  buf_storage :: "bytes option"
  buf_starting_offset :: size_t

definition Buffer_default :: Buffer where
  "Buffer_default = \<lparr>buf_storage = None, buf_starting_offset = 0\<rparr>"

definition Buffer_new :: "bytes \<Rightarrow> Buffer" where
  "Buffer_new s = \<lparr>buf_storage = Some s, buf_starting_offset = 0\<rparr>"

definition Buffer_str :: "Buffer \<Rightarrow> bytes" where
  "Buffer_str b =
     (case buf_storage b of
        None \<Rightarrow> []
      | Some s \<Rightarrow> take (unat (size_of s - buf_starting_offset b)) (drop (unat (buf_starting_offset b)) s))"

definition Buffer_size :: "Buffer \<Rightarrow> size_t" where
  "Buffer_size b = size_of (Buffer_str b)"

definition Buffer_at :: "Buffer \<Rightarrow> size_t \<Rightarrow> byte result" where
  "Buffer_at b n =
     (if n < Buffer_size b then Inr (Buffer_str b ! unat n)
      else Inl (OutOfRange ''basic_string_view::at''))"

definition Buffer_copy :: "Buffer \<Rightarrow> bytes" where
  "Buffer_copy b = Buffer_str b"

definition Buffer_remove_prefix :: "Buffer \<Rightarrow> size_t \<Rightarrow> Buffer result" where
  "Buffer_remove_prefix b n =
     (if Buffer_size b < n then Inl (OutOfRange ''Buffer::remove_prefix'')
      else let b1 = b\<lparr>buf_starting_offset := buf_starting_offset b + n\<rparr>
           in Inr (case buf_storage b1 of
                     None \<Rightarrow> b1
                   | Some s \<Rightarrow> if buf_starting_offset b1 = size_of s then b1\<lparr>buf_storage := None\<rparr> else b1))"

section \<open>BufferList\<close>

type_synonym BufferList = "Buffer list"

definition BufferList_new :: "bytes \<Rightarrow> BufferList" where
  "BufferList_new s = [] @ [Buffer_new s]"

definition BufferList_append :: "BufferList \<Rightarrow> BufferList \<Rightarrow> BufferList" where
  "BufferList_append bl other = foldl (\<lambda>acc buf. acc @ [buf]) bl other"

definition BufferList_to_Buffer :: "BufferList \<Rightarrow> Buffer result" where
  "BufferList_to_Buffer bl =
     (case bl of
        [] \<Rightarrow> Inr Buffer_default
      | [b] \<Rightarrow> Inr b
      | _ \<Rightarrow> Inl (RuntimeError ''BufferList: please use concatenate() to combine a multi-Buffer BufferList into one Buffer''))"

definition BufferList_concatenate :: "BufferList \<Rightarrow> bytes" where
  "BufferList_concatenate bl = foldl (\<lambda>ret buf. ret @ Buffer_str buf) [] bl"

definition BufferList_size :: "BufferList \<Rightarrow> size_t" where
  "BufferList_size bl = foldl (\<lambda>ret buf. ret + Buffer_size buf) 0 bl"

definition BufferList_remove_prefix :: "BufferList \<Rightarrow> size_t \<Rightarrow> BufferList result" where
  "BufferList_remove_prefix bl n =
     andthen
       (while_loop (\<lambda>(n, bl). 0 < n)
          (\<lambda>(n, bl). case bl of
             [] \<Rightarrow> Inl (OutOfRange ''BufferList::remove_prefix'')
           | b # bs \<Rightarrow>
               if n < Buffer_size b
               then andthen (Buffer_remove_prefix b n) (\<lambda>b'. Inr (0, b' # bs))
               else Inr (n - Buffer_size b, bs))
          (n, bl))
       (\<lambda>(n, bl). Inr bl)"

section \<open>BufferViewList\<close>

type_synonym BufferViewList = "bytes list"

definition BufferViewList_new :: "BufferList \<Rightarrow> BufferViewList" where
  "BufferViewList_new bl = foldl (\<lambda>acc x. acc @ [Buffer_str x]) [] bl"

definition BufferViewList_size :: "BufferViewList \<Rightarrow> size_t" where
  "BufferViewList_size vl = foldl (\<lambda>ret v. ret + size_of v) 0 vl"

definition BufferViewList_remove_prefix :: "BufferViewList \<Rightarrow> size_t \<Rightarrow> BufferViewList result" where
  "BufferViewList_remove_prefix vl n =
     andthen
       (while_loop (\<lambda>(n, vl). 0 < n)
          (\<lambda>(n, vl). case vl of
             [] \<Rightarrow> Inl (OutOfRange ''BufferListView::remove_prefix'')
           | v # vs \<Rightarrow>
               if n < size_of v then Inr (0, drop (unat n) v # vs)
               else Inr (n - size_of v, vs))
          (n, vl))
       (\<lambda>(n, vl). Inr vl)"

definition BufferViewList_as_iovecs :: "BufferViewList \<Rightarrow> (bytes \<times> size_t) list" where
  "BufferViewList_as_iovecs vl = foldl (\<lambda>ret x. ret @ [(x, size_of x)]) [] vl"

section \<open>The exposed strings\<close>

definition Buffer_wf :: "Buffer \<Rightarrow> bool" where
  "Buffer_wf b \<longleftrightarrow>
     (case buf_storage b of
        None \<Rightarrow> True
      | Some s \<Rightarrow> length s < 2 ^ 63 \<and> unat (buf_starting_offset b) \<le> length s)"

definition BufferList_wf :: "BufferList \<Rightarrow> bool" where
  "BufferList_wf bl \<longleftrightarrow> list_all Buffer_wf bl \<and> length (BufferList_concatenate bl) < 2 ^ 63"

definition BufferViewList_wf :: "BufferViewList \<Rightarrow> bool" where
  "BufferViewList_wf vl \<longleftrightarrow> length (concat vl) < 2 ^ 63"

lemma Buffer_str_drop:
  assumes "Buffer_wf b" and "buf_storage b = Some s"
  shows "Buffer_str b = drop (unat (buf_starting_offset b)) s"
proof -
  have "unat (buf_starting_offset b) \<le> length s" "length s < 2 ^ 63"
    using assms by (simp_all add: Buffer_wf_def)
  moreover have "unat (size_of s - buf_starting_offset b) = length s - unat (buf_starting_offset b)"
    using calculation by (subst unat_sub) (simp_all add: word_le_nat_alt unat_size_of)
  ultimately show ?thesis using assms(2) by (simp add: Buffer_str_def)
qed

lemma Buffer_str_length: "Buffer_wf b \<Longrightarrow> length (Buffer_str b) < 2 ^ 63"
  by (cases "buf_storage b") (auto simp: Buffer_str_drop, auto simp: Buffer_wf_def Buffer_str_def)

lemma unat_Buffer_size: "Buffer_wf b \<Longrightarrow> unat (Buffer_size b) = length (Buffer_str b)"
  using Buffer_str_length[of b] by (simp add: Buffer_size_def unat_size_of)

lemma Buffer_new_str [simp]: "length s < 2 ^ 63 \<Longrightarrow> Buffer_str (Buffer_new s) = s"
  by (simp add: Buffer_str_def Buffer_new_def unat_size_of)

lemma Buffer_new_wf [simp]: "length s < 2 ^ 63 \<Longrightarrow> Buffer_wf (Buffer_new s)"
  by (simp add: Buffer_wf_def Buffer_new_def)

lemma Buffer_at_spec:
  "Buffer_wf b \<Longrightarrow> Buffer_at b n =
     (if unat n < length (Buffer_str b) then Inr (Buffer_str b ! unat n)
      else Inl (OutOfRange ''basic_string_view::at''))"
  by (simp add: Buffer_at_def word_less_nat_alt unat_Buffer_size)

interpretation buffer_removal: prefix_removable Buffer_wf Buffer_str Buffer_remove_prefix
  "''Buffer::remove_prefix''"
proof
  fix b :: Buffer and n :: size_t
  assume wf: "Buffer_wf b" and le: "unat n \<le> length (Buffer_str b)"
  show "\<exists>b'. Buffer_remove_prefix b n = Inr b' \<and> Buffer_wf b' \<and> Buffer_str b' = drop (unat n) (Buffer_str b)"
  proof (cases "buf_storage b")
    case None
    with le have "n = 0" by (simp add: Buffer_str_def unat_eq_zero)
    with None show ?thesis by (simp add: Buffer_remove_prefix_def Buffer_wf_def Buffer_str_def)
  next
    case (Some s)
    let ?o = "buf_starting_offset b"
    have s: "length s < 2 ^ 63" "unat ?o \<le> length s" using wf Some by (simp_all add: Buffer_wf_def)
    have str: "Buffer_str b = drop (unat ?o) s" by (rule Buffer_str_drop[OF wf Some])
    have sum: "unat (?o + n) = unat ?o + unat n"
      using s le by (intro unat_add_u64) (simp add: str)
    have le': "unat ?o + unat n \<le> length s" using s le by (simp add: str)
    let ?b = "b\<lparr>buf_starting_offset := ?o + n\<rparr>"
    have wf': "Buffer_wf ?b" using s le' Some by (simp add: Buffer_wf_def sum)
    have str': "Buffer_str ?b = drop (unat n) (Buffer_str b)"
      using Buffer_str_drop[OF wf'] Some by (simp add: sum str) (simp only: add.commute)
    have fin: "?o + n = size_of s \<longleftrightarrow> unat ?o + unat n = length s"
      using s by (simp add: word_unat_eq_iff sum unat_size_of)
    have "\<not> Buffer_size b < n" using le by (simp add: word_less_nat_alt unat_Buffer_size[OF wf])
    with wf' str' fin Some show ?thesis
      by (auto simp: Buffer_remove_prefix_def Let_def Buffer_wf_def str)
        (auto simp: Buffer_str_def)
  qed
next
  fix b :: Buffer and n :: size_t
  assume "Buffer_wf b" and "length (Buffer_str b) < unat n"
  then show "Buffer_remove_prefix b n = Inl (OutOfRange ''Buffer::remove_prefix'')"
    by (simp add: Buffer_remove_prefix_def word_less_nat_alt unat_Buffer_size)
qed

lemma foldl_snoc_map: "foldl (\<lambda>acc x. acc @ [f x]) a xs = a @ map f xs"
  by (induction xs arbitrary: a) simp_all

lemma BufferList_append_eq [simp]: "BufferList_append bl other = bl @ other"
  by (simp add: BufferList_append_def foldl_snoc_map[of "\<lambda>x. x", simplified])

lemma BufferViewList_new_eq [simp]: "BufferViewList_new bl = map Buffer_str bl"
  by (simp add: BufferViewList_new_def foldl_snoc_map)

lemma concatenate_eq: "BufferList_concatenate bl = concat (map Buffer_str bl)"
proof -
  have "foldl (\<lambda>ret buf. ret @ Buffer_str buf) a bl = a @ concat (map Buffer_str bl)" for a
    by (induction bl arbitrary: a) simp_all
  then show ?thesis by (simp add: BufferList_concatenate_def)
qed


lemma size_eq_concat:
  "BufferViewList_size vl = size_of (concat vl)"
  "BufferList_size bl = size_of (BufferList_concatenate bl)"
proof -
  have "foldl (\<lambda>ret v. ret + size_of v) a vl = a + size_of (concat vl)" for a
    by (induction vl arbitrary: a) (simp_all add: size_of_append)
  then show "BufferViewList_size vl = size_of (concat vl)" by (simp add: BufferViewList_size_def)
  have "foldl (\<lambda>ret buf. ret + Buffer_size buf) a bl = a + size_of (concat (map Buffer_str bl))" for a
    by (induction bl arbitrary: a) (simp_all add: size_of_append Buffer_size_def)
  then show "BufferList_size bl = size_of (BufferList_concatenate bl)"
    by (simp add: BufferList_size_def concatenate_eq)
qed

text \<open>Views are shortened in place; the queues follow from their elements.\<close>

interpretation view_removal: prefix_view "\<lambda>v. True" "\<lambda>v. v" "\<lambda>v n. Inr (drop (unat n) v)"
  by unfold_locales simp

interpretation view_list_removal: prefix_removable BufferViewList_wf concat BufferViewList_remove_prefix
  "''BufferListView::remove_prefix''"
proof
  fix vl :: BufferViewList and n :: size_t
  assume wf: "BufferViewList_wf vl"
  define body where "body = (\<lambda>(n, vl :: BufferViewList). case vl of
             [] \<Rightarrow> Inl (OutOfRange ''BufferListView::remove_prefix'')
           | v # vs \<Rightarrow>
               if n < size_of v then Inr (0, drop (unat n) v # vs)
               else Inr (n - size_of v, vs))"
  have len: "length (concat (map (\<lambda>v. v) vl)) < 2 ^ 63" and all: "list_all (\<lambda>v. True) vl"
    using wf by (simp_all add: BufferViewList_wf_def list_all_iff)
  have b1: "body (n, []) = Inl (OutOfRange ''BufferListView::remove_prefix'')"
    and b2: "body (n, v # vs) = (if n < size_of v then andthen (Inr (drop (unat n) v)) (\<lambda>v'. Inr (0, v' # vs))
      else Inr (n - size_of v, vs))" for n v vs
    by (simp_all add: body_def)
  note q = view_removal.queue_remove[where body = body, OF all len b1 b2, of n]
  have run: "BufferViewList_remove_prefix vl n = andthen (while_loop (\<lambda>(n, vl). 0 < n) body (n, vl)) (\<lambda>(n, vl). Inr vl)"
    unfolding BufferViewList_remove_prefix_def body_def ..
  show "\<exists>vl'. BufferViewList_remove_prefix vl n = Inr vl' \<and> BufferViewList_wf vl' \<and>
      concat vl' = drop (unat n) (concat vl)" if "unat n \<le> length (concat vl)"
    using q that len unfolding run by (auto simp: BufferViewList_wf_def)
  show "BufferViewList_remove_prefix vl n = Inl (OutOfRange ''BufferListView::remove_prefix'')"
    if "length (concat vl) < unat n"
    using q that unfolding run by simp
qed

interpretation list_removal: prefix_removable BufferList_wf BufferList_concatenate BufferList_remove_prefix
  "''BufferList::remove_prefix''"
proof
  fix bl :: BufferList and n :: size_t
  assume wf: "BufferList_wf bl"
  define body where "body = (\<lambda>(n, bl). case bl of
             [] \<Rightarrow> Inl (OutOfRange ''BufferList::remove_prefix'')
           | b # bs \<Rightarrow>
               if n < Buffer_size b
               then andthen (Buffer_remove_prefix b n) (\<lambda>b'. Inr (0, b' # bs))
               else Inr (n - Buffer_size b, bs))"
  have len: "length (concat (map Buffer_str bl)) < 2 ^ 63" and all: "list_all Buffer_wf bl"
    using wf by (simp_all add: BufferList_wf_def concatenate_eq)
  have b1: "body (n, []) = Inl (OutOfRange ''BufferList::remove_prefix'')"
    and b2: "body (n, b # bs) = (if n < size_of (Buffer_str b)
      then andthen (Buffer_remove_prefix b n) (\<lambda>b'. Inr (0, b' # bs))
      else Inr (n - size_of (Buffer_str b), bs))" for n b bs
    by (simp_all add: body_def Buffer_size_def)
  note q = buffer_removal.queue_remove[where body = body, OF all len b1 b2, of n]
  have run: "BufferList_remove_prefix bl n = andthen (while_loop (\<lambda>(n, bl). 0 < n) body (n, bl)) (\<lambda>(n, bl). Inr bl)"
    unfolding BufferList_remove_prefix_def body_def ..
  show "\<exists>bl'. BufferList_remove_prefix bl n = Inr bl' \<and> BufferList_wf bl' \<and>
      BufferList_concatenate bl' = drop (unat n) (BufferList_concatenate bl)"
    if "unat n \<le> length (BufferList_concatenate bl)"
    using q that len unfolding run by (auto simp: BufferList_wf_def concatenate_eq)
  show "BufferList_remove_prefix bl n = Inl (OutOfRange ''BufferList::remove_prefix'')"
    if "length (BufferList_concatenate bl) < unat n"
    using q that unfolding run by (simp add: concatenate_eq)
qed

text \<open>C35: Removing a prefix from a \<open>BufferList\<close> removes it from the string the list stands for, across
the boundaries of its buffers; it throws \<open>out_of_range\<close> exactly when the list is shorter than what
is to be removed.\<close>

theorem BufferList_remove_prefix_drops:
  assumes "BufferList_wf bl"
  shows "case BufferList_remove_prefix bl n of
      Inr bl' \<Rightarrow> unat n \<le> length (BufferList_concatenate bl) \<and> BufferList_wf bl' \<and>
        BufferList_concatenate bl' = drop (unat n) (BufferList_concatenate bl)
    | Inl e \<Rightarrow> length (BufferList_concatenate bl) < unat n \<and> e = OutOfRange ''BufferList::remove_prefix''"
  using list_removal.remove_ok[OF assms, of n] list_removal.remove_throws[OF assms, of n]
  by (cases "unat n \<le> length (BufferList_concatenate bl)") auto

theorem BufferList_remove_prefix_drops_witness:
  "BufferList_remove_prefix [Buffer_new [1, 2], Buffer_new [3, 4, 5]] 3 =
      Inr [\<lparr>buf_storage = Some [3, 4, 5], buf_starting_offset = 1\<rparr>] \<and>
   BufferList_concatenate [\<lparr>buf_storage = Some [3, 4, 5], buf_starting_offset = 1\<rparr>] =
     drop 3 (BufferList_concatenate [Buffer_new [1, 2], Buffer_new [3, 4, 5]])"
proof -
  have wf: "BufferList_wf [Buffer_new [1, 2], Buffer_new [3, 4, 5]]"
    by (simp add: BufferList_wf_def concatenate_eq)
  have "BufferList_remove_prefix [Buffer_new [1, 2], Buffer_new [3, 4, 5]] 3 =
      Inr [\<lparr>buf_storage = Some [3, 4, 5], buf_starting_offset = 1\<rparr>]"
    by code_simp
  with BufferList_remove_prefix_drops[OF wf, of 3] show ?thesis by simp
qed

end
