(* ===== verification/Net_Parser.thy ===== *)
theory Net_Parser
  imports Buffers
begin

text \<open>
  \<open>libsponge/util/parser.{hh,cc}\<close>: a parser consumes big-endian integers from a buffer and
  remembers the first kind of error; an unparser appends them to a string. The buffer is held
  as the string it exposes. The locale \<open>field_codec\<close> is the contract under which the headers
  use the integer fields.
\<close>

section \<open>Parser and unparser\<close>

datatype ParseResult = NoError | BadChecksum | PacketTooShort | WrongIPVersion | HeaderTooShort
  | TruncatedPacket | Unsupported

text \<open>The enumeration as a number, and the table of names it indexes.\<close>

fun ParseResult_index :: "ParseResult \<Rightarrow> nat" where
  "ParseResult_index NoError = 0"
| "ParseResult_index BadChecksum = 1"
| "ParseResult_index PacketTooShort = 2"
| "ParseResult_index WrongIPVersion = 3"
| "ParseResult_index HeaderTooShort = 4"
| "ParseResult_index TruncatedPacket = 5"
| "ParseResult_index Unsupported = 6"

definition as_string :: "ParseResult \<Rightarrow> string result" where
  "as_string r =
     (let names = [''NoError'', ''BadChecksum'', ''PacketTooShort'', ''WrongIPVersion'',
                   ''HeaderTooShort'', ''TruncatedPacket'']
      in if ParseResult_index r < length names then Inr (names ! ParseResult_index r)
         else Inl (Undefined ''index past the end of _names''))"

record NetParser =
  np_buffer :: bytes
  np_error :: ParseResult

definition NetParser_new :: "bytes \<Rightarrow> NetParser" where
  "NetParser_new buffer = \<lparr>np_buffer = buffer, np_error = NoError\<rparr>"

definition NetParser_get_error :: "NetParser \<Rightarrow> ParseResult" where
  "NetParser_get_error p = np_error p"

definition NetParser_set_error :: "NetParser \<Rightarrow> ParseResult \<Rightarrow> NetParser" where
  "NetParser_set_error p res = p\<lparr>np_error := res\<rparr>"

definition NetParser_error :: "NetParser \<Rightarrow> bool" where
  "NetParser_error p \<longleftrightarrow> NetParser_get_error p \<noteq> NoError"

definition NetParser_check_size :: "NetParser \<Rightarrow> nat \<Rightarrow> NetParser" where
  "NetParser_check_size p sz =
     (if length (np_buffer p) < sz then NetParser_set_error p PacketTooShort else p)"

definition NetParser_parse_int :: "nat \<Rightarrow> NetParser \<Rightarrow> 'a :: len word \<times> NetParser" where
  "NetParser_parse_int len p =
     (let p1 = NetParser_check_size p len
      in if NetParser_error p1 then (0, p1)
         else (fold (\<lambda>i ret. push_bit 8 ret + ucast (np_buffer p1 ! i)) [0..<len] 0,
               p1\<lparr>np_buffer := drop len (np_buffer p1)\<rparr>))"

definition NetParser_remove_prefix :: "NetParser \<Rightarrow> nat \<Rightarrow> NetParser" where
  "NetParser_remove_prefix p n =
     (let p1 = NetParser_check_size p n
      in if NetParser_error p1 then p1 else p1\<lparr>np_buffer := drop n (np_buffer p1)\<rparr>)"

definition NetUnparser_unparse_int :: "nat \<Rightarrow> bytes \<Rightarrow> 'a :: len word \<Rightarrow> bytes" where
  "NetUnparser_unparse_int len s val =
     foldl (\<lambda>s i. s @ [ucast (and (drop_bit ((len - i - 1) * 8) val) 0xff)]) s [0..<len]"

definition NetParser_u32 :: "NetParser \<Rightarrow> u32 \<times> NetParser" where
  "NetParser_u32 = NetParser_parse_int 4"

definition NetParser_u16 :: "NetParser \<Rightarrow> u16 \<times> NetParser" where
  "NetParser_u16 = NetParser_parse_int 2"

definition NetParser_u8 :: "NetParser \<Rightarrow> u8 \<times> NetParser" where
  "NetParser_u8 = NetParser_parse_int 1"

definition NetUnparser_u32 :: "bytes \<Rightarrow> u32 \<Rightarrow> bytes" where
  "NetUnparser_u32 = NetUnparser_unparse_int 4"

definition NetUnparser_u16 :: "bytes \<Rightarrow> u16 \<Rightarrow> bytes" where
  "NetUnparser_u16 = NetUnparser_unparse_int 2"

definition NetUnparser_u8 :: "bytes \<Rightarrow> u8 \<Rightarrow> bytes" where
  "NetUnparser_u8 = NetUnparser_unparse_int 1"

section \<open>The contract of a field\<close>

text \<open>
  \<open>parse\<close> reads a value of a fixed width back from what \<open>unparse\<close> wrote, whatever follows;
  a buffer that is too short gives \<^const>\<open>PacketTooShort\<close> and an earlier error stays.
\<close>

locale field_codec =
  fixes width :: nat
    and parse :: "NetParser \<Rightarrow> 'v \<times> NetParser"
    and unparse :: "bytes \<Rightarrow> 'v \<Rightarrow> bytes"
  assumes unparse_appends: "unparse s v = s @ unparse [] v"
    and unparse_width: "length (unparse [] v) = width"
    and parse_unparse: "parse (NetParser_new (unparse [] v @ rest)) = (v, NetParser_new rest)"
    and parse_short: "length (np_buffer p) < width \<Longrightarrow>
      snd (parse p) = p\<lparr>np_error := PacketTooShort\<rparr>"
    and parse_enough: "width \<le> length s \<Longrightarrow> snd (parse (NetParser_new s)) = NetParser_new (drop width s)"
    and parse_failed: "NetParser_error p \<Longrightarrow> width \<le> length (np_buffer p) \<Longrightarrow> snd (parse p) = p"
begin

lemma unparse_inject:
  assumes "unparse [] v = unparse [] w"
  shows "v = w"
  using parse_unparse[of v "[]"] parse_unparse[of w "[]"] assms by simp

lemma parse_failed_stays: "NetParser_error p \<Longrightarrow> NetParser_error (snd (parse p))"
  using parse_short[of p] parse_failed[of p]
  by (cases "length (np_buffer p) < width") (auto simp: NetParser_error_def NetParser_get_error_def)

text \<open>Several fields of the same kind in a row.\<close>

primrec parse_list :: "nat \<Rightarrow> NetParser \<Rightarrow> 'v list \<times> NetParser" where
  "parse_list 0 p = ([], p)"
| "parse_list (Suc n) p =
     (let (v, p1) = parse p; (vs, p2) = parse_list n p1 in (v # vs, p2))"

lemma parse_list_unparse:
  "parse_list (length vs) (NetParser_new (concat (map (unparse []) vs) @ rest)) = (vs, NetParser_new rest)"
  by (induction vs) (simp_all add: parse_unparse)

lemma foldl_unparse: "foldl unparse s vs = s @ concat (map (unparse []) vs)"
proof (induction vs arbitrary: s)
  case (Cons v vs)
  then show ?case using unparse_appends[of s v] by simp
qed simp

end

section \<open>The integer fields implement it\<close>

lemma unparse_int_map:
  "NetUnparser_unparse_int len s val =
     s @ map (\<lambda>i. ucast (and (drop_bit ((len - i - 1) * 8) val) 0xff)) [0..<len]"
  unfolding NetUnparser_unparse_int_def by (rule foldl_snoc_map)

lemma fold_cong_upt:
  "(\<And>i a. i < n \<Longrightarrow> f i a = g i a) \<Longrightarrow> fold f [0..<n] a = fold g [0..<n] a"
  by (rule fold_cong) (auto simp: fun_eq_iff)

lemma parse_int_horner:
  fixes val :: "'a :: len word"
  assumes len: "LENGTH('a) = 8 * len" and "k \<le> len"
  shows "fold (\<lambda>i ret. push_bit 8 ret + ucast (ucast (and (drop_bit ((len - i - 1) * 8) val) 0xff) :: byte)) [0..<k] 0
    = drop_bit ((len - k) * 8) val"
  using assms(2)
proof (induction k)
  case 0
  have "drop_bit (len * 8) val = 0"
    using len by (intro bit_word_eqI) (simp add: bit_simps bit_imp_le_length mult.commute)
  then show ?case by simp
next
  case (Suc k)
  let ?x = "drop_bit ((len - Suc k) * 8) val"
  have "(len - k) * 8 = (len - Suc k) * 8 + 8" using Suc.prems by simp
  then have prev: "drop_bit ((len - k) * 8) val = drop_bit 8 ?x" by (simp add: drop_bit_drop_bit add.commute)
  have m: "(0xff :: 'a word) = mask 8" by (simp add: mask_eq_exp_minus_1)
  have "ucast (ucast (and ?x 0xff) :: byte) = take_bit 8 ?x"
    unfolding m by (intro bit_word_eqI) (auto simp: bit_simps)
  moreover have "push_bit 8 (drop_bit 8 ?x) + take_bit 8 ?x = ?x" by (rule bits_ident)
  ultimately show ?case
    using Suc by (simp add: prev del: drop_bit_drop_bit)
qed

lemma np_new_simps [simp]:
  "np_buffer (NetParser_new s) = s" "np_error (NetParser_new s) = NoError"
  by (simp_all add: NetParser_new_def)

lemma parse_int_roundtrip:
  fixes val :: "'a :: len word"
  assumes "LENGTH('a) = 8 * len"
  shows "NetParser_parse_int len (NetParser_new (NetUnparser_unparse_int len [] val @ rest)) =
    (val, NetParser_new rest)"
proof -
  let ?b = "NetUnparser_unparse_int len [] val"
  have l: "length ?b = len" by (simp add: unparse_int_map)
  have "fold (\<lambda>i ret. push_bit 8 ret + ucast ((?b @ rest) ! i)) [0..<len] 0 =
      fold (\<lambda>i ret. push_bit 8 ret + ucast (ucast (and (drop_bit ((len - i - 1) * 8) val) 0xff) :: byte)) [0..<len] (0 :: 'a word)"
    by (rule fold_cong_upt) (simp add: nth_append l, simp add: unparse_int_map)
  also have "\<dots> = val" using parse_int_horner[OF assms, of len val] by simp
  finally show ?thesis
    using l by (simp add: NetParser_parse_int_def NetParser_check_size_def NetParser_error_def
        NetParser_get_error_def NetParser_new_def)
qed

lemma parse_int_field:
  assumes "LENGTH('a :: len) = 8 * len"
  shows "field_codec len (NetParser_parse_int len :: _ \<Rightarrow> 'a word \<times> _) (NetUnparser_unparse_int len)"
proof
  fix s rest :: bytes and v :: "'a word" and p
  show "NetUnparser_unparse_int len s v = s @ NetUnparser_unparse_int len [] v"
    and "length (NetUnparser_unparse_int len [] v) = len" by (simp_all add: unparse_int_map)
  show "NetParser_parse_int len (NetParser_new (NetUnparser_unparse_int len [] v @ rest)) = (v, NetParser_new rest)"
    by (rule parse_int_roundtrip[OF assms])
  show "snd (NetParser_parse_int len p :: 'a word \<times> _) = p\<lparr>np_error := PacketTooShort\<rparr>"
    if "length (np_buffer p) < len"
    using that by (simp add: NetParser_parse_int_def NetParser_check_size_def NetParser_error_def
        NetParser_get_error_def NetParser_set_error_def)
  show "snd (NetParser_parse_int len (NetParser_new s) :: 'a word \<times> _) = NetParser_new (drop len s)"
    if "len \<le> length s"
    using that by (simp add: NetParser_parse_int_def NetParser_check_size_def NetParser_error_def
        NetParser_get_error_def NetParser_new_def)
  show "snd (NetParser_parse_int len p :: 'a word \<times> _) = p"
    if "NetParser_error p" "len \<le> length (np_buffer p)"
    using that by (simp add: NetParser_parse_int_def NetParser_check_size_def)
qed

interpretation u32_field: field_codec 4 NetParser_u32 NetUnparser_u32
  unfolding NetParser_u32_def NetUnparser_u32_def by (rule parse_int_field) simp

interpretation u16_field: field_codec 2 NetParser_u16 NetUnparser_u16
  unfolding NetParser_u16_def NetUnparser_u16_def by (rule parse_int_field) simp

interpretation u8_field: field_codec 1 NetParser_u8 NetUnparser_u8
  unfolding NetParser_u8_def NetUnparser_u8_def by (rule parse_int_field) simp


text \<open>The rules by which a chain of fields is taken apart.\<close>

lemma unparse_nonempty [simp]:
  "NetUnparser_u32 s v \<noteq> []" "NetUnparser_u16 s w \<noteq> []" "NetUnparser_u8 s b \<noteq> []"
  by (simp_all add: NetUnparser_u32_def NetUnparser_u16_def NetUnparser_u8_def unparse_int_map)

lemma unparse_chain:
  "s \<noteq> [] \<Longrightarrow> NetUnparser_u32 s v = s @ NetUnparser_u32 [] v"
  "s \<noteq> [] \<Longrightarrow> NetUnparser_u16 s w = s @ NetUnparser_u16 [] w"
  "s \<noteq> [] \<Longrightarrow> NetUnparser_u8 s b = s @ NetUnparser_u8 [] b"
  by (rule u32_field.unparse_appends u16_field.unparse_appends u8_field.unparse_appends)+

lemmas field_reads =
  u32_field.parse_unparse u16_field.parse_unparse u8_field.parse_unparse

lemmas field_widths [simp] =
  u32_field.unparse_width u16_field.unparse_width u8_field.unparse_width

lemma NetParser_remove_prefix_new:
  "n \<le> length s \<Longrightarrow> NetParser_remove_prefix (NetParser_new s) n = NetParser_new (drop n s)"
  by (simp add: NetParser_remove_prefix_def NetParser_check_size_def NetParser_error_def
      NetParser_get_error_def NetParser_new_def)

lemma NetParser_new_no_error [simp]:
  "\<not> NetParser_error (NetParser_new s)" "NetParser_get_error (NetParser_new s) = NoError"
  by (simp_all add: NetParser_error_def NetParser_get_error_def)


section \<open>The contract of a message\<close>

text \<open>
  \<open>same\<close> says which differences a round trip over the wire may introduce (a filled-in
  checksum, a payload that is one buffer instead of several).
\<close>

locale wire_format =
  fixes ok :: "'m \<Rightarrow> bool"
    and ser :: "'m \<Rightarrow> bytes result"
    and parse :: "bytes \<Rightarrow> (ParseResult \<times> 'm) result"
    and same :: "'m \<Rightarrow> 'm \<Rightarrow> bool"
  assumes roundtrip: "ok m \<Longrightarrow> \<exists>s m'. ser m = Inr s \<and> parse s = Inr (NoError, m') \<and> same m m'"
    and same_equiv: "equivp same"
begin

text \<open>No two messages with different contents have the same bytes.\<close>

lemma ser_distinguishes:
  assumes "ok m" and "ok n" and "ser m = ser n"
  shows "same m n"
proof -
  from assms(1) obtain s m' where m: "ser m = Inr s" "parse s = Inr (NoError, m')" "same m m'"
    using roundtrip by blast
  from assms(2) obtain t n' where n: "ser n = Inr t" "parse t = Inr (NoError, n')" "same n n'"
    using roundtrip by blast
  have "m' = n'" using m n assms(3) by simp
  with m(3) n(3) same_equiv show ?thesis by (meson equivp_symp equivp_transp)
qed

primrec transmit :: "'m list \<Rightarrow> 'm list result" where
  "transmit [] = Inr []"
| "transmit (m # ms) =
     andthen (ser m) (\<lambda>s. andthen (parse s) (\<lambda>(r, m').
       andthen (transmit ms) (\<lambda>ms'. Inr (if r = NoError then m' # ms' else ms'))))"

text \<open>A link that carries the bytes unchanged carries the messages.\<close>

lemma transmit_same: "list_all ok ms \<Longrightarrow> \<exists>ms'. transmit ms = Inr ms' \<and> list_all2 same ms ms'"
proof (induction ms)
  case (Cons m ms)
  then show ?case using roundtrip[of m] by fastforce
qed simp

end


text \<open>The table of names in \<open>as_string\<close> has no entry for the last enumerator: the call indexes past
the end of the array for \<open>Unsupported\<close> and for nothing else.\<close>

theorem as_string_undefined_iff:
  "as_string r = Inl (Undefined ''index past the end of _names'') \<longleftrightarrow> r = Unsupported"
  by (cases r) (simp_all add: as_string_def)

end
