(* ===== verification/Addresses.thy ===== *)
theory Addresses
  imports Net_Parser
begin

text \<open>
  \<open>libsponge/util/address.{hh,cc}\<close>: an IPv4 address and port as the bytes of a \<open>sockaddr_storage\<close> on a
  little-endian machine. The resolver calls \<open>getaddrinfo\<close> and \<open>getnameinfo\<close> are arguments of the
  operations that make them.
\<close>

section \<open>Decimal numbers\<close>

text \<open>\<open>to_string\<close> of an unsigned number and \<open>stoi\<close>.\<close>

definition digit_char :: "nat \<Rightarrow> char" where
  "digit_char d = char_of (48 + d)"

fun to_string_dec :: "nat \<Rightarrow> string" where
  "to_string_dec n = (if n < 10 then [digit_char n] else to_string_dec (n div 10) @ [digit_char (n mod 10)])"

declare to_string_dec.simps [simp del]

text \<open>\<open>inet_ntoa\<close> of an address in host order: the four bytes in decimal.\<close>

definition inet_ntoa :: "u32 \<Rightarrow> string" where
  "inet_ntoa ip =
     to_string_dec (unat (drop_bit 24 ip)) @ ''.'' @ to_string_dec (unat (and (drop_bit 16 ip) 0xff)) @ ''.'' @
     to_string_dec (unat (and (drop_bit 8 ip) 0xff)) @ ''.'' @ to_string_dec (unat (and ip 0xff))"

definition is_digit :: "char \<Rightarrow> bool" where
  "is_digit c \<longleftrightarrow> 48 \<le> (of_char c :: nat) \<and> (of_char c :: nat) \<le> 57"

definition digits_value :: "string \<Rightarrow> nat" where
  "digits_value s = foldl (\<lambda>v c. 10 * v + (of_char c - 48)) 0 s"

definition is_space :: "char \<Rightarrow> bool" where
  "is_space c \<longleftrightarrow> (of_char c :: nat) \<in> {9, 10, 11, 12, 13, 32}"

text \<open>\<open>stoi\<close> skips white space and a sign, and throws when no digit follows or \<open>int\<close> is too small.\<close>

definition stoi :: "string \<Rightarrow> int result" where
  "stoi s0 =
     (let s = dropWhile is_space s0;
          neg = (s \<noteq> [] \<and> hd s = CHR ''-'');
          t = (if s \<noteq> [] \<and> (hd s = CHR ''-'' \<or> hd s = CHR ''+'') then tl s else s);
          ds = takeWhile is_digit t;
          v = (if neg then - int (digits_value ds) else int (digits_value ds))
      in if ds = [] then Inl (RuntimeError ''stoi: invalid_argument'')
         else if v < - (2 ^ 31) \<or> 2 ^ 31 \<le> v then Inl (OutOfRange ''stoi'')
         else Inr v)"

section \<open>Socket addresses\<close>

text \<open>\<open>sizeof(sockaddr_storage)\<close>, \<open>sizeof(sockaddr_in)\<close> and \<open>AF_INET\<close>.\<close>

abbreviation (input) sockaddr_storage_size :: nat where
  "sockaddr_storage_size \<equiv> 128"

abbreviation (input) sockaddr_in_size :: nat where
  "sockaddr_in_size \<equiv> 16"

abbreviation (input) AF_INET :: u16 where
  "AF_INET \<equiv> 2"

record Address =
  ad_size :: u32
  ad_storage :: bytes

text \<open>The bytes of a \<open>sockaddr_in\<close>: family in host order, port and address in network order.\<close>

definition sockaddr_in :: "u32 \<Rightarrow> u16 \<Rightarrow> bytes" where
  "sockaddr_in ip port =
     [ucast AF_INET, 0] @ NetUnparser_u16 [] port @ NetUnparser_u32 [] ip @ replicate 8 0"

definition Address_raw :: "bytes \<Rightarrow> size_t \<Rightarrow> Address result" where
  "Address_raw addr sz =
     (if of_nat sockaddr_storage_size < sz then Inl (RuntimeError ''invalid sockaddr size'')
      else if length addr < unat sz then Inl (Undefined ''memcpy past the end of addr'')
      else Inr \<lparr>ad_size = ucast sz,
                ad_storage = take (unat sz) addr @ replicate (sockaddr_storage_size - unat sz) 0\<rparr>)"

section \<open>Construction\<close>

record addrinfo =
  ai_flags :: cint
  ai_family :: cint

definition make_hints :: "cint \<Rightarrow> cint \<Rightarrow> addrinfo" where
  "make_hints flags family = \<lparr>ai_flags = flags, ai_family = family\<rparr>"

text \<open>
  \<open>getaddrinfo\<close> gives its return value and, unless the result list is empty, the first address
  with its length; \<open>getnameinfo\<close> its return value and the two strings it writes.
\<close>

type_synonym getaddrinfo = "string \<Rightarrow> string \<Rightarrow> addrinfo \<Rightarrow> cint \<times> (bytes \<times> size_t) option"
type_synonym getnameinfo = "bytes \<Rightarrow> cint \<times> string \<times> string"

definition Address_resolve :: "getaddrinfo \<Rightarrow> string \<Rightarrow> string \<Rightarrow> addrinfo \<Rightarrow> Address result" where
  "Address_resolve gai node service hints =
     (let (gai_ret, resolved_address) = gai node service hints
      in if gai_ret \<noteq> 0 then Inl (RuntimeError (''getaddrinfo('' @ node @ '', '' @ service @ '')''))
         else case resolved_address of
                None \<Rightarrow> Inl (RuntimeError ''getaddrinfo returned successfully but with no results'')
              | Some (addr, len) \<Rightarrow> Address_raw addr len)"

definition Address_hostname :: "getaddrinfo \<Rightarrow> string \<Rightarrow> string \<Rightarrow> Address result" where
  "Address_hostname gai hostname service = Address_resolve gai hostname service (make_hints 0x10 2)"

definition numeric_hints :: addrinfo where
  "numeric_hints = make_hints (or 0x4 0x400) 2"

definition Address_ip :: "getaddrinfo \<Rightarrow> string \<Rightarrow> u16 \<Rightarrow> Address result" where
  "Address_ip gai ip port = Address_resolve gai ip (to_string_dec (unat port)) numeric_hints"

definition Address_from_ipv4_numeric :: "u32 \<Rightarrow> Address result" where
  "Address_from_ipv4_numeric ip_address =
     Address_raw (sockaddr_in ip_address 0) (of_nat sockaddr_in_size)"

section \<open>Accessors\<close>

definition Address_ip_port :: "getnameinfo \<Rightarrow> Address \<Rightarrow> (string \<times> u16) result" where
  "Address_ip_port gni a =
     (let (gni_ret, ip, port) = gni (take (unat (ad_size a)) (ad_storage a))
      in if gni_ret \<noteq> 0 then Inl (RuntimeError ''getnameinfo'')
         else andthen (stoi port) (\<lambda>p. Inr (ip, word_of_int p)))"

definition Address_ip_string :: "getnameinfo \<Rightarrow> Address \<Rightarrow> string result" where
  "Address_ip_string gni a = andthen (Address_ip_port gni a) (\<lambda>(ip, port). Inr ip)"

definition Address_port :: "getnameinfo \<Rightarrow> Address \<Rightarrow> u16 result" where
  "Address_port gni a = andthen (Address_ip_port gni a) (\<lambda>(ip, port). Inr port)"

definition Address_to_string :: "getnameinfo \<Rightarrow> Address \<Rightarrow> string result" where
  "Address_to_string gni a =
     andthen (Address_ip_port gni a) (\<lambda>(ip, port). Inr (ip @ '':'' @ to_string_dec (unat port)))"

text \<open>The family is the first two bytes of the storage, the address bytes 4 to 7.\<close>

definition Address_ipv4_numeric :: "Address \<Rightarrow> u32 result" where
  "Address_ipv4_numeric a =
     (if take 2 (ad_storage a) \<noteq> [ucast AF_INET, 0] \<or> ad_size a \<noteq> of_nat sockaddr_in_size
      then Inl (RuntimeError ''ipv4_numeric called on non-IPV4 address'')
      else Inr (fst (NetParser_u32 (NetParser_new (take 4 (drop 4 (ad_storage a)))))))"

definition Address_eq :: "Address \<Rightarrow> Address \<Rightarrow> bool" where
  "Address_eq a other \<longleftrightarrow> ad_size a = ad_size other \<and>
     take (unat (ad_size a)) (ad_storage a) = take (unat (ad_size a)) (ad_storage other)"

section \<open>Lemmas\<close>

text \<open>The address of an IPv4 number and a port.\<close>

definition ipv4_address :: "u32 \<Rightarrow> u16 \<Rightarrow> Address" where
  "ipv4_address ip port = \<lparr>ad_size = 16, ad_storage = sockaddr_in ip port @ replicate 112 0\<rparr>"

lemma sockaddr_in_length [simp]: "length (sockaddr_in ip port) = 16"
  by (simp add: sockaddr_in_def)

lemma Address_raw_sockaddr_in [simp]: "Address_raw (sockaddr_in ip port) 16 = Inr (ipv4_address ip port)"
  by (simp add: Address_raw_def ipv4_address_def)

lemma from_ipv4_numeric [simp]: "Address_from_ipv4_numeric ip = Inr (ipv4_address ip 0)"
  by (simp add: Address_from_ipv4_numeric_def)

lemma ipv4_numeric [simp]: "Address_ipv4_numeric (ipv4_address ip port) = Inr ip"
proof -
  have "take 4 (drop 4 (sockaddr_in ip port @ replicate 112 0)) = NetUnparser_u32 [] ip"
    by (simp add: sockaddr_in_def)
  moreover have "take 2 (sockaddr_in ip port @ replicate 112 0) = [2, 0]"
    by (simp add: sockaddr_in_def)
  ultimately show ?thesis
    using u32_field.parse_unparse[of ip "[]"] by (simp add: Address_ipv4_numeric_def ipv4_address_def)
qed

lemma Address_eq_ipv4 [simp]:
  "Address_eq (ipv4_address ip port) (ipv4_address ip' port') \<longleftrightarrow> ip = ip' \<and> port = port'"
proof -
  have "take 16 (ad_storage (ipv4_address ip port)) = sockaddr_in ip port" for ip port by (simp add: ipv4_address_def)
  moreover have "sockaddr_in ip port = sockaddr_in ip' port' \<longleftrightarrow> ip = ip' \<and> port = port'"
    using u32_field.unparse_inject[of ip ip'] u16_field.unparse_inject[of port port'] by (auto simp: sockaddr_in_def)
  ultimately show ?thesis by (simp add: Address_eq_def) (simp add: ipv4_address_def)
qed

text \<open>Decimal numbers are read back.\<close>

lemma digit_char_value: "d < 10 \<Longrightarrow> of_char (digit_char d) = 48 + d"
  by (simp add: digit_char_def)

lemma digit_char_simps [simp]:
  assumes "d < 10"
  shows "is_digit (digit_char d)" and "\<not> is_space (digit_char d)"
    and "digit_char d \<noteq> CHR ''-''" and "digit_char d \<noteq> CHR ''+''"
proof -
  note v = digit_char_value[OF assms]
  show "is_digit (digit_char d)" "\<not> is_space (digit_char d)" using assms by (auto simp: is_digit_def is_space_def v)
  show "digit_char d \<noteq> CHR ''-''" "digit_char d \<noteq> CHR ''+''" using v assms by auto
qed

lemma to_string_dec_digits: "list_all is_digit (to_string_dec n)" "to_string_dec n \<noteq> []"
proof (induction n rule: to_string_dec.induct)
  case (1 n)
  show "list_all is_digit (to_string_dec n)" "to_string_dec n \<noteq> []"
    using 1 by (subst to_string_dec.simps; simp)+
qed

lemma digits_value_dec: "digits_value (to_string_dec n) = n"
proof (induction n rule: to_string_dec.induct)
  case (1 n)
  show ?case
  proof (cases "n < 10")
    case True
    then show ?thesis by (simp add: to_string_dec.simps digits_value_def digit_char_value)
  next
    case False
    then have "digits_value (to_string_dec n) = 10 * digits_value (to_string_dec (n div 10)) + n mod 10"
      by (subst to_string_dec.simps) (simp add: digits_value_def digit_char_value)
    then show ?thesis using 1 False by simp
  qed
qed

lemma to_string_dec_hd: "\<exists>d<10. hd (to_string_dec n) = digit_char d"
proof (induction n rule: to_string_dec.induct)
  case (1 n)
  show ?case
    using 1 to_string_dec_digits(2)[of "n div 10"] by (cases "n < 10"; subst to_string_dec.simps) auto
qed

lemma stoi_dec:
  assumes "n < 2 ^ 31"
  shows "stoi (to_string_dec n) = Inr (int n)"
proof -
  obtain d where d: "d < 10" "hd (to_string_dec n) = digit_char d" using to_string_dec_hd by blast
  obtain t where s: "to_string_dec n = digit_char d # t" using d(2) to_string_dec_digits(2)[of n] by (cases "to_string_dec n") auto
  have all: "takeWhile is_digit (to_string_dec n) = to_string_dec n"
    using to_string_dec_digits(1)[of n] by (simp add: list_all_iff)
  have "dropWhile is_space (to_string_dec n) = to_string_dec n" using d(1) by (simp add: s)
  then show ?thesis
    using d assms to_string_dec_digits(2)[of n] by (simp add: stoi_def Let_def all digits_value_dec)
qed

lemma to_string_dec_inj: "to_string_dec m = to_string_dec n \<longleftrightarrow> m = n"
  by (metis digits_value_dec)

text \<open>An address built from a dotted quad and a port gives both back, as text and as a number, and
compares equal to the one built from the number exactly when the port is zero. The resolver is assumed to
do what the C library documents for numeric hosts and services: \<open>getaddrinfo\<close> and \<open>getnameinfo\<close>
translate between the string and the socket address.\<close>

theorem address_roundtrip:
  assumes "gai dotted (to_string_dec (unat port)) numeric_hints = (0, Some (sockaddr_in ip port, 16))"
    and "gni (sockaddr_in ip port) = (0, dotted, to_string_dec (unat port))"
  shows "\<exists>a b. Address_ip gai dotted port = Inr a \<and> Address_from_ipv4_numeric ip = Inr b \<and>
    Address_ip_port gni a = Inr (dotted, port) \<and> Address_ipv4_numeric a = Inr ip \<and> Address_ipv4_numeric b = Inr ip \<and>
    Address_to_string gni a = Inr (dotted @ '':'' @ to_string_dec (unat port)) \<and> (Address_eq a b \<longleftrightarrow> port = 0)"
proof -
  have "unat port < 2 ^ 31" using unat_u16_less[of port] by simp
  note st = stoi_dec[OF this]
  have "take 16 (ad_storage (ipv4_address ip port)) = sockaddr_in ip port" "ad_size (ipv4_address ip port) = 16"
    by (simp_all add: ipv4_address_def)
  then have "Address_ip_port gni (ipv4_address ip port) = Inr (dotted, port)"
    using assms(2) st by (simp add: Address_ip_port_def)
  then show ?thesis
    using assms(1) by (simp add: Address_ip_def Address_resolve_def Address_to_string_def)
qed

theorem address_roundtrip_witness:
  "(let gai = (\<lambda>node service hints. (0, Some (sockaddr_in 0x12F30001 80, 16)));
        gni = (\<lambda>sa. (0, ''18.243.0.1'', to_string_dec 80))
    in \<exists>a b. Address_ip gai ''18.243.0.1'' 80 = Inr a \<and> Address_from_ipv4_numeric 0x12F30001 = Inr b \<and>
      Address_ip_port gni a = Inr (''18.243.0.1'', 80) \<and> \<not> Address_eq a b)"
  unfolding Let_def
  using address_roundtrip[where gai = "\<lambda>node service hints. (0, Some (sockaddr_in 0x12F30001 80, 16))" and
      dotted = "''18.243.0.1''" and port = "80" and ip = "0x12F30001" and gni = "\<lambda>sa. (0, ''18.243.0.1'', to_string_dec 80)"]
  by auto

end
