(* ===== verification/Checksum.thy ===== *)
theory Checksum
  imports Net_Parser
begin

text \<open>
  The Internet checksum of \<open>libsponge/util/util.{hh,cc}\<close>: a running 32-bit sum of big-endian
  16-bit words, folded to 16 bits and complemented.
\<close>

section \<open>The class\<close>

record InternetChecksum =
  ck_sum :: u32
  ck_parity :: bool

definition InternetChecksum_new :: "u32 \<Rightarrow> InternetChecksum" where
  "InternetChecksum_new initial_sum = \<lparr>ck_sum = initial_sum, ck_parity = False\<rparr>"

definition InternetChecksum_add :: "InternetChecksum \<Rightarrow> bytes \<Rightarrow> InternetChecksum" where
  "InternetChecksum_add c data =
     foldl (\<lambda>c b. let val = ucast b :: u16;
                      val1 = (if \<not> ck_parity c then push_bit 8 val else val)
                  in c\<lparr>ck_sum := ck_sum c + ucast val1, ck_parity := \<not> ck_parity c\<rparr>) c data"

definition InternetChecksum_value :: "InternetChecksum \<Rightarrow> u16 result" where
  "InternetChecksum_value c =
     andthen (while_loop (\<lambda>ret. 0xffff < ret) (\<lambda>ret. Inr (drop_bit 16 ret + and ret 0xffff)) (ck_sum c))
       (\<lambda>ret. Inr (ucast (not ret)))"

section \<open>The sum as a number\<close>

fun byte_sum :: "bool \<Rightarrow> bytes \<Rightarrow> nat" where
  "byte_sum p [] = 0"
| "byte_sum p (b # bs) = unat b * (if p then 1 else 256) + byte_sum (\<not> p) bs"

lemma add_append [simp]:
  "InternetChecksum_add c (xs @ ys) = InternetChecksum_add (InternetChecksum_add c xs) ys"
  by (simp add: InternetChecksum_add_def)

lemma push_bit_8_u16: "unat (push_bit 8 (ucast (b :: byte) :: u16)) = unat b * 256"
proof -
  have "unat b < 256" by (rule unat_u8_less)
  then have "unat b * 256 < 2 ^ 16" by simp
  then show ?thesis
    by (simp add: push_bit_eq_mult unat_word_ariths unsigned_ucast_eq take_bit_nat_eq_self mod_less)
qed

lemma unat_ucast_u8_u16 [simp]: "unat (ucast (b :: byte) :: u16) = unat b"
  using unat_u8_less[of b] by (simp add: unsigned_ucast_eq take_bit_nat_eq_self)

lemma unat_ucast_u16_u32 [simp]: "unat (ucast (v :: u16) :: u32) = unat v"
  using unat_u16_less[of v] by (simp add: unsigned_ucast_eq take_bit_nat_eq_self)

lemma ucast_u16_u32: "(ucast (v :: u16) :: u32) = of_nat (unat v)"
  by (metis unat_ucast_u16_u32 of_nat_unat_id)

lemma add_Cons:
  "InternetChecksum_add c (b # data) =
     InternetChecksum_add (c\<lparr>ck_sum := ck_sum c + of_nat (unat b * (if ck_parity c then 1 else 256)),
        ck_parity := \<not> ck_parity c\<rparr>) data"
proof -
  have val: "ucast (if \<not> ck_parity c then push_bit 8 (ucast b) else ucast b :: u16) =
      (of_nat (unat b * (if ck_parity c then 1 else 256)) :: u32)"
    by (cases "ck_parity c")
      (simp_all only: ucast_u16_u32 push_bit_8_u16 unat_ucast_u8_u16 simp_thms if_True if_False mult_1_right)
  show ?thesis unfolding InternetChecksum_add_def by (simp only: foldl_Cons Let_def val)
qed

lemma add_Nil [simp]: "InternetChecksum_add c [] = c"
  by (simp add: InternetChecksum_add_def)

lemma add_sum: "ck_sum (InternetChecksum_add c data) = ck_sum c + of_nat (byte_sum (ck_parity c) data)"
  by (induction data arbitrary: c) (simp_all add: add_Cons)

lemma byte_sum_append:
  "byte_sum p (xs @ ys) = byte_sum p xs + byte_sum (p \<noteq> odd (length xs)) ys"
proof (induction xs arbitrary: p)
  case (Cons x xs)
  show ?case by (cases p; cases "even (length xs)") (simp_all add: Cons)
qed simp

lemma byte_sum_bound: "byte_sum p d \<le> 32768 * length d + (if p then 0 else 32512)"
proof (induction p d rule: byte_sum.induct)
  case (2 p b bs)
  then show ?case using unat_u8_less[of b] by (cases p) auto
qed simp

section \<open>Folding\<close>

text \<open>The ones-complement representative of a number: \<open>0\<close> only for \<open>0\<close>, otherwise in \<open>1..65535\<close>.\<close>

definition ones :: "nat \<Rightarrow> nat" where
  "ones n = (if n = 0 then 0 else Suc ((n - 1) mod 65535))"

lemma ones_small [simp]: "n \<le> 65535 \<Longrightarrow> ones n = n"
  by (auto simp: ones_def)

lemma ones_le: "ones n \<le> 65535"
proof -
  have "(n - 1) mod 65535 < 65535" by simp
  then show ?thesis unfolding ones_def
    by (cases "n = 0") (simp_all only: if_True if_False simp_thms Suc_le_eq le0)
qed

lemma ones_fold:
  assumes "65535 < n"
  shows "ones (n div 65536 + n mod 65536) = ones n" and "n div 65536 + n mod 65536 < n"
proof -
  let ?q = "n div 65536" and ?m = "n mod 65536"
  have n: "n = 65536 * ?q + ?m" by simp
  have q: "0 < ?q" using assms by (simp add: div_greater_zero_iff)
  then have "n - 1 = (?q + ?m - 1) + 65535 * ?q" using n by linarith
  then have "(n - 1) mod 65535 = (?q + ?m - 1) mod 65535" by simp
  then show "ones (?q + ?m) = ones n" using q assms by (simp add: ones_def)
  show "?q + ?m < n" using n q by linarith
qed

lemma value_spec:
  "InternetChecksum_value c = Inr (of_nat (65535 - ones (unat (ck_sum c))))"
proof -
  let ?b = "\<lambda>ret :: u32. 0xffff < ret" and ?c = "\<lambda>ret :: u32. Inr (drop_bit 16 ret + and ret 0xffff)"
  have m: "(0xffff :: u32) = mask 16" by (simp add: mask_eq_exp_minus_1)
  have val: "unat (drop_bit 16 r + and r 0xffff) = unat r div 65536 + unat r mod 65536" for r :: u32
  proof -
    have "unat (drop_bit 16 r) = unat r div 65536" by (simp add: drop_bit_eq_div unat_div)
    moreover have "unat (and r 0xffff) = unat r mod 65536"
      unfolding m by (simp add: take_bit_eq_mask[symmetric] unsigned_take_bit_eq take_bit_eq_mod unat_mod)
    moreover have "unat r div 65536 + unat r mod 65536 < 2 ^ 32"
    proof -
      have "unat r div 65536 < 65536" using unat_u32_less[of r] by (simp add: less_mult_imp_div_less)
      moreover have "unat r mod 65536 < 65536" by simp
      ultimately show ?thesis by simp
    qed
    ultimately show ?thesis by (subst unat_add_u32) simp_all
  qed
  have "\<exists>u. while_loop ?b ?c (ck_sum c) = Inr u \<and> ones (unat u) = ones (unat (ck_sum c)) \<and> \<not> ?b u"
  proof (rule while_loop_total[where m = unat])
    fix r assume I: "ones (unat r) = ones (unat (ck_sum c))" and b: "?b r"
    have "65535 < unat r" using b by (simp add: word_less_nat_alt)
    then show "\<exists>u. ?c r = Inr u \<and> ones (unat u) = ones (unat (ck_sum c)) \<and> unat u < unat r"
      using I ones_fold by (simp add: val)
  qed simp
  then obtain u where u: "while_loop ?b ?c (ck_sum c) = Inr u" "ones (unat u) = ones (unat (ck_sum c))" "\<not> ?b u"
    by blast
  have le: "unat u \<le> 65535" using u(3) by (simp add: word_less_nat_alt)
  have "(ucast (not u) :: u16) = of_nat (65535 - unat u)"
  proof -
    have m1: "(- 1 :: u16) = of_nat 65535"
      by (simp add: word_unat_eq_iff unsigned_minus_1_eq_mask mask_eq_exp_minus_1)
    have "(ucast u :: u16) = of_nat (unat u)" by simp
    moreover have "(ucast (not u) :: u16) = not (ucast u)" by (rule bit_word_eqI) (simp add: bit_simps)
    ultimately have "(ucast (not u) :: u16) = - of_nat (unat u) - 1"
      by (simp only: not_eq_complement)
    also have "\<dots> = - 1 - of_nat (unat u)" by simp
    also have "\<dots> = of_nat 65535 - of_nat (unat u)" by (simp only: m1)
    also have "\<dots> = of_nat (65535 - unat u)" using le by (simp only: of_nat_diff)
    finally show ?thesis .
  qed
  with u le show ?thesis by (simp add: InternetChecksum_value_def)
qed

text \<open>Adding the complement of the folded sum makes the folded sum \<open>0xffff\<close>.\<close>

lemma ones_complement: "ones (n + (65535 - ones n)) = 65535"
proof (cases "n = 0")
  case False
  let ?k = "(n - 1) mod 65535"
  have k: "?k \<le> n - 1" "?k < 65535" by simp_all
  have "65535 dvd n - 1 - ?k" by (rule dvd_minus_mod)
  then obtain q where q: "n - 1 - ?k = 65535 * q" by blast
  have "n + (65535 - ones n) - 1 = 65534 + 65535 * q"
    using q k False by (simp add: ones_def)
  then show ?thesis using False by (simp add: ones_def)
qed simp


section \<open>Filling in the checksum field\<close>

lemma value_sum_value:
  assumes v: "InternetChecksum_value c = Inr v" and small: "unat (ck_sum c) + 65535 < 2 ^ 32"
    and c': "ck_sum c' = ck_sum c + of_nat (unat v)"
  shows "InternetChecksum_value c' = Inr 0"
proof -
  let ?k = "65535 - ones (unat (ck_sum c))"
  have "v = of_nat ?k" using v by (simp add: value_spec)
  moreover have "?k < 2 ^ 16" by simp
  ultimately have "unat v = ?k" by (simp add: unat_of_nat)
  moreover have "unat (ck_sum c + of_nat ?k) = unat (ck_sum c) + ?k"
    using small by (subst unat_add_u32) (simp_all add: unat_of_nat_u32)
  ultimately have "unat (ck_sum c') = unat (ck_sum c) + ?k" using c' by simp
  then show ?thesis unfolding value_spec by (simp only: ones_complement) simp
qed

lemma byte_sum_u16: "byte_sum False (NetUnparser_u16 [] v) = unat v"
proof -
  have m: "(0xff :: u16) = mask 8" by (simp add: mask_eq_exp_minus_1)
  have hi: "unat (ucast (and (drop_bit 8 v) 0xff) :: byte) = unat v div 256"
    using unat_u16_less[of v] unfolding m
    by (simp add: take_bit_eq_mask[symmetric] unsigned_ucast_eq unsigned_take_bit_eq take_bit_eq_mod
        drop_bit_eq_div unat_div unat_mod less_mult_imp_div_less)
  have lo: "unat (ucast (and v 0xff) :: byte) = unat v mod 256"
    unfolding m by (simp add: take_bit_eq_mask[symmetric] unsigned_ucast_eq unsigned_take_bit_eq take_bit_eq_mod unat_mod)
  show ?thesis by (simp add: NetUnparser_u16_def unparse_int_map upt_rec hi lo)
qed

lemma ck_new_simps [simp]:
  "ck_sum (InternetChecksum_new i) = i" "ck_parity (InternetChecksum_new i) = False"
  by (simp_all add: InternetChecksum_new_def)

lemma checksum_complement_sum:
  assumes "even (length pre)" and "length pre + length post < 2 ^ 16" and "unat init < 2 ^ 30"
    and "InternetChecksum_value
      (InternetChecksum_add (InternetChecksum_new init) (pre @ NetUnparser_u16 [] 0 @ post)) = Inr v"
  shows "InternetChecksum_value
      (InternetChecksum_add (InternetChecksum_new init) (pre @ NetUnparser_u16 [] v @ post)) = Inr 0"
proof (rule value_sum_value[OF assms(4)])
  let ?n = "byte_sum False pre + byte_sum False post"
  have sum: "ck_sum (InternetChecksum_add (InternetChecksum_new init) (pre @ NetUnparser_u16 [] w @ post)) =
      init + of_nat (?n + unat w)" for w
    unfolding add_sum ck_new_simps using assms(1)
    by (simp add: byte_sum_append byte_sum_u16 u16_field.unparse_width add_ac)
  show "ck_sum (InternetChecksum_add (InternetChecksum_new init) (pre @ NetUnparser_u16 [] v @ post)) =
      ck_sum (InternetChecksum_add (InternetChecksum_new init) (pre @ NetUnparser_u16 [] 0 @ post)) + of_nat (unat v)"
    unfolding sum by simp
  have n: "?n < 2 ^ 31 + 2 ^ 20"
    using byte_sum_bound[of False pre] byte_sum_bound[of False post] assms(2) by simp
  have "unat (init + of_nat ?n) = unat init + ?n"
    using n assms(3) by (subst unat_add_u32) (simp_all add: unat_of_nat_u32 del: of_nat_add)
  then show "unat (ck_sum (InternetChecksum_add (InternetChecksum_new init) (pre @ NetUnparser_u16 [] 0 @ post))) + 65535 < 2 ^ 32"
    unfolding sum using n assms(3) by simp
qed

text \<open>The checksum a sender fills in is accepted by the receiver. If the 16-bit field at an even
offset is zero and \<open>value()\<close> over the data is \<open>v\<close>, then \<open>value()\<close> over the same data with \<open>v\<close> in the
field is zero, for any initial sum below \<open>2^30\<close> and any packet of less than \<open>2^16\<close> bytes.\<close>

theorem checksum_filled_in:
  assumes "even (length pre)" and "length pre + length post < 2 ^ 16" and "unat init < 2 ^ 30"
    and "InternetChecksum_value
      (InternetChecksum_add (InternetChecksum_new init) (pre @ NetUnparser_u16 [] 0 @ post)) = Inr v"
  shows "InternetChecksum_value
      (InternetChecksum_add (InternetChecksum_new init) (pre @ NetUnparser_u16 [] v @ post)) = Inr 0"
  by (rule checksum_complement_sum[OF assms])

theorem checksum_filled_in_witness:
  "InternetChecksum_value (InternetChecksum_add (InternetChecksum_new 6)
      ([0x45, 0x00] @ NetUnparser_u16 [] 0 @ [0x12, 0x34, 0xff])) = Inr 0xa9c4 \<and>
   InternetChecksum_value (InternetChecksum_add (InternetChecksum_new 6)
      ([0x45, 0x00] @ NetUnparser_u16 [] 0xa9c4 @ [0x12, 0x34, 0xff])) = Inr 0"
proof -
  have v: "InternetChecksum_value (InternetChecksum_add (InternetChecksum_new 6)
      ([0x45, 0x00] @ NetUnparser_u16 [] 0 @ [0x12, 0x34, 0xff])) = Inr 0xa9c4"
    by code_simp
  have "InternetChecksum_value (InternetChecksum_add (InternetChecksum_new 6)
      ([0x45, 0x00] @ NetUnparser_u16 [] 0xa9c4 @ [0x12, 0x34, 0xff])) = Inr 0"
    by (rule checksum_filled_in[OF _ _ _ v]) simp_all
  with v show ?thesis by blast
qed


section \<open>Detecting damage\<close>

lemma byte_sum_update:
  assumes "i < length xs"
  shows "byte_sum p (xs[i := b]) + unat (xs ! i) * (if p = even i then 1 else 256) =
    byte_sum p xs + unat b * (if p = even i then 1 else 256)"
  using assms
proof (induction xs arbitrary: p i)
  case (Cons x xs)
  show ?case
  proof (cases i)
    case (Suc j)
    then show ?thesis using Cons.IH[of j "\<not> p"] Cons.prems by (cases p; cases "even j") simp_all
  qed simp
qed simp

lemma ones_full_iff: "ones n = 65535 \<longleftrightarrow> 0 < n \<and> n mod 65535 = 0"
proof (cases "n = 0")
  case False
  then obtain k where "n = Suc k" by (cases n) auto
  then show ?thesis by (simp add: ones_def mod_Suc)
qed (simp add: ones_def)

lemma of_nat_u16_eq_0: "k < 65536 \<Longrightarrow> (of_nat k :: u16) = 0 \<longleftrightarrow> k = 0"
  by (simp add: word_unat_eq_iff unat_of_nat)

lemma value_zero_iff: "InternetChecksum_value c = Inr 0 \<longleftrightarrow> ones (unat (ck_sum c)) = 65535"
proof -
  have "InternetChecksum_value c = Inr 0 \<longleftrightarrow> (of_nat (65535 - ones (unat (ck_sum c))) :: u16) = 0"
    unfolding value_spec by (simp only: sum.inject)
  also have "\<dots> \<longleftrightarrow> 65535 - ones (unat (ck_sum c)) = 0" by (rule of_nat_u16_eq_0) simp
  also have "\<dots> \<longleftrightarrow> ones (unat (ck_sum c)) = 65535" using ones_le[of "unat (ck_sum c)"] by linarith
  finally show ?thesis .
qed

lemma dvd_step_256:
  fixes a b :: nat
  assumes "a < 256" "b < 256" "(x + a * w) = (y + b * w)" "w = 1 \<or> w = 256"
    and "x mod 65535 = 0" "y mod 65535 = 0"
  shows "a = b"
proof -
  have small: "a * w < 65535" "b * w < 65535" "0 < w" using assms(1,2,4) by auto
  have "(x + a * w) mod 65535 = a * w"
    using small(1) assms(5) by (metis add_0 mod_add_left_eq mod_less)
  moreover have "(y + b * w) mod 65535 = b * w"
    using small(2) assms(6) by (metis add_0 mod_add_left_eq mod_less)
  ultimately show ?thesis using assms(3) small(3) by simp
qed

text \<open>C33: A damaged byte is always noticed: if a packet passes the check (\<open>value()\<close> is zero over it)
and one of its bytes is replaced by a different one, the packet no longer passes.\<close>

theorem checksum_detects_byte_error:
  assumes "length xs < 2 ^ 16" and "unat init < 2 ^ 30" and "i < length xs" and "b \<noteq> xs ! i"
    and "InternetChecksum_value (InternetChecksum_add (InternetChecksum_new init) xs) = Inr 0"
  shows "InternetChecksum_value (InternetChecksum_add (InternetChecksum_new init) (xs[i := b])) \<noteq> Inr 0"
proof
  assume bad: "InternetChecksum_value (InternetChecksum_add (InternetChecksum_new init) (xs[i := b])) = Inr 0"
  have sum: "unat (ck_sum (InternetChecksum_add (InternetChecksum_new init) ys)) = unat init + byte_sum False ys"
    if "length ys < 2 ^ 16" for ys
  proof -
    have n: "byte_sum False ys < 2 ^ 31 + 2 ^ 20" using byte_sum_bound[of False ys] that by simp
    then show ?thesis unfolding add_sum using assms(2)
      by (subst unat_add_u32) (simp_all add: unat_of_nat_u32)
  qed
  have "unat (xs ! i) = unat b"
  proof (rule dvd_step_256)
    show "(unat init + byte_sum False (xs[i := b])) + unat (xs ! i) * (if even i then 256 else 1) =
        (unat init + byte_sum False xs) + unat b * (if even i then 256 else 1)"
      using byte_sum_update[OF assms(3), of False b] by (cases "even i") simp_all
    show "(unat init + byte_sum False (xs[i := b])) mod 65535 = 0"
      using bad sum[of "xs[i := b]"] assms(1) by (simp add: value_zero_iff ones_full_iff)
    show "(unat init + byte_sum False xs) mod 65535 = 0"
      using assms(5) sum[of xs] assms(1) by (simp add: value_zero_iff ones_full_iff)
  qed (use unat_u8_less in auto)
  then show False using assms(4) by (simp add: word_unat_eq_iff)
qed

theorem checksum_detects_byte_error_witness:
  "InternetChecksum_value (InternetChecksum_add (InternetChecksum_new 6) [0x45, 0x00, 0xa9, 0xc4, 0x12, 0x34, 0xff]) = Inr 0 \<and>
   InternetChecksum_value (InternetChecksum_add (InternetChecksum_new 6) ([0x45, 0x00, 0xa9, 0xc4, 0x12, 0x34, 0xff][1 := 0xff])) \<noteq> Inr 0"
proof -
  have v: "InternetChecksum_value (InternetChecksum_add (InternetChecksum_new 6)
      [0x45, 0x00, 0xa9, 0xc4, 0x12, 0x34, 0xff]) = Inr 0"
    by code_simp
  with checksum_detects_byte_error[OF _ _ _ _ v, of 1 "0xff"] show ?thesis by simp
qed

end
