(* ===== verification/Wrapping_Integers.thy ===== *)
theory Wrapping_Integers
  imports Interfaces
begin

text \<open>
  32-bit sequence numbers (\<open>libsponge/wrapping_integers.{hh,cc}\<close>): \<open>wrap\<close> turns a 64-bit
  absolute sequence number into one, \<open>unwrap\<close> recovers the absolute number that is closest to
  a checkpoint. Both loops of \<open>unwrap\<close> are kept as loops on 64-bit values.
\<close>

unbundle bit_operations_syntax

section \<open>Definitions\<close>

datatype WrappingInt32 = WrappingInt32 (raw_value: u32)

definition wrapping_diff :: "WrappingInt32 \<Rightarrow> WrappingInt32 \<Rightarrow> cint" where
  "wrapping_diff a b = raw_value a - raw_value b"

definition wrapping_plus :: "WrappingInt32 \<Rightarrow> u32 \<Rightarrow> WrappingInt32" where
  "wrapping_plus a b = WrappingInt32 (raw_value a + b)"

definition wrapping_minus :: "WrappingInt32 \<Rightarrow> u32 \<Rightarrow> WrappingInt32" where
  "wrapping_minus a b = wrapping_plus a (- b)"

definition wrap :: "u64 \<Rightarrow> WrappingInt32 \<Rightarrow> WrappingInt32" where
  "wrap n isn =
     (let ISN = ucast (raw_value isn);
          n1 = n + ISN;
          n2 = n1 mod push_bit 32 1
      in WrappingInt32 (ucast (n2 AND 0xFFFFFFFF)))"

definition unwrap :: "WrappingInt32 \<Rightarrow> WrappingInt32 \<Rightarrow> u64 \<Rightarrow> u64 result" where
  "unwrap n isn checkpoint =
     (let ISN = (ucast (raw_value isn) :: u64);
          N0 = (ucast (raw_value n) :: u64);
          BIG = (push_bit 32 1 :: u64)
      in andthen (while_loop (\<lambda>N. N < ISN) (\<lambda>N. Inr (N + BIG)) N0) (\<lambda>N.
         let abs = N - ISN
         in if checkpoint \<le> abs then Inr abs
            else let m = (checkpoint - abs) div BIG;
                     abs1 = abs + BIG * m
                 in andthen (while_loop (\<lambda>a. a \<le> checkpoint) (\<lambda>a. Inr (a + BIG)) abs1) (\<lambda>abs2.
                    if abs2 < BIG then Inr abs2
                    else if checkpoint - (abs2 - BIG) \<le> abs2 - checkpoint then Inr (abs2 - BIG)
                    else Inr abs2)))"

section \<open>\<open>wrap\<close> as a number\<close>

lemma raw_wrap: "raw_value (wrap n isn) = ucast n + raw_value isn"
proof -
  have "n1 mod push_bit 32 1 AND 0xFFFFFFFF = take_bit 32 n1" for n1 :: u64
  proof -
    have "n1 mod push_bit 32 1 = take_bit 32 n1"
      by (simp add: take_bit_eq_mod push_bit_eq_mult)
    moreover have "(0xFFFFFFFF :: u64) = mask 32" by (simp add: mask_eq_exp_minus_1)
    moreover have "take_bit 32 n1 AND mask 32 = take_bit 32 n1"
      by (simp only: take_bit_eq_mask [symmetric]) simp
    ultimately show ?thesis by metis
  qed
  moreover have "ucast (take_bit 32 n1 :: u64) = (ucast n1 :: u32)" for n1
    by (rule bit_word_eqI) (simp add: bit_simps)
  ultimately show ?thesis by (simp add: wrap_def Let_def ucast_size_add)
qed

text \<open>The number of increments from \<open>isn\<close> to \<open>n\<close>: the only absolute values that wrap to
  \<open>n\<close> are this one plus a multiple of \<open>2^32\<close>.\<close>

definition seq_offset :: "WrappingInt32 \<Rightarrow> WrappingInt32 \<Rightarrow> nat" where
  "seq_offset n isn = unat (raw_value n - raw_value isn)"

lemma seq_offset_less: "seq_offset n isn < 2 ^ 32"
  by (simp add: seq_offset_def unat_u32_less)

lemma wrap_eq_iff: "wrap x isn = n \<longleftrightarrow> unat x mod 2 ^ 32 = seq_offset n isn"
proof -
  have "wrap x isn = n \<longleftrightarrow> ucast x = raw_value n - raw_value isn"
    by (auto simp: WrappingInt32.expand raw_wrap algebra_simps)
  also have "\<dots> \<longleftrightarrow> unat (ucast x :: u32) = seq_offset n isn"
    by (simp add: seq_offset_def word_unat_eq_iff)
  finally show ?thesis by (simp add: unsigned_ucast_eq take_bit_eq_mod)
qed

lemma wrap_of_nat_eq_iff:
  "wrap (of_nat x) isn = n \<longleftrightarrow> x mod 2 ^ 32 = seq_offset n isn"
  by (simp add: wrap_eq_iff unat_of_nat mod_mod_cancel)

section \<open>\<open>unwrap\<close> as a number\<close>

text \<open>The first loop adds \<open>2^32\<close> at most once.\<close>

lemma unwrap_first_loop:
  fixes a b :: u32
  shows "while_loop (\<lambda>N. N < (ucast b :: u64)) (\<lambda>N. Inr (N + 4294967296)) (ucast a) =
    Inr (ucast (a - b) + ucast b)"
proof (cases "a < b")
  case True
  have un: "unat (ucast a + 4294967296 :: u64) = unat a + 4294967296"
    by (subst unat_add_u64) (use unat_u32_less[of a] in simp_all)
  have "unat (a - b) + unat b = unat a + 4294967296"
    using True unat_u32_less[of b] by (simp add: unat_sub_if_size word_size word_less_nat_alt)
  then have eq: "ucast a + 4294967296 = (ucast (a - b) + ucast b :: u64)"
    using unat_u32_less[of a]
    by (intro word_unat_eq_iff [THEN iffD2])
      (simp only: un, simp add: unat_word_ariths unat_of_nat)
  have stop: "\<not> (ucast a + 4294967296 :: u64) < ucast b"
    by (simp add: word_less_nat_alt un) (use unat_u32_less[of b] in simp)
  have go: "(ucast a :: u64) < ucast b"
    using True by (simp add: word_less_nat_alt)
  show ?thesis
    by (subst while_loop_unfold)
      (simp only: go if_True andthen_simps, subst while_loop_False, rule stop, simp only: eq)
next
  case False
  then have "unat (a - b) + unat b = unat a"
    by (simp add: unat_sub word_le_nat_alt word_less_nat_alt)
  then have "ucast a = (ucast (a - b) + ucast b :: u64)"
    using unat_u32_less[of a]
    by (intro word_unat_eq_iff [THEN iffD2]) (simp add: unat_word_ariths unat_of_nat)
  moreover have "\<not> (ucast a :: u64) < ucast b"
    using False by (simp add: word_less_nat_alt)
  ultimately show ?thesis by (subst while_loop_False) simp_all
qed

text \<open>The second loop adds \<open>2^32\<close> once, unless that overflows: then it never ends.\<close>

lemma unwrap_second_loop:
  assumes "a \<le> unat cp" and "unat cp < a + 2 ^ 32" and "a + 2 ^ 32 < 2 ^ 64"
  shows "while_loop (\<lambda>a. a \<le> cp) (\<lambda>a. Inr (a + 4294967296)) (of_nat a) =
    Inr (of_nat (a + 2 ^ 32) :: u64)"
proof -
  have go: "(of_nat a :: u64) \<le> cp"
    using assms by (simp add: word_le_nat_alt unat_of_nat_u64)
  have eq: "of_nat a + 4294967296 = (of_nat (a + 2 ^ 32) :: u64)" by simp
  have stop: "\<not> (of_nat (a + 2 ^ 32) :: u64) \<le> cp"
    using assms by (simp only: word_le_nat_alt unat_of_nat_u64 not_le)
  show ?thesis
    by (subst while_loop_unfold)
      (simp only: go if_True andthen_simps eq, subst while_loop_False, rule stop, rule refl)
qed

lemma unwrap_second_loop_diverges:
  assumes "2 ^ 64 - 2 ^ 32 + d \<le> unat cp" and "a mod 2 ^ 32 = d"
  shows "while_loop (\<lambda>a. a \<le> (cp :: u64)) (\<lambda>a. Inr (a + 4294967296)) (of_nat a) = Inl Diverges"
proof (rule while_loop_diverges [where I = "\<lambda>x. unat x mod 2 ^ 32 = d"])
  show "unat (of_nat a :: u64) mod 2 ^ 32 = d"
    using assms(2) by (simp add: unat_of_nat mod_mod_cancel)
next
  fix t :: u64
  assume d: "unat t mod 2 ^ 32 = d"
  have "unat t = 2 ^ 32 * (unat t div 2 ^ 32) + d"
    using d by (metis mult_div_mod_eq)
  moreover have "unat t div 2 ^ 32 < 2 ^ 32"
    using unat_u64_less[of t] by (simp add: less_mult_imp_div_less)
  ultimately have "unat t \<le> 2 ^ 64 - 2 ^ 32 + d" by simp
  then have "t \<le> cp" using assms(1) by (simp add: word_le_nat_alt)
  moreover have "unat (t + 4294967296) mod 2 ^ 32 = d"
    using d by (simp add: unat_word_ariths mod_mod_cancel)
  ultimately show "t \<le> cp \<and> (\<exists>u. Inr (t + 4294967296) = (Inr u :: u64 result) \<and> unat u mod 2 ^ 32 = d)"
    by blast
qed

text \<open>The result of \<open>unwrap\<close> from the offset \<open>d\<close> and the checkpoint \<open>c\<close>.\<close>

definition nearest :: "nat \<Rightarrow> nat \<Rightarrow> nat" where
  "nearest d c =
     (if c \<le> d then d
      else let a = d + 2 ^ 32 * ((c - d) div 2 ^ 32)
           in if 2 * (c - a) \<le> 2 ^ 32 then a else a + 2 ^ 32)"

lemma block_bounds:
  fixes d c :: nat
  assumes "d < c"
  defines "a \<equiv> d + 2 ^ 32 * ((c - d) div 2 ^ 32)"
  shows "a \<le> c" and "c < a + 2 ^ 32"
proof -
  have eq: "2 ^ 32 * ((c - d) div 2 ^ 32) + (c - d) mod 2 ^ 32 = c - d"
    by (rule mult_div_mod_eq)
  moreover have "(c - d) mod 2 ^ 32 < 2 ^ 32" by simp
  ultimately show "a \<le> c" and "c < a + 2 ^ 32"
    using assms(1) unfolding a_def by linarith+
qed

lemma block_arith: "d < 2 ^ 32 \<Longrightarrow> 2 ^ 64 \<le> d + 2 ^ 32 * q + 2 ^ 32 \<Longrightarrow> 2 ^ 64 - 2 ^ 32 + d \<le> d + 2 ^ 32 * (q :: nat)"
  by simp

lemma unwrap_spec:
  fixes n isn :: WrappingInt32 and cp :: u64
  defines "d \<equiv> seq_offset n isn"
  shows "unwrap n isn cp =
    (if 2 ^ 64 - 2 ^ 32 + d \<le> unat cp then Inl Diverges else Inr (of_nat (nearest d (unat cp))))"
proof -
  let ?big = "4294967296 :: u64"
  have d: "ucast (raw_value n - raw_value isn) = (of_nat d :: u64)"
    by (simp add: d_def seq_offset_def)
  have dlt: "d < 2 ^ 32" unfolding d_def by (rule seq_offset_less)
  have ud: "unat (of_nat d :: u64) = d" using dlt by (simp add: unat_of_nat_u64)
  have cle: "cp \<le> (of_nat d :: u64) \<longleftrightarrow> unat cp \<le> d" by (simp add: word_le_nat_alt ud)
  define a where "a = d + 2 ^ 32 * ((unat cp - d) div 2 ^ 32)"
  have step: "unwrap n isn cp = (if cp \<le> of_nat d then Inr (of_nat d)
      else andthen (while_loop (\<lambda>a. a \<le> cp) (\<lambda>a. Inr (a + ?big))
                      (of_nat d + ?big * ((cp - of_nat d) div ?big)))
        (\<lambda>x. if x < ?big then Inr x
             else if cp - (x - ?big) \<le> x - cp then Inr (x - ?big) else Inr x))"
    by (simp add: unwrap_def Let_def unwrap_first_loop d)
  show ?thesis
  proof (cases "unat cp \<le> d")
    case True
    then show ?thesis using dlt by (simp add: step cle nearest_def)
  next
    case False
    have sub: "unat (cp - of_nat d :: u64) = unat cp - d"
      using False by (simp add: unat_sub word_le_nat_alt ud)
    have start: "of_nat d + ?big * ((cp - of_nat d) div ?big) = of_nat a"
    proof -
      have "(cp - of_nat d) div ?big = of_nat ((unat cp - d) div 2 ^ 32)"
        by (metis (no_types, lifting) of_nat_unat_id sub unat_div unat_numeral_u64_big)
      then show ?thesis by (simp add: a_def)
    qed
    have ab: "a \<le> unat cp" "unat cp < a + 2 ^ 32"
      unfolding a_def using False block_bounds[of d "unat cp"] by simp_all
    have amod: "a mod 2 ^ 32 = d" using dlt by (simp add: a_def)
    show ?thesis
    proof (cases "2 ^ 64 - 2 ^ 32 + d \<le> unat cp")
      case True
      with False show ?thesis
        by (simp add: step cle start unwrap_second_loop_diverges[OF True amod])
    next
      case cp: False
      have small: "a + 2 ^ 32 < 2 ^ 64"
      proof (rule ccontr)
        assume "\<not> a + 2 ^ 32 < 2 ^ 64"
        then have "2 ^ 64 - 2 ^ 32 + d \<le> a"
          unfolding a_def not_less by (rule block_arith[OF dlt])
        with ab(1) cp show False by linarith
      qed
      note loop = unwrap_second_loop[OF ab small]
      let ?x = "of_nat (a + 2 ^ 32) :: u64"
      have ux: "unat ?x = a + 2 ^ 32" using small by (simp only: unat_of_nat_u64)
      have nlt: "\<not> ?x < ?big" by (simp only: word_less_nat_alt ux) simp
      have prev: "?x - ?big = of_nat a" by simp
      have ua: "unat (of_nat a :: u64) = a" using small by (simp add: unat_of_nat_u64)
      have "unat (cp - of_nat a) = unat cp - a"
        by (subst unat_sub_u64) (use ab ua in \<open>simp_all add: word_le_nat_alt\<close>)
      moreover have "unat (?x - cp) = a + 2 ^ 32 - unat cp"
        by (subst unat_sub_u64) (use ab ux in \<open>simp_all only: word_le_nat_alt\<close>)
      ultimately have "cp - of_nat a \<le> ?x - cp \<longleftrightarrow> unat cp - a \<le> a + 2 ^ 32 - unat cp"
        by (simp only: word_le_nat_alt)
      also have "\<dots> \<longleftrightarrow> 2 * (unat cp - a) \<le> 2 ^ 32" using ab by linarith
      finally have cmp: "cp - of_nat a \<le> ?x - cp \<longleftrightarrow> 2 * (unat cp - a) \<le> 2 ^ 32" .
      have "unwrap n isn cp = (if 2 * (unat cp - a) \<le> 2 ^ 32 then Inr (of_nat a) else Inr ?x)"
        using False by (simp only: step cle start loop andthen_simps nlt prev cmp if_False)
      also have "\<dots> = Inr (of_nat (nearest d (unat cp)))"
        using False by (simp only: nearest_def Let_def if_False a_def [symmetric] if_distrib [of Inr] if_distrib [of of_nat])
      finally show ?thesis using cp by simp
    qed
  qed
qed

lemma unwrap_returns:
  "unat cp < 2 ^ 64 - 2 ^ 32 \<Longrightarrow>
   unwrap n isn cp = Inr (of_nat (nearest (seq_offset n isn) (unat cp)))"
  by (simp add: unwrap_spec)

subsection \<open>The result is the closest candidate\<close>

lemma nearest_mod: "d < 2 ^ 32 \<Longrightarrow> nearest d c mod 2 ^ 32 = d"
  by (simp add: nearest_def Let_def)

lemma nearest_le: "nearest d c \<le> max d (c + 2 ^ 31)"
  using block_bounds[of d c] by (auto simp: nearest_def Let_def max_def)

lemma dist_mod_blocks:
  fixes x a c k :: nat
  assumes "x mod k = a mod k" and "a \<le> c" and "c < a + k"
  shows "(x \<le> a \<and> c - a \<le> c - x) \<or> (a + k \<le> x \<and> a + k - c \<le> x - c)"
proof (cases "x \<le> a")
  case True
  then show ?thesis using assms by auto
next
  case False
  then have "a < x" by simp
  moreover from assms(1) this obtain q where "x = a + k * q"
    by (metis less_imp_le_nat mod_eq_nat1E)
  ultimately have "a + k \<le> x" by (cases q) auto
  then show ?thesis using assms by auto
qed

definition ndist :: "nat \<Rightarrow> nat \<Rightarrow> nat" where
  "ndist x y = (if x \<le> y then y - x else x - y)"

lemma ndist_triangle: "ndist x y \<le> ndist x z + ndist y z"
  by (auto simp: ndist_def)

lemma ndist_add [simp]: "ndist (x + k) x = k" "ndist x (x + k) = k"
  by (auto simp: ndist_def)

lemma nearest_closest:
  assumes d: "d < 2 ^ 32" and x: "x mod 2 ^ 32 = d"
  shows "ndist (nearest d c) c \<le> ndist x c"
proof (cases "c \<le> d")
  case True
  have "d \<le> x" using x by (metis mod_less_eq_dividend)
  with True show ?thesis by (auto simp: nearest_def ndist_def)
next
  case False
  define a where "a = d + 2 ^ 32 * ((c - d) div 2 ^ 32)"
  have b: "a \<le> c" "c < a + 2 ^ 32"
    unfolding a_def using False block_bounds[of d c] by simp_all
  have "a mod 2 ^ 32 = d" using d by (simp add: a_def)
  with x have "x mod 2 ^ 32 = a mod 2 ^ 32" by simp
  from dist_mod_blocks[OF this b] b show ?thesis
    using False unfolding nearest_def Let_def a_def [symmetric] ndist_def by auto
qed

lemma mod_close_eq:
  assumes cong: "r mod k = (x :: nat) mod k" and close: "ndist r x < k"
  shows "r = x"
proof (rule ccontr)
  assume "r \<noteq> x"
  then consider "r < x" | "x < r" by linarith
  then show False
  proof cases
    case 1
    with cong obtain q where "x = r + k * q" by (metis less_imp_le_nat mod_eq_nat1E)
    with 1 close show False by (cases q) (auto simp: ndist_def split: if_splits)
  next
    case 2
    with cong obtain q where "r = x + k * q" by (metis less_imp_le_nat mod_eq_nat1E)
    with 2 close show False by (cases q) (auto simp: ndist_def split: if_splits)
  qed
qed

text \<open>Within \<open>2^31\<close> of the checkpoint the closest candidate is unique.\<close>

lemma nearest_unique:
  assumes "ndist x c < 2 ^ 31"
  shows "nearest (x mod 2 ^ 32) c = x"
proof -
  let ?d = "x mod 2 ^ 32" and ?r = "nearest (x mod 2 ^ 32) c"
  have "ndist ?r c \<le> ndist x c" by (rule nearest_closest) simp_all
  with assms ndist_triangle[of ?r x c] have close: "ndist ?r x < 2 ^ 32" by simp
  have cong: "?r mod 2 ^ 32 = x mod 2 ^ 32" by (rule nearest_mod) simp
  from mod_close_eq[OF cong close] show ?thesis .
qed

lemma unwrap_wrap_near:
  assumes "unat cp < 2 ^ 64 - 2 ^ 32" and "ndist x (unat cp) < 2 ^ 31"
  shows "unwrap (wrap (of_nat x) isn) isn cp = Inr (of_nat x)"
proof -
  have "x mod 2 ^ 32 = seq_offset (wrap (of_nat x) isn) isn"
    by (simp only: wrap_of_nat_eq_iff [symmetric])
  then show ?thesis
    using assms nearest_unique[of x "unat cp"] by (simp add: unwrap_returns)
qed

section \<open>The codec of sequence numbers\<close>

interpretation seqno: seqno_codec "\<lambda>n. wrap (of_nat n) isn"
  "\<lambda>w c. map_sum id unat (unwrap w isn (of_nat c))" "2 ^ 63" "2 ^ 31" for isn
proof (unfold_locales, goal_cases)
  case (1 c n)
  then have "unwrap (wrap (of_nat n) isn) isn (of_nat c) = Inr (of_nat n)"
    by (intro unwrap_wrap_near) (auto simp: unat_of_nat_u64 ndist_def)
  moreover have "n < 2 ^ 64" using 1 by simp
  ultimately show ?case by (simp add: unat_of_nat_u64)
qed simp

section \<open>Properties\<close>

text \<open>C29: for a checkpoint below \<open>2^64 - 2^32\<close>, \<open>unwrap\<close> returns, its result wraps to the
  sequence number it was given, and no absolute sequence number that wraps to it is closer to
  the checkpoint.\<close>

theorem unwrap_closest:
  assumes "unat cp < 2 ^ 64 - 2 ^ 32"
  shows "\<exists>r. unwrap n isn cp = Inr r \<and> wrap r isn = n \<and>
    (\<forall>x. wrap x isn = n \<longrightarrow> ndist (unat r) (unat cp) \<le> ndist (unat x) (unat cp))"
proof (intro exI conjI allI impI)
  let ?d = "seq_offset n isn"
  let ?r = "of_nat (nearest ?d (unat cp)) :: u64"
  have "nearest ?d (unat cp) < 2 ^ 64"
    using nearest_le[of ?d "unat cp"] seq_offset_less[of n isn] assms by auto
  then have r: "unat ?r = nearest ?d (unat cp)" by (rule unat_of_nat_u64)
  show "unwrap n isn cp = Inr ?r" using assms by (rule unwrap_returns)
  show "wrap ?r isn = n"
    by (simp only: wrap_of_nat_eq_iff nearest_mod seq_offset_less)
  fix x
  assume "wrap x isn = n"
  then have "unat x mod 2 ^ 32 = ?d" by (simp add: wrap_eq_iff)
  then show "ndist (unat ?r) (unat cp) \<le> ndist (unat x) (unat cp)"
    unfolding r by (rule nearest_closest [OF seq_offset_less])
qed

theorem unwrap_closest_witness:
  "unat (3 :: u64) < 2 ^ 64 - 2 ^ 32 \<and>
   (\<exists>r. unwrap (WrappingInt32 17) (WrappingInt32 15) 3 = Inr r \<and>
        wrap r (WrappingInt32 15) = WrappingInt32 17 \<and>
    (\<forall>x. wrap x (WrappingInt32 15) = WrappingInt32 17 \<longrightarrow>
       ndist (unat r) (unat (3 :: u64)) \<le> ndist (unat x) (unat (3 :: u64))))"
  using unwrap_closest[of 3 "WrappingInt32 17" "WrappingInt32 15"] by simp

text \<open>an absolute sequence number within \<open>2^31\<close> of the checkpoint survives the trip through
  \<open>wrap\<close> and \<open>unwrap\<close>.\<close>

theorem wrap_unwrap_roundtrip:
  assumes "unat cp < 2 ^ 64 - 2 ^ 32" and "ndist (unat x) (unat cp) < 2 ^ 31"
  shows "unwrap (wrap x isn) isn cp = Inr x"
  using unwrap_wrap_near[OF assms] by simp

theorem wrap_unwrap_roundtrip_witness:
  "unwrap (wrap 0x300000007 (WrappingInt32 5)) (WrappingInt32 5) 0x2FFFFFFF0 = Inr 0x300000007"
  by (rule wrap_unwrap_roundtrip) (simp_all add: ndist_def)

text \<open>C36: \<open>unwrap\<close> does not always return. For a checkpoint in the last \<open>2^32\<close> values,
  at or above the last candidate, the addition in the second loop overflows and the loop never
  ends; for every other checkpoint it returns.\<close>

theorem unwrap_diverges_iff:
  "unwrap n isn cp = Inl Diverges \<longleftrightarrow>
     2 ^ 64 - 2 ^ 32 + unat (raw_value n - raw_value isn) \<le> unat cp"
  by (simp add: unwrap_spec seq_offset_def)

end
