(* ===== verification/Tcp_Segment.thy ===== *)
theory Tcp_Segment
  imports Checksum Wrapping_Integers
begin

text \<open>
  \<open>libsponge/tcp_helpers/tcp_header.{hh,cc}\<close> and \<open>tcp_segment.{hh,cc}\<close>: the TCP header and the
  segment with their wire format. A \<open>BufferList\<close> is the list of the strings of its buffers.
\<close>

section \<open>Header\<close>

record TCPHeader =
  th_sport :: u16
  th_dport :: u16
  th_seqno :: WrappingInt32
  th_ackno :: WrappingInt32
  th_doff :: u8
  th_urg :: bool
  th_ack :: bool
  th_psh :: bool
  th_rst :: bool
  th_syn :: bool
  th_fin :: bool
  th_win :: u16
  th_cksum :: u16
  th_uptr :: u16

definition TCPHeader_new :: TCPHeader where
  "TCPHeader_new =
     \<lparr>th_sport = 0, th_dport = 0, th_seqno = WrappingInt32 0, th_ackno = WrappingInt32 0, th_doff = 5,
      th_urg = False, th_ack = False, th_psh = False, th_rst = False, th_syn = False, th_fin = False,
      th_win = 0, th_cksum = 0, th_uptr = 0\<rparr>"

definition TCPHeader_parse :: "TCPHeader \<Rightarrow> NetParser \<Rightarrow> ParseResult \<times> TCPHeader \<times> NetParser" where
  "TCPHeader_parse h p0 =
     (let (sport, p1) = NetParser_u16 p0;
          (dport, p2) = NetParser_u16 p1;
          (seqno, p3) = NetParser_u32 p2;
          (ackno, p4) = NetParser_u32 p3;
          (off_b, p5) = NetParser_u8 p4;
          doff = drop_bit 4 off_b;
          (fl_b, p6) = NetParser_u8 p5;
          (win, p7) = NetParser_u16 p6;
          (cksum, p8) = NetParser_u16 p7;
          (uptr, p9) = NetParser_u16 p8;
          h' = \<lparr>th_sport = sport, th_dport = dport, th_seqno = WrappingInt32 seqno,
                th_ackno = WrappingInt32 ackno, th_doff = doff,
                th_urg = (and fl_b 0x20 \<noteq> 0), th_ack = (and fl_b 0x10 \<noteq> 0),
                th_psh = (and fl_b 0x08 \<noteq> 0), th_rst = (and fl_b 0x04 \<noteq> 0),
                th_syn = (and fl_b 0x02 \<noteq> 0), th_fin = (and fl_b 0x01 \<noteq> 0),
                th_win = win, th_cksum = cksum, th_uptr = uptr\<rparr>
      in if doff < 5 then (HeaderTooShort, h', p9)
         else let p10 = NetParser_remove_prefix p9 (unat doff * 4 - 20)
              in if NetParser_error p10 then (NetParser_get_error p10, h', p10)
                 else (NoError, h', p10))"

text \<open>\<open>std::string::resize\<close>.\<close>

definition resize :: "bytes \<Rightarrow> nat \<Rightarrow> bytes" where
  "resize s n = take n s @ replicate (n - length s) 0"

lemma resize_extend: "length s \<le> n \<Longrightarrow> resize s n = s @ replicate (n - length s) 0"
  by (simp add: resize_def)

definition TCPHeader_serialize :: "TCPHeader \<Rightarrow> bytes result" where
  "TCPHeader_serialize h =
     (if th_doff h < 5 then Inl (RuntimeError ''TCP header too short'')
      else
        let r1 = NetUnparser_u16 [] (th_sport h);
            r2 = NetUnparser_u16 r1 (th_dport h);
            r3 = NetUnparser_u32 r2 (raw_value (th_seqno h));
            r4 = NetUnparser_u32 r3 (raw_value (th_ackno h));
            r5 = NetUnparser_u8 r4 (push_bit 4 (th_doff h));
            fl_b = or (or (or (or (or (if th_urg h then 0x20 else 0) (if th_ack h then 0x10 else 0))
                     (if th_psh h then 0x08 else 0)) (if th_rst h then 0x04 else 0))
                     (if th_syn h then 0x02 else 0)) (if th_fin h then 0x01 else 0);
            r6 = NetUnparser_u8 r5 fl_b;
            r7 = NetUnparser_u16 r6 (th_win h);
            r8 = NetUnparser_u16 r7 (th_cksum h);
            r9 = NetUnparser_u16 r8 (th_uptr h)
        in Inr (resize r9 (4 * unat (th_doff h))))"

text \<open>\<open>operator==\<close> leaves out the ports and the checksum.\<close>

definition TCPHeader_eq :: "TCPHeader \<Rightarrow> TCPHeader \<Rightarrow> bool" where
  "TCPHeader_eq h other \<longleftrightarrow>
     th_seqno h = th_seqno other \<and> th_ackno h = th_ackno other \<and> th_doff h = th_doff other \<and>
     th_urg h = th_urg other \<and> th_ack h = th_ack other \<and> th_psh h = th_psh other \<and>
     th_rst h = th_rst other \<and> th_syn h = th_syn other \<and> th_fin h = th_fin other \<and>
     th_win h = th_win other \<and> th_uptr h = th_uptr other"

section \<open>Segment\<close>

record TCPSegment =
  seg_header :: TCPHeader
  seg_payload :: bytes

definition TCPSegment_new :: TCPSegment where
  "TCPSegment_new = \<lparr>seg_header = TCPHeader_new, seg_payload = []\<rparr>"

definition TCPSegment_parse :: "TCPSegment \<Rightarrow> bytes \<Rightarrow> u32 \<Rightarrow> (ParseResult \<times> TCPSegment) result" where
  "TCPSegment_parse seg buffer datagram_layer_checksum =
     andthen (InternetChecksum_value
                (InternetChecksum_add (InternetChecksum_new datagram_layer_checksum) buffer))
       (\<lambda>v. if v \<noteq> 0 then Inr (BadChecksum, seg)
            else let (_, h, p) = TCPHeader_parse (seg_header seg) (NetParser_new buffer)
                 in Inr (NetParser_get_error p, \<lparr>seg_header = h, seg_payload = np_buffer p\<rparr>))"

definition TCPSegment_length_in_sequence_space :: "TCPSegment \<Rightarrow> size_t" where
  "TCPSegment_length_in_sequence_space seg =
     size_of (seg_payload seg) + (if th_syn (seg_header seg) then 1 else 0)
       + (if th_fin (seg_header seg) then 1 else 0)"

definition TCPSegment_serialize :: "TCPSegment \<Rightarrow> u32 \<Rightarrow> bytes list result" where
  "TCPSegment_serialize seg datagram_layer_checksum =
     (let header_out = (seg_header seg)\<lparr>th_cksum := 0\<rparr>
      in andthen (TCPHeader_serialize header_out) (\<lambda>s0.
         andthen (InternetChecksum_value
                    (InternetChecksum_add
                       (InternetChecksum_add (InternetChecksum_new datagram_layer_checksum) s0)
                       (seg_payload seg))) (\<lambda>v.
         andthen (TCPHeader_serialize (header_out\<lparr>th_cksum := v\<rparr>)) (\<lambda>s1.
         Inr ([] @ [s1] @ [seg_payload seg])))))"

section \<open>Round trip of the header\<close>

definition tcp_flags :: "TCPHeader \<Rightarrow> u8" where
  "tcp_flags h = or (or (or (or (or (if th_urg h then 0x20 else 0) (if th_ack h then 0x10 else 0))
     (if th_psh h then 0x08 else 0)) (if th_rst h then 0x04 else 0))
     (if th_syn h then 0x02 else 0)) (if th_fin h then 0x01 else 0)"

lemma tcp_flags_bits:
  "and (tcp_flags h) 0x20 \<noteq> 0 \<longleftrightarrow> th_urg h" "and (tcp_flags h) 0x10 \<noteq> 0 \<longleftrightarrow> th_ack h"
  "and (tcp_flags h) 0x08 \<noteq> 0 \<longleftrightarrow> th_psh h" "and (tcp_flags h) 0x04 \<noteq> 0 \<longleftrightarrow> th_rst h"
  "and (tcp_flags h) 0x02 \<noteq> 0 \<longleftrightarrow> th_syn h" "and (tcp_flags h) 0x01 \<noteq> 0 \<longleftrightarrow> th_fin h"
  unfolding tcp_flags_def
  by (cases "th_urg h"; cases "th_ack h"; cases "th_psh h"; cases "th_rst h"; cases "th_syn h";
      cases "th_fin h"; simp)+


text \<open>The bytes before and after the checksum field, which do not depend on it.\<close>

definition tcp_front :: "TCPHeader \<Rightarrow> bytes" where
  "tcp_front h = NetUnparser_u16 [] (th_sport h) @ NetUnparser_u16 [] (th_dport h) @
     NetUnparser_u32 [] (raw_value (th_seqno h)) @ NetUnparser_u32 [] (raw_value (th_ackno h)) @
     NetUnparser_u8 [] (push_bit 4 (th_doff h)) @ NetUnparser_u8 [] (tcp_flags h) @
     NetUnparser_u16 [] (th_win h)"

definition tcp_rear :: "TCPHeader \<Rightarrow> bytes" where
  "tcp_rear h = NetUnparser_u16 [] (th_uptr h) @ replicate (4 * unat (th_doff h) - 20) 0"

lemma tcp_front_length [simp]: "length (tcp_front h) = 16"
  by (simp add: tcp_front_def)

lemma tcp_parts_cksum [simp]:
  "tcp_front (h\<lparr>th_cksum := c\<rparr>) = tcp_front h" "tcp_rear (h\<lparr>th_cksum := c\<rparr>) = tcp_rear h"
  by (simp_all add: tcp_front_def tcp_rear_def tcp_flags_def)

definition tcp_header_ok :: "TCPHeader \<Rightarrow> bool" where
  "tcp_header_ok h \<longleftrightarrow> 5 \<le> th_doff h \<and> th_doff h < 16"

lemma tcp_header_ok_unat: "tcp_header_ok h \<Longrightarrow> 5 \<le> unat (th_doff h) \<and> unat (th_doff h) < 16"
  by (simp add: tcp_header_ok_def word_le_nat_alt word_less_nat_alt)

lemma TCPHeader_layout:
  assumes "tcp_header_ok h"
  shows "TCPHeader_serialize h = Inr (tcp_front h @ NetUnparser_u16 [] (th_cksum h) @ tcp_rear h)"
proof -
  have "\<not> th_doff h < 5" using assms by (simp add: tcp_header_ok_def not_less)
  then show ?thesis using tcp_header_ok_unat[OF assms]
    unfolding TCPHeader_serialize_def tcp_flags_def[symmetric] Let_def
    by (simp add: unparse_chain resize_extend tcp_front_def tcp_rear_def)
qed

lemma doff_nibble: "unat (d :: u8) < 16 \<Longrightarrow> drop_bit 4 (push_bit 4 d) = d"
proof -
  assume "unat d < 16"
  then have "unat (push_bit 4 d) = unat d * 16"
    by (simp add: push_bit_eq_mult unat_word_ariths mod_less)
  then show ?thesis by (simp add: word_unat_eq_iff drop_bit_eq_div unat_div)
qed

lemma TCPHeader_parse_layout:
  assumes "tcp_header_ok h"
  shows "TCPHeader_parse h0 (NetParser_new (tcp_front h @ NetUnparser_u16 [] (th_cksum h) @ tcp_rear h @ rest)) =
    (NoError, h, NetParser_new rest)"
proof -
  have d: "drop_bit 4 (push_bit 4 (th_doff h)) = th_doff h" "\<not> th_doff h < 5"
    "unat (th_doff h) * 4 - 20 = 4 * unat (th_doff h) - 20"
    using tcp_header_ok_unat[OF assms] assms by (simp_all add: doff_nibble tcp_header_ok_def not_less mult.commute)
  show ?thesis
    unfolding TCPHeader_parse_def tcp_front_def tcp_rear_def
    by (simp add: field_reads d NetParser_remove_prefix_new tcp_flags_bits)
qed


section \<open>Round trip of the segment\<close>

definition tcp_segment_ok :: "TCPSegment \<Rightarrow> bool" where
  "tcp_segment_ok seg \<longleftrightarrow> tcp_header_ok (seg_header seg) \<and> length (seg_payload seg) < 2 ^ 15"

lemma TCPSegment_roundtrip:
  assumes ok: "tcp_segment_ok seg" and ck: "unat ck < 2 ^ 30"
  shows "\<exists>hdr v. TCPSegment_serialize seg ck = Inr [hdr, seg_payload seg] \<and>
    length hdr = 4 * unat (th_doff (seg_header seg)) \<and>
    TCPSegment_parse seg0 (hdr @ seg_payload seg) ck =
      Inr (NoError, seg\<lparr>seg_header := (seg_header seg)\<lparr>th_cksum := v\<rparr>\<rparr>)"
proof -
  let ?h = "seg_header seg" and ?f = "tcp_front (seg_header seg)" and ?r = "tcp_rear (seg_header seg)"
  have hok: "tcp_header_ok ?h" and okc: "tcp_header_ok (?h\<lparr>th_cksum := c\<rparr>)" for c
    using ok by (simp_all add: tcp_segment_ok_def tcp_header_ok_def)
  define v where "v = projr (InternetChecksum_value (InternetChecksum_add
    (InternetChecksum_new ck) (?f @ NetUnparser_u16 [] 0 @ ?r @ seg_payload seg)))"
  have v: "InternetChecksum_value (InternetChecksum_add
      (InternetChecksum_new ck) (?f @ NetUnparser_u16 [] 0 @ ?r @ seg_payload seg)) = Inr v"
    by (simp add: v_def value_spec)
  let ?hdr = "?f @ NetUnparser_u16 [] v @ ?r"
  have len: "length ?hdr = 4 * unat (th_doff ?h)"
    using tcp_header_ok_unat[OF hok] by (simp add: tcp_rear_def) linarith
  have ser: "TCPSegment_serialize seg ck = Inr [?hdr, seg_payload seg]"
    using v by (simp add: TCPSegment_serialize_def TCPHeader_layout[OF okc])
  have "InternetChecksum_value (InternetChecksum_add (InternetChecksum_new ck) (?hdr @ seg_payload seg)) = Inr 0"
    unfolding append_assoc
  proof (rule checksum_complement_sum[OF _ _ ck v])
    show "length ?f + length (?r @ seg_payload seg) < 2 ^ 16"
      using tcp_header_ok_unat[OF hok] ok by (simp add: tcp_segment_ok_def tcp_rear_def) linarith
  qed simp
  moreover have "TCPHeader_parse (seg_header seg0) (NetParser_new (?hdr @ seg_payload seg)) =
      (NoError, ?h\<lparr>th_cksum := v\<rparr>, NetParser_new (seg_payload seg))"
    using TCPHeader_parse_layout[OF okc[of v], of "seg_header seg0" "seg_payload seg"] by simp
  ultimately have "TCPSegment_parse seg0 (?hdr @ seg_payload seg) ck =
      Inr (NoError, seg\<lparr>seg_header := ?h\<lparr>th_cksum := v\<rparr>\<rparr>)"
    by (simp add: TCPSegment_parse_def)
  with ser len show ?thesis by blast
qed


text \<open>Segments that differ at most in the checksum field.\<close>

definition seg_same :: "TCPSegment \<Rightarrow> TCPSegment \<Rightarrow> bool" where
  "seg_same seg seg' \<longleftrightarrow> seg_payload seg = seg_payload seg' \<and>
     (seg_header seg)\<lparr>th_cksum := 0\<rparr> = (seg_header seg')\<lparr>th_cksum := 0\<rparr>"

interpretation seg_wire: wire_format tcp_segment_ok
  "\<lambda>seg. andthen (TCPSegment_serialize seg 0) (\<lambda>bl. Inr (concat bl))"
  "\<lambda>s. TCPSegment_parse TCPSegment_new s 0" seg_same
proof
  fix seg assume "tcp_segment_ok seg"
  then show "\<exists>s seg'. andthen (TCPSegment_serialize seg 0) (\<lambda>bl. Inr (concat bl)) = Inr s \<and>
      TCPSegment_parse TCPSegment_new s 0 = Inr (NoError, seg') \<and> seg_same seg seg'"
    using TCPSegment_roundtrip[of seg 0 TCPSegment_new] by (auto simp: seg_same_def)
next
  show "equivp seg_same"
    by (rule equivpI) (auto simp: seg_same_def reflp_def symp_def transp_def)
qed

text \<open>C30: What a segment is serialized to parses back to the segment: for a header whose data offset
is between 5 and 15, a payload of less than \<open>2^15\<close> bytes and any pseudo-header sum below \<open>2^30\<close>,
\<open>serialize\<close> gives the header followed by the payload, and \<open>parse\<close> accepts those bytes and
recovers every field except the checksum, which now holds the computed value.\<close>

theorem tcp_segment_roundtrip:
  assumes "tcp_segment_ok seg" and "unat ck < 2 ^ 30"
  shows "\<exists>hdr v. TCPSegment_serialize seg ck = Inr [hdr, seg_payload seg] \<and>
    TCPSegment_parse TCPSegment_new (concat [hdr, seg_payload seg]) ck =
      Inr (NoError, seg\<lparr>seg_header := (seg_header seg)\<lparr>th_cksum := v\<rparr>\<rparr>)"
  using TCPSegment_roundtrip[OF assms, of TCPSegment_new] by auto

theorem tcp_segment_roundtrip_witness:
  "\<exists>hdr v. TCPSegment_serialize \<lparr>seg_header = TCPHeader_new\<lparr>th_syn := True, th_doff := 7\<rparr>, seg_payload = [1, 2, 3]\<rparr> 77
      = Inr [hdr, [1, 2, 3]] \<and>
    TCPSegment_parse TCPSegment_new (concat [hdr, [1, 2, 3]]) 77 =
      Inr (NoError, \<lparr>seg_header = TCPHeader_new\<lparr>th_syn := True, th_doff := 7, th_cksum := v\<rparr>, seg_payload = [1, 2, 3]\<rparr>)"
  using tcp_segment_roundtrip[of "\<lparr>seg_header = TCPHeader_new\<lparr>th_syn := True, th_doff := 7\<rparr>, seg_payload = [1, 2, 3]\<rparr>" 77]
  by (simp add: tcp_segment_ok_def tcp_header_ok_def)

text \<open>A header that is too short is not written, and when it is read the segment parser still
reports success: \<open>TCPSegment::parse\<close> drops the result of the header parser, so a segment of
twenty zero-checksummed bytes with data offset 0 is accepted as an empty segment.\<close>

theorem tcp_short_header_accepted:
  "TCPHeader_serialize (TCPHeader_new\<lparr>th_doff := 4\<rparr>) = Inl (RuntimeError ''TCP header too short'') \<and>
   fst (TCPHeader_parse TCPHeader_new (NetParser_new (replicate 16 0 @ [0xff, 0xff] @ replicate 2 0))) = HeaderTooShort \<and>
   TCPSegment_parse TCPSegment_new (replicate 16 0 @ [0xff, 0xff] @ replicate 2 0) 0 =
     Inr (NoError, \<lparr>seg_header = TCPHeader_new\<lparr>th_doff := 0, th_cksum := 0xffff\<rparr>, seg_payload = []\<rparr>)"
  by code_simp

end
