(* ===== verification/Ipv4_Datagram.thy ===== *)
theory Ipv4_Datagram
  imports Tcp_Segment
begin

text \<open>
  \<open>libsponge/tcp_helpers/ipv4_header.{hh,cc}\<close> and \<open>ipv4_datagram.{hh,cc}\<close>: the IPv4 header and the
  datagram with their wire format.
\<close>

section \<open>Header\<close>

record IPv4Header =
  ih_ver :: u8
  ih_hlen :: u8
  ih_tos :: u8
  ih_len :: u16
  ih_id :: u16
  ih_df :: bool
  ih_mf :: bool
  ih_offset :: u16
  ih_ttl :: u8
  ih_proto :: u8
  ih_cksum :: u16
  ih_src :: u32
  ih_dst :: u32

definition PROTO_TCP :: u8 where
  "PROTO_TCP = 6"

definition IPv4Header_new :: IPv4Header where
  "IPv4Header_new =
     \<lparr>ih_ver = 4, ih_hlen = 5, ih_tos = 0, ih_len = 0, ih_id = 0, ih_df = True, ih_mf = False,
      ih_offset = 0, ih_ttl = 128, ih_proto = PROTO_TCP, ih_cksum = 0, ih_src = 0, ih_dst = 0\<rparr>"

definition IPv4Header_parse ::
  "IPv4Header \<Rightarrow> NetParser \<Rightarrow> (ParseResult \<times> IPv4Header \<times> NetParser) result" where
  "IPv4Header_parse h p0 =
     (let original_serialized_version = np_buffer p0;
          data_size = length (np_buffer p0)
      in if data_size < 20 then Inr (PacketTooShort, h, p0)
         else
           let (first_byte, p1) = NetParser_u8 p0;
               (tos, p2) = NetParser_u8 p1;
               (len, p3) = NetParser_u16 p2;
               (id, p4) = NetParser_u16 p3;
               (fo_val, p5) = NetParser_u16 p4;
               (ttl, p6) = NetParser_u8 p5;
               (proto, p7) = NetParser_u8 p6;
               (cksum, p8) = NetParser_u16 p7;
               (src, p9) = NetParser_u32 p8;
               (dst, p10) = NetParser_u32 p9;
               ver = drop_bit 4 first_byte;
               hlen = and first_byte 0x0f;
               h' = \<lparr>ih_ver = ver, ih_hlen = hlen, ih_tos = tos, ih_len = len, ih_id = id,
                     ih_df = (and fo_val 0x4000 \<noteq> 0), ih_mf = (and fo_val 0x2000 \<noteq> 0),
                     ih_offset = and fo_val 0x1fff, ih_ttl = ttl, ih_proto = proto,
                     ih_cksum = cksum, ih_src = src, ih_dst = dst\<rparr>
           in if data_size < 4 * unat hlen then Inr (PacketTooShort, h', p10)
              else if ver \<noteq> 4 then Inr (WrongIPVersion, h', p10)
              else if hlen < 5 then Inr (HeaderTooShort, h', p10)
              else if data_size \<noteq> unat len then Inr (TruncatedPacket, h', p10)
              else
                let p11 = NetParser_remove_prefix p10 (unat hlen * 4 - 20)
                in if NetParser_error p11 then Inr (NetParser_get_error p11, h', p11)
                   else andthen (InternetChecksum_value (InternetChecksum_add (InternetChecksum_new 0)
                                   (take (4 * unat hlen) original_serialized_version)))
                          (\<lambda>v. if v \<noteq> 0 then Inr (BadChecksum, h', p11)
                               else Inr (NoError, h', p11)))"

definition IPv4Header_serialize :: "IPv4Header \<Rightarrow> bytes result" where
  "IPv4Header_serialize h =
     (if ih_ver h \<noteq> 4 then Inl (RuntimeError ''wrong IP version'')
      else if 4 * unat (ih_hlen h) < 20 then Inl (RuntimeError ''IP header too short'')
      else
        let first_byte = or (push_bit 4 (ih_ver h)) (and (ih_hlen h) 0xf);
            r1 = NetUnparser_u8 [] first_byte;
            r2 = NetUnparser_u8 r1 (ih_tos h);
            r3 = NetUnparser_u16 r2 (ih_len h);
            r4 = NetUnparser_u16 r3 (ih_id h);
            fo_val = or (or (if ih_df h then 0x4000 else 0) (if ih_mf h then 0x2000 else 0))
                       (and (ih_offset h) 0x1fff);
            r5 = NetUnparser_u16 r4 fo_val;
            r6 = NetUnparser_u8 r5 (ih_ttl h);
            r7 = NetUnparser_u8 r6 (ih_proto h);
            r8 = NetUnparser_u16 r7 (ih_cksum h);
            r9 = NetUnparser_u32 r8 (ih_src h);
            r10 = NetUnparser_u32 r9 (ih_dst h)
        in Inr (resize r10 (4 * unat (ih_hlen h))))"

definition IPv4Header_payload_length :: "IPv4Header \<Rightarrow> u16" where
  "IPv4Header_payload_length h = ih_len h - 4 * ucast (ih_hlen h)"

definition IPv4Header_pseudo_cksum :: "IPv4Header \<Rightarrow> u32" where
  "IPv4Header_pseudo_cksum h =
     (let c1 = drop_bit 16 (ih_src h) + and (ih_src h) 0xffff;
          c2 = c1 + (drop_bit 16 (ih_dst h) + and (ih_dst h) 0xffff);
          c3 = c2 + ucast (ih_proto h);
          c4 = c3 + ucast (IPv4Header_payload_length h)
      in c4)"

section \<open>Datagram\<close>

record IPv4Datagram =
  dg_header :: IPv4Header
  dg_payload :: "bytes list"

type_synonym InternetDatagram = IPv4Datagram

definition IPv4Datagram_new :: IPv4Datagram where
  "IPv4Datagram_new = \<lparr>dg_header = IPv4Header_new, dg_payload = []\<rparr>"

definition IPv4Datagram_parse :: "IPv4Datagram \<Rightarrow> bytes \<Rightarrow> (ParseResult \<times> IPv4Datagram) result" where
  "IPv4Datagram_parse dg buffer =
     andthen (IPv4Header_parse (dg_header dg) (NetParser_new buffer)) (\<lambda>(_, h, p).
       let payload = [np_buffer p];
           dg' = \<lparr>dg_header = h, dg_payload = payload\<rparr>
       in if length (concat payload) \<noteq> unat (IPv4Header_payload_length h) then Inr (PacketTooShort, dg')
          else Inr (NetParser_get_error p, dg'))"

definition IPv4Datagram_serialize :: "IPv4Datagram \<Rightarrow> bytes list result" where
  "IPv4Datagram_serialize dg =
     (if length (concat (dg_payload dg)) \<noteq> unat (IPv4Header_payload_length (dg_header dg))
      then Inl (RuntimeError ''IPv4Datagram::serialize: payload is wrong size'')
      else
        let header_out = (dg_header dg)\<lparr>ih_cksum := 0\<rparr>
        in andthen (IPv4Header_serialize header_out) (\<lambda>header_zero_checksum.
           andthen (InternetChecksum_value
                      (InternetChecksum_add (InternetChecksum_new 0) header_zero_checksum)) (\<lambda>v.
           andthen (IPv4Header_serialize (header_out\<lparr>ih_cksum := v\<rparr>)) (\<lambda>s.
           Inr ([] @ [s] @ dg_payload dg)))))"

section \<open>Round trip of the header\<close>

lemma and_mask_small:
  "unat (h :: u8) < 16 \<Longrightarrow> and h 0xf = h" "unat (x :: u16) < 0x2000 \<Longrightarrow> and x 0x1fff = x"
proof -
  have m: "(0xf :: u8) = mask 4" "(0x1fff :: u16) = mask 13" by (simp_all add: mask_eq_exp_minus_1)
  show "unat h < 16 \<Longrightarrow> and h 0xf = h"
    unfolding m take_bit_eq_mask[symmetric]
    by (simp add: word_unat_eq_iff unsigned_take_bit_eq take_bit_nat_eq_self)
  show "unat x < 0x2000 \<Longrightarrow> and x 0x1fff = x"
    unfolding m take_bit_eq_mask[symmetric]
    by (simp add: word_unat_eq_iff unsigned_take_bit_eq take_bit_nat_eq_self)
qed

lemma first_byte_fields:
  assumes "unat (h :: u8) < 16"
  shows "drop_bit 4 (or (push_bit 4 4) (and h 0xf)) = (4 :: u8)"
    and "and (or (push_bit 4 4) (and h 0xf)) 0xf = h"
proof -
  show "drop_bit 4 (or (push_bit 4 4) (and h 0xf)) = (4 :: u8)"
    by (simp add: drop_bit_or drop_bit_and)
  have "and (or (push_bit 4 4) (and h 0xf)) 0xf = or (and (push_bit 4 4) 0xf) (and (and h 0xf) (0xf :: u8))"
    by (rule bit.conj_disj_distrib2)
  also have "\<dots> = h" using assms by (simp add: and_mask_small)
  finally show "and (or (push_bit 4 4) (and h 0xf)) 0xf = h" .
qed

definition ip_fo_val :: "IPv4Header \<Rightarrow> u16" where
  "ip_fo_val h = or (or (if ih_df h then 0x4000 else 0) (if ih_mf h then 0x2000 else 0))
     (and (ih_offset h) 0x1fff)"

lemma fo_val_fields:
  "and (ip_fo_val h) 0x4000 \<noteq> 0 \<longleftrightarrow> ih_df h" "and (ip_fo_val h) 0x2000 \<noteq> 0 \<longleftrightarrow> ih_mf h"
  "unat (ih_offset h) < 0x2000 \<Longrightarrow> and (ip_fo_val h) 0x1fff = ih_offset h"
  by (cases "ih_df h"; cases "ih_mf h";
      simp add: ip_fo_val_def bit.conj_disj_distrib2 and.assoc and_mask_small)+


definition ip_first_byte :: "IPv4Header \<Rightarrow> u8" where
  "ip_first_byte h = or (push_bit 4 (ih_ver h)) (and (ih_hlen h) 0xf)"

definition ip_front :: "IPv4Header \<Rightarrow> bytes" where
  "ip_front h = NetUnparser_u8 [] (ip_first_byte h) @
     NetUnparser_u8 [] (ih_tos h) @ NetUnparser_u16 [] (ih_len h) @ NetUnparser_u16 [] (ih_id h) @
     NetUnparser_u16 [] (ip_fo_val h) @ NetUnparser_u8 [] (ih_ttl h) @ NetUnparser_u8 [] (ih_proto h)"

definition ip_rear :: "IPv4Header \<Rightarrow> bytes" where
  "ip_rear h = NetUnparser_u32 [] (ih_src h) @ NetUnparser_u32 [] (ih_dst h) @
     replicate (4 * unat (ih_hlen h) - 20) 0"

lemma ip_front_length [simp]: "length (ip_front h) = 10"
  by (simp add: ip_front_def)

lemma ip_parts_cksum [simp]:
  "ip_front (h\<lparr>ih_cksum := c\<rparr>) = ip_front h" "ip_rear (h\<lparr>ih_cksum := c\<rparr>) = ip_rear h"
  by (simp_all add: ip_front_def ip_rear_def ip_fo_val_def ip_first_byte_def)

definition ip_header_ok :: "IPv4Header \<Rightarrow> bool" where
  "ip_header_ok h \<longleftrightarrow> ih_ver h = 4 \<and> 5 \<le> unat (ih_hlen h) \<and> unat (ih_hlen h) < 16 \<and>
     unat (ih_offset h) < 0x2000"

lemma ip_header_fields:
  assumes "ip_header_ok h"
  shows "drop_bit 4 (ip_first_byte h) = ih_ver h" "and (ip_first_byte h) 0xf = ih_hlen h"
    "and (ip_fo_val h) 0x1fff = ih_offset h"
  using assms first_byte_fields[of "ih_hlen h"] fo_val_fields(3)[of h]
  unfolding ip_header_ok_def ip_first_byte_def by simp_all

lemma ip_rear_length: "ip_header_ok h \<Longrightarrow> length (ip_rear h) = 4 * unat (ih_hlen h) - 12"
  by (simp add: ip_rear_def ip_header_ok_def)

lemma IPv4Header_layout:
  assumes "ip_header_ok h"
  shows "IPv4Header_serialize h = Inr (ip_front h @ NetUnparser_u16 [] (ih_cksum h) @ ip_rear h)"
  using assms unfolding IPv4Header_serialize_def ip_fo_val_def[symmetric] ip_first_byte_def[symmetric] Let_def ip_header_ok_def
  by (simp add: unparse_chain resize_extend ip_front_def ip_rear_def)

lemma IPv4Header_parse_layout:
  fixes rest :: bytes
  assumes ok: "ip_header_ok h" and len: "unat (ih_len h) = 4 * unat (ih_hlen h) + length rest"
    and ck: "InternetChecksum_value (InternetChecksum_add (InternetChecksum_new 0)
      (ip_front h @ NetUnparser_u16 [] (ih_cksum h) @ ip_rear h)) = Inr 0"
  shows "IPv4Header_parse h0 (NetParser_new (ip_front h @ NetUnparser_u16 [] (ih_cksum h) @ ip_rear h @ rest)) =
    Inr (NoError, h, NetParser_new rest)"
proof -
  let ?s = "ip_front h @ NetUnparser_u16 [] (ih_cksum h) @ ip_rear h @ rest"
  have hl: "5 \<le> unat (ih_hlen h)" "unat (ih_hlen h) < 16" "ih_ver h = 4" "unat (ih_offset h) < 0x2000"
    using ok by (simp_all add: ip_header_ok_def)
  have size: "length ?s = unat (ih_len h)"
    using hl by (simp add: len ip_rear_length[OF ok])
  have tk: "take (4 * unat (ih_hlen h)) ?s = ip_front h @ NetUnparser_u16 [] (ih_cksum h) @ ip_rear h"
    using hl by (simp add: ip_rear_length[OF ok])
  have cond: "\<not> unat (ih_len h) < 20" "\<not> unat (ih_len h) < 4 * unat (ih_hlen h)" "\<not> ih_hlen h < 5"
    using hl len by (simp_all add: word_less_nat_alt)
  have "NetParser_new ?s = NetParser_new (NetUnparser_u8 [] (ip_first_byte h) @
      NetUnparser_u8 [] (ih_tos h) @ NetUnparser_u16 [] (ih_len h) @ NetUnparser_u16 [] (ih_id h) @
      NetUnparser_u16 [] (ip_fo_val h) @ NetUnparser_u8 [] (ih_ttl h) @ NetUnparser_u8 [] (ih_proto h) @
      NetUnparser_u16 [] (ih_cksum h) @ NetUnparser_u32 [] (ih_src h) @ NetUnparser_u32 [] (ih_dst h) @
      replicate (4 * unat (ih_hlen h) - 20) 0 @ rest)"
    by (simp add: ip_front_def ip_rear_def)
  then show ?thesis
    unfolding IPv4Header_parse_def np_new_simps size Let_def
    using cond hl
    by (simp add: field_reads ip_header_fields[OF ok] fo_val_fields NetParser_remove_prefix_new
        mult.commute[of _ 4] tk ck del: add_append take_append)
qed


section \<open>Round trip of the datagram\<close>

definition datagram_ok :: "IPv4Datagram \<Rightarrow> bool" where
  "datagram_ok dg \<longleftrightarrow> ip_header_ok (dg_header dg) \<and>
     unat (ih_len (dg_header dg)) = 4 * unat (ih_hlen (dg_header dg)) + length (concat (dg_payload dg))"

lemma payload_length_ok:
  assumes "ip_header_ok h" and "unat (ih_len h) = 4 * unat (ih_hlen h) + n"
  shows "unat (IPv4Header_payload_length h) = n"
proof -
  have h: "unat (ih_hlen h) < 16" using assms(1) by (simp add: ip_header_ok_def)
  have four: "unat (4 * ucast (ih_hlen h) :: u16) = 4 * unat (ih_hlen h)"
    using h by (simp add: unat_word_ariths)
  have "4 * ucast (ih_hlen h) \<le> ih_len h" using assms(2) four by (simp add: word_le_nat_alt)
  then show ?thesis using assms(2) four by (simp add: IPv4Header_payload_length_def unat_sub)
qed

lemma IPv4Datagram_roundtrip:
  assumes ok: "datagram_ok dg"
  shows "\<exists>hdr v. IPv4Datagram_serialize dg = Inr (hdr # dg_payload dg) \<and>
    IPv4Datagram_parse dg0 (hdr @ concat (dg_payload dg)) =
      Inr (NoError, \<lparr>dg_header = (dg_header dg)\<lparr>ih_cksum := v\<rparr>, dg_payload = [concat (dg_payload dg)]\<rparr>)"
proof -
  let ?h = "dg_header dg" and ?pl = "concat (dg_payload dg)"
  let ?f = "ip_front ?h" and ?r = "ip_rear ?h"
  have hok: "ip_header_ok ?h" and okc: "ip_header_ok (?h\<lparr>ih_cksum := c\<rparr>)" for c
    using ok by (simp_all add: datagram_ok_def ip_header_ok_def)
  have len: "unat (ih_len ?h) = 4 * unat (ih_hlen ?h) + length ?pl" using ok by (simp add: datagram_ok_def)
  define v where "v = projr (InternetChecksum_value (InternetChecksum_add
    (InternetChecksum_new 0) (?f @ NetUnparser_u16 [] 0 @ ?r)))"
  have v: "InternetChecksum_value (InternetChecksum_add
      (InternetChecksum_new 0) (?f @ NetUnparser_u16 [] 0 @ ?r)) = Inr v"
    by (simp add: v_def value_spec)
  let ?hdr = "?f @ NetUnparser_u16 [] v @ ?r" and ?hv = "?h\<lparr>ih_cksum := v\<rparr>"
  have pl: "unat (IPv4Header_payload_length ?h) = length ?pl" "unat (IPv4Header_payload_length ?hv) = length ?pl"
    using payload_length_ok[OF hok len] payload_length_ok[OF okc[of v]] len by simp_all
  have ser: "IPv4Datagram_serialize dg = Inr (?hdr # dg_payload dg)"
    using v pl by (simp add: IPv4Datagram_serialize_def IPv4Header_layout[OF okc])
  have "InternetChecksum_value (InternetChecksum_add (InternetChecksum_new 0) ?hdr) = Inr 0"
  proof (rule checksum_complement_sum[OF _ _ _ v])
    show "length ?f + length ?r < 2 ^ 16"
      using hok unfolding ip_rear_length[OF hok] ip_header_ok_def by simp linarith
  qed simp_all
  then have "IPv4Header_parse (dg_header dg0) (NetParser_new (?hdr @ ?pl)) = Inr (NoError, ?hv, NetParser_new ?pl)"
    using IPv4Header_parse_layout[OF okc[of v], of ?pl "dg_header dg0"] len by simp
  then have "IPv4Datagram_parse dg0 (?hdr @ ?pl) = Inr (NoError, \<lparr>dg_header = ?hv, dg_payload = [?pl]\<rparr>)"
    using pl by (simp add: IPv4Datagram_parse_def)
  with ser show ?thesis by blast
qed

definition dg_same :: "IPv4Datagram \<Rightarrow> IPv4Datagram \<Rightarrow> bool" where
  "dg_same dg dg' \<longleftrightarrow> concat (dg_payload dg) = concat (dg_payload dg') \<and>
     (dg_header dg)\<lparr>ih_cksum := 0\<rparr> = (dg_header dg')\<lparr>ih_cksum := 0\<rparr>"

interpretation dg_wire: wire_format datagram_ok
  "\<lambda>dg. andthen (IPv4Datagram_serialize dg) (\<lambda>bl. Inr (concat bl))"
  "IPv4Datagram_parse IPv4Datagram_new" dg_same
proof
  fix dg assume "datagram_ok dg"
  then show "\<exists>s dg'. andthen (IPv4Datagram_serialize dg) (\<lambda>bl. Inr (concat bl)) = Inr s \<and>
      IPv4Datagram_parse IPv4Datagram_new s = Inr (NoError, dg') \<and> dg_same dg dg'"
    using IPv4Datagram_roundtrip[of dg IPv4Datagram_new] by (auto simp: dg_same_def)
next
  show "equivp dg_same"
    by (rule equivpI) (auto simp: dg_same_def reflp_def symp_def transp_def)
qed

text \<open>C31: A datagram survives the wire: if the header is version 4 with a header length between 5 and
15 words, its total length is that of header and payload, and the fragment offset fits its field,
then \<open>serialize\<close> succeeds and \<open>parse\<close> of the bytes returns \<open>NoError\<close> with the same payload and the
same header up to the checksum.\<close>

theorem ipv4_datagram_roundtrip:
  assumes "datagram_ok dg"
  shows "\<exists>bl dg'. IPv4Datagram_serialize dg = Inr bl \<and>
    IPv4Datagram_parse IPv4Datagram_new (concat bl) = Inr (NoError, dg') \<and> dg_same dg dg'"
  using dg_wire.roundtrip[OF assms] by (auto simp: andthen_Inr_iff)

theorem ipv4_datagram_roundtrip_witness:
  "\<exists>bl dg'. IPv4Datagram_serialize \<lparr>dg_header = IPv4Header_new\<lparr>ih_len := 23, ih_src := 7\<rparr>, dg_payload = [[1], [2, 3]]\<rparr> = Inr bl \<and>
    IPv4Datagram_parse IPv4Datagram_new (concat bl) = Inr (NoError, dg') \<and>
    dg_same \<lparr>dg_header = IPv4Header_new\<lparr>ih_len := 23, ih_src := 7\<rparr>, dg_payload = [[1], [2, 3]]\<rparr> dg'"
  by (rule ipv4_datagram_roundtrip) (simp add: datagram_ok_def ip_header_ok_def IPv4Header_new_def)

text \<open>\<open>IPv4Datagram::parse\<close> does not look at the result of the header parser: a datagram whose
header fails the checksum test, and one of IP version 5, are both reported as \<open>NoError\<close>.\<close>

theorem ipv4_bad_header_accepted:
  "(let good = [0x45, 0, 0, 20, 0, 0, 0x40, 0, 128, 6, 0xfa, 0xdf, 0, 0, 0, 0, 0, 0, 0, 5];
        damaged = good[19 := 9];
        version5 = good[0 := 0x55]
    in map_sum id fst (IPv4Header_parse IPv4Header_new (NetParser_new good)) = Inr NoError \<and>
       map_sum id fst (IPv4Header_parse IPv4Header_new (NetParser_new damaged)) = Inr BadChecksum \<and>
       map_sum id fst (IPv4Datagram_parse IPv4Datagram_new damaged) = Inr NoError \<and>
       map_sum id fst (IPv4Header_parse IPv4Header_new (NetParser_new version5)) = Inr WrongIPVersion \<and>
       map_sum id fst (IPv4Datagram_parse IPv4Datagram_new version5) = Inr NoError)"
  by code_simp

end
