(* ===== verification/Ethernet_Frame.thy ===== *)
theory Ethernet_Frame
  imports Ipv4_Datagram
begin

text \<open>
  \<open>libsponge/tcp_helpers/ethernet_header.{hh,cc}\<close>, \<open>ethernet_frame.{hh,cc}\<close> and
  \<open>arp_message.{hh,cc}\<close>: Ethernet frames and ARP messages with their wire formats. An
  \<open>EthernetAddress\<close>, an array of six bytes, is a constructor with six arguments.
\<close>

section \<open>Addresses\<close>

datatype EthernetAddress = EthernetAddress u8 u8 u8 u8 u8 u8

fun EthernetAddress_bytes :: "EthernetAddress \<Rightarrow> bytes" where
  "EthernetAddress_bytes (EthernetAddress a b c d e f) = [a, b, c, d, e, f]"

definition ETHERNET_BROADCAST :: EthernetAddress where
  "ETHERNET_BROADCAST = EthernetAddress 0xff 0xff 0xff 0xff 0xff 0xff"

definition EthernetAddress_zero :: EthernetAddress where
  "EthernetAddress_zero = EthernetAddress 0 0 0 0 0 0"

text \<open>The loops \<open>for (auto &byte : address)\<close> of the parsers and serializers.\<close>

definition EthernetAddress_parse :: "NetParser \<Rightarrow> EthernetAddress \<times> NetParser" where
  "EthernetAddress_parse p0 =
     (let (a, p1) = NetParser_u8 p0; (b, p2) = NetParser_u8 p1; (c, p3) = NetParser_u8 p2;
          (d, p4) = NetParser_u8 p3; (e, p5) = NetParser_u8 p4; (f, p6) = NetParser_u8 p5
      in (EthernetAddress a b c d e f, p6))"

definition EthernetAddress_unparse :: "bytes \<Rightarrow> EthernetAddress \<Rightarrow> bytes" where
  "EthernetAddress_unparse s addr = foldl NetUnparser_u8 s (EthernetAddress_bytes addr)"

section \<open>Header and frame\<close>

record EthernetHeader =
  eh_dst :: EthernetAddress
  eh_src :: EthernetAddress
  eh_type :: u16

definition TYPE_IPv4 :: u16 where
  "TYPE_IPv4 = 0x800"

definition TYPE_ARP :: u16 where
  "TYPE_ARP = 0x806"

definition EthernetHeader_new :: EthernetHeader where
  "EthernetHeader_new = \<lparr>eh_dst = EthernetAddress_zero, eh_src = EthernetAddress_zero, eh_type = 0\<rparr>"

definition EthernetHeader_parse ::
  "EthernetHeader \<Rightarrow> NetParser \<Rightarrow> ParseResult \<times> EthernetHeader \<times> NetParser" where
  "EthernetHeader_parse h p0 =
     (if length (np_buffer p0) < 14 then (PacketTooShort, h, p0)
      else
        let (dst, p1) = EthernetAddress_parse p0;
            (src, p2) = EthernetAddress_parse p1;
            (type, p3) = NetParser_u16 p2
        in (NetParser_get_error p3, \<lparr>eh_dst = dst, eh_src = src, eh_type = type\<rparr>, p3))"

definition EthernetHeader_serialize :: "EthernetHeader \<Rightarrow> bytes" where
  "EthernetHeader_serialize h =
     (let r1 = EthernetAddress_unparse [] (eh_dst h);
          r2 = EthernetAddress_unparse r1 (eh_src h)
      in NetUnparser_u16 r2 (eh_type h))"

record EthernetFrame =
  ef_header :: EthernetHeader
  ef_payload :: "bytes list"

definition EthernetFrame_new :: EthernetFrame where
  "EthernetFrame_new = \<lparr>ef_header = EthernetHeader_new, ef_payload = []\<rparr>"

definition EthernetFrame_parse :: "EthernetFrame \<Rightarrow> bytes \<Rightarrow> ParseResult \<times> EthernetFrame" where
  "EthernetFrame_parse fr buffer =
     (let (_, h, p) = EthernetHeader_parse (ef_header fr) (NetParser_new buffer)
      in (NetParser_get_error p, \<lparr>ef_header = h, ef_payload = [np_buffer p]\<rparr>))"

definition EthernetFrame_serialize :: "EthernetFrame \<Rightarrow> bytes list" where
  "EthernetFrame_serialize fr = [] @ [EthernetHeader_serialize (ef_header fr)] @ ef_payload fr"

section \<open>ARP messages\<close>

record ARPMessage =
  arp_hardware_type :: u16
  arp_protocol_type :: u16
  arp_hardware_address_size :: u8
  arp_protocol_address_size :: u8
  arp_opcode :: u16
  arp_sender_ethernet_address :: EthernetAddress
  arp_sender_ip_address :: u32
  arp_target_ethernet_address :: EthernetAddress
  arp_target_ip_address :: u32

definition TYPE_ETHERNET :: u16 where
  "TYPE_ETHERNET = 1"

definition OPCODE_REQUEST :: u16 where
  "OPCODE_REQUEST = 1"

definition OPCODE_REPLY :: u16 where
  "OPCODE_REPLY = 2"

definition ARPMessage_new :: ARPMessage where
  "ARPMessage_new =
     \<lparr>arp_hardware_type = TYPE_ETHERNET, arp_protocol_type = TYPE_IPv4,
      arp_hardware_address_size = 6, arp_protocol_address_size = 4, arp_opcode = 0,
      arp_sender_ethernet_address = EthernetAddress_zero, arp_sender_ip_address = 0,
      arp_target_ethernet_address = EthernetAddress_zero, arp_target_ip_address = 0\<rparr>"

definition ARPMessage_supported :: "ARPMessage \<Rightarrow> bool" where
  "ARPMessage_supported m \<longleftrightarrow>
     arp_hardware_type m = TYPE_ETHERNET \<and> arp_protocol_type m = TYPE_IPv4 \<and>
     arp_hardware_address_size m = 6 \<and> arp_protocol_address_size m = 4 \<and>
     (arp_opcode m = OPCODE_REQUEST \<or> arp_opcode m = OPCODE_REPLY)"

definition ARPMessage_parse :: "ARPMessage \<Rightarrow> bytes \<Rightarrow> ParseResult \<times> ARPMessage" where
  "ARPMessage_parse m buffer =
     (let p0 = NetParser_new buffer
      in if length (np_buffer p0) < 28 then (PacketTooShort, m)
         else
           let (hardware_type, p1) = NetParser_u16 p0;
               (protocol_type, p2) = NetParser_u16 p1;
               (hardware_address_size, p3) = NetParser_u8 p2;
               (protocol_address_size, p4) = NetParser_u8 p3;
               (opcode, p5) = NetParser_u16 p4;
               m1 = m\<lparr>arp_hardware_type := hardware_type, arp_protocol_type := protocol_type,
                      arp_hardware_address_size := hardware_address_size,
                      arp_protocol_address_size := protocol_address_size, arp_opcode := opcode\<rparr>
           in if \<not> ARPMessage_supported m1 then (Unsupported, m1)
              else
                let (sender_eth, p6) = EthernetAddress_parse p5;
                    (sender_ip, p7) = NetParser_u32 p6;
                    (target_eth, p8) = EthernetAddress_parse p7;
                    (target_ip, p9) = NetParser_u32 p8
                in (NetParser_get_error p9,
                    m1\<lparr>arp_sender_ethernet_address := sender_eth, arp_sender_ip_address := sender_ip,
                       arp_target_ethernet_address := target_eth, arp_target_ip_address := target_ip\<rparr>))"

definition ARPMessage_serialize :: "ARPMessage \<Rightarrow> bytes result" where
  "ARPMessage_serialize m =
     (if \<not> ARPMessage_supported m
      then Inl (RuntimeError ''ARPMessage::serialize(): unsupported field combination (must be Ethernet/IP, and request or reply)'')
      else
        let r1 = NetUnparser_u16 [] (arp_hardware_type m);
            r2 = NetUnparser_u16 r1 (arp_protocol_type m);
            r3 = NetUnparser_u8 r2 (arp_hardware_address_size m);
            r4 = NetUnparser_u8 r3 (arp_protocol_address_size m);
            r5 = NetUnparser_u16 r4 (arp_opcode m);
            r6 = EthernetAddress_unparse r5 (arp_sender_ethernet_address m);
            r7 = NetUnparser_u32 r6 (arp_sender_ip_address m);
            r8 = EthernetAddress_unparse r7 (arp_target_ethernet_address m);
            r9 = NetUnparser_u32 r8 (arp_target_ip_address m)
        in Inr r9)"

section \<open>Round trips\<close>

lemma eth_unparse_map:
  "EthernetAddress_unparse s a = s @ concat (map (NetUnparser_u8 []) (EthernetAddress_bytes a))"
  by (simp add: EthernetAddress_unparse_def u8_field.foldl_unparse)

lemma eth_roundtrip:
  "EthernetAddress_parse (NetParser_new (EthernetAddress_unparse [] a @ rest)) = (a, NetParser_new rest)"
  by (cases a) (simp add: eth_unparse_map EthernetAddress_parse_def field_reads)

lemma eth_width [simp]: "length (EthernetAddress_unparse [] a) = 6"
  by (cases a) (simp add: eth_unparse_map)

lemma eth_chain: "s \<noteq> [] \<Longrightarrow> EthernetAddress_unparse s a = s @ EthernetAddress_unparse [] a"
  by (simp add: eth_unparse_map)

lemma eth_nonempty [simp]: "EthernetAddress_unparse s a \<noteq> []"
  by (cases a) (simp add: eth_unparse_map)

lemma EthernetHeader_layout:
  "EthernetHeader_serialize h =
     EthernetAddress_unparse [] (eh_dst h) @ EthernetAddress_unparse [] (eh_src h) @ NetUnparser_u16 [] (eh_type h)"
  by (simp add: EthernetHeader_serialize_def eth_chain unparse_chain)

lemma EthernetFrame_roundtrip:
  "EthernetFrame_parse fr0 (concat (EthernetFrame_serialize fr)) =
     (NoError, \<lparr>ef_header = ef_header fr, ef_payload = [concat (ef_payload fr)]\<rparr>)"
  by (simp add: EthernetFrame_parse_def EthernetFrame_serialize_def EthernetHeader_layout
      EthernetHeader_parse_def eth_roundtrip field_reads)

lemma ARPMessage_roundtrip:
  assumes "ARPMessage_supported m"
  shows "\<exists>s. ARPMessage_serialize m = Inr s \<and> length s = 28 \<and> ARPMessage_parse m0 (s @ rest) = (NoError, m)"
  using assms
  by (simp add: ARPMessage_serialize_def ARPMessage_parse_def unparse_chain eth_chain eth_roundtrip field_reads)
    (auto simp: ARPMessage_supported_def Let_def eth_roundtrip field_reads)

definition frame_same :: "EthernetFrame \<Rightarrow> EthernetFrame \<Rightarrow> bool" where
  "frame_same fr fr' \<longleftrightarrow> ef_header fr = ef_header fr' \<and> concat (ef_payload fr) = concat (ef_payload fr')"

interpretation frame_wire: wire_format "\<lambda>_. True" "\<lambda>fr. Inr (concat (EthernetFrame_serialize fr))"
  "\<lambda>s. Inr (EthernetFrame_parse EthernetFrame_new s)" frame_same
proof
  show "\<exists>s fr'. Inr (concat (EthernetFrame_serialize fr)) = (Inr s :: bytes result) \<and>
      Inr (EthernetFrame_parse EthernetFrame_new s) = (Inr (NoError, fr') :: (ParseResult \<times> EthernetFrame) result) \<and>
      frame_same fr fr'" for fr
    by (simp add: EthernetFrame_roundtrip frame_same_def)
  show "equivp frame_same"
    by (rule equivpI) (auto simp: frame_same_def reflp_def symp_def transp_def)
qed

interpretation arp_wire: wire_format ARPMessage_supported ARPMessage_serialize
  "\<lambda>s. Inr (ARPMessage_parse ARPMessage_new s)" "(=)"
proof
  fix m assume "ARPMessage_supported m"
  then show "\<exists>s m'. ARPMessage_serialize m = Inr s \<and>
      Inr (ARPMessage_parse ARPMessage_new s) = (Inr (NoError, m') :: (ParseResult \<times> ARPMessage) result) \<and> m = m'"
    using ARPMessage_roundtrip[of m ARPMessage_new "[]"] by auto
qed (rule identity_equivp)

text \<open>C32: A supported ARP message put into an Ethernet frame comes back: the frame parser recovers the
header and the ARP parser, applied to the payload, recovers the message; an unsupported message is
not serialized at all.\<close>

theorem arp_over_ethernet_roundtrip:
  "if ARPMessage_supported m
   then \<exists>s fr'. ARPMessage_serialize m = Inr s \<and>
      EthernetFrame_parse EthernetFrame_new (concat (EthernetFrame_serialize \<lparr>ef_header = h, ef_payload = [s]\<rparr>)) = (NoError, fr') \<and>
      ef_header fr' = h \<and> ARPMessage_parse ARPMessage_new (concat (ef_payload fr')) = (NoError, m)
   else \<exists>e. ARPMessage_serialize m = Inl (RuntimeError e)"
proof (cases "ARPMessage_supported m")
  case True
  then obtain s where "ARPMessage_serialize m = Inr s" "ARPMessage_parse ARPMessage_new (s @ []) = (NoError, m)"
    using ARPMessage_roundtrip[of m ARPMessage_new "[]"] by auto
  with True show ?thesis by (simp add: EthernetFrame_roundtrip)
qed (simp add: ARPMessage_serialize_def)

text \<open>\<open>EthernetFrame::parse\<close> ignores the result of the header parser, so a frame that is too short
to have a header is reported as \<open>NoError\<close>, with a zero header and all its bytes as payload.\<close>

theorem runt_frame_accepted:
  assumes "length s < 14"
  shows "EthernetFrame_parse EthernetFrame_new s = (NoError, \<lparr>ef_header = EthernetHeader_new, ef_payload = [s]\<rparr>) \<and>
    fst (EthernetHeader_parse EthernetHeader_new (NetParser_new s)) = PacketTooShort"
  using assms by (simp_all add: EthernetFrame_parse_def EthernetHeader_parse_def EthernetFrame_new_def)

theorem runt_frame_accepted_witness:
  "length [1 :: byte, 2, 3] < 14 \<and>
   EthernetFrame_parse EthernetFrame_new [1, 2, 3] = (NoError, \<lparr>ef_header = EthernetHeader_new, ef_payload = [[1, 2, 3]]\<rparr>) \<and>
   fst (EthernetHeader_parse EthernetHeader_new (NetParser_new [1, 2, 3])) = PacketTooShort"
  using runt_frame_accepted[of "[1, 2, 3]"] by simp

end
