(* ===== verification/Network_Interface.thy ===== *)
theory Network_Interface
  imports Addresses Ethernet_Frame "HOL-Library.AList"
begin

text \<open>
  \<open>libsponge/network_interface.{hh,cc}\<close>: datagrams go out in Ethernet frames to the link-layer address of
  the next hop, which is asked for with ARP, remembered for 30 s and asked for again after 5 s. The
  two hash maps the code iterates over are association lists, the other two are maps; no result
  depends on the order of iteration.
\<close>

section \<open>State and operations\<close>

record NetworkInterface =
  ni_ethernet_address :: EthernetAddress
  ni_ip_address :: Address
  ni_frames_out :: "EthernetFrame list"
  ni_since_last_sent :: "(u32 \<times> size_t) list"
  ni_cache_time :: "(u32 \<times> size_t) list"
  ni_cache :: "u32 \<rightharpoonup> EthernetAddress"
  ni_datagrams :: "u32 \<rightharpoonup> InternetDatagram list"

definition NetworkInterface_new :: "EthernetAddress \<Rightarrow> Address \<Rightarrow> NetworkInterface" where
  "NetworkInterface_new ethernet_address ip_address =
     \<lparr>ni_ethernet_address = ethernet_address, ni_ip_address = ip_address, ni_frames_out = [],
      ni_since_last_sent = [], ni_cache_time = [], ni_cache = Map.empty, ni_datagrams = Map.empty\<rparr>"

text \<open>\<open>BufferList::operator Buffer()\<close> on the strings of a payload.\<close>

definition payload_to_Buffer :: "bytes list \<Rightarrow> bytes result" where
  "payload_to_Buffer bl =
     (case bl of [] \<Rightarrow> Inr [] | [b] \<Rightarrow> Inr b
      | _ \<Rightarrow> Inl (RuntimeError ''BufferList: please use concatenate() to combine a multi-Buffer BufferList into one Buffer''))"

definition NetworkInterface_send_datagram ::
  "NetworkInterface \<Rightarrow> InternetDatagram \<Rightarrow> Address \<Rightarrow> NetworkInterface result" where
  "NetworkInterface_send_datagram ni dgram next_hop =
     andthen (Address_ipv4_numeric next_hop) (\<lambda>next_hop_ip.
       case ni_cache ni next_hop_ip of
         Some mac \<Rightarrow>
           andthen (IPv4Datagram_serialize dgram) (\<lambda>payload.
             let frame = \<lparr>ef_header = \<lparr>eh_dst = mac, eh_src = ni_ethernet_address ni, eh_type = TYPE_IPv4\<rparr>,
                          ef_payload = payload\<rparr>
             in Inr (ni\<lparr>ni_frames_out := ni_frames_out ni @ [frame]\<rparr>))
       | None \<Rightarrow>
           if (case map_of (ni_since_last_sent ni) next_hop_ip of None \<Rightarrow> True | Some t \<Rightarrow> 5000 \<le> t)
           then andthen (Address_ipv4_numeric (ni_ip_address ni)) (\<lambda>my_ip.
                let arp = ARPMessage_new\<lparr>arp_opcode := OPCODE_REQUEST, arp_sender_ip_address := my_ip,
                            arp_sender_ethernet_address := ni_ethernet_address ni,
                            arp_target_ip_address := next_hop_ip\<rparr>
                in andthen (ARPMessage_serialize arp) (\<lambda>s.
                   let frame = \<lparr>ef_header = \<lparr>eh_dst = ETHERNET_BROADCAST, eh_src = ni_ethernet_address ni,
                                             eh_type = TYPE_ARP\<rparr>,
                                ef_payload = [s]\<rparr>;
                       waiting = (case ni_datagrams ni next_hop_ip of None \<Rightarrow> [] | Some ls \<Rightarrow> ls)
                   in Inr (ni\<lparr>ni_since_last_sent := AList.update next_hop_ip 0 (ni_since_last_sent ni),
                              ni_frames_out := ni_frames_out ni @ [frame],
                              ni_datagrams := (ni_datagrams ni)(next_hop_ip \<mapsto> dgram # waiting)\<rparr>)))
           else Inr ni)"

text \<open>The loop that sends the datagrams that were waiting for an address.\<close>

fun send_waiting ::
  "EthernetAddress \<Rightarrow> EthernetAddress \<Rightarrow> InternetDatagram list \<Rightarrow> EthernetFrame list \<Rightarrow> EthernetFrame list result" where
  "send_waiting dst src [] out = Inr out"
| "send_waiting dst src (dg # wait) out =
     andthen (IPv4Datagram_serialize dg) (\<lambda>payload.
       send_waiting dst src wait
         (out @ [\<lparr>ef_header = \<lparr>eh_dst = dst, eh_src = src, eh_type = TYPE_IPv4\<rparr>, ef_payload = payload\<rparr>]))"

text \<open>The branch of \<open>recv_frame\<close> for an ARP message that was parsed.\<close>

definition NetworkInterface_recv_arp :: "NetworkInterface \<Rightarrow> ARPMessage \<Rightarrow> NetworkInterface result" where
  "NetworkInterface_recv_arp ni am =
     (let ip = arp_sender_ip_address am; mac = arp_sender_ethernet_address am;
          ni1 = ni\<lparr>ni_cache := (ni_cache ni)(ip \<mapsto> mac), ni_cache_time := AList.update ip 0 (ni_cache_time ni)\<rparr>
      in andthen
           (case ni_datagrams ni1 ip of
              None \<Rightarrow> Inr ni1
            | Some wait \<Rightarrow>
                andthen (send_waiting mac (ni_ethernet_address ni1) wait (ni_frames_out ni1)) (\<lambda>out.
                  Inr (ni1\<lparr>ni_frames_out := out, ni_datagrams := (ni_datagrams ni1)(ip := None)\<rparr>)))
           (\<lambda>ni2.
              if arp_opcode am = OPCODE_REQUEST
              then andthen (Address_ipv4_numeric (ni_ip_address ni2)) (\<lambda>my_ip.
                   if arp_target_ip_address am = my_ip
                   then let reply = ARPMessage_new\<lparr>arp_opcode := OPCODE_REPLY, arp_sender_ip_address := my_ip,
                              arp_sender_ethernet_address := ni_ethernet_address ni2,
                              arp_target_ip_address := ip, arp_target_ethernet_address := mac\<rparr>
                        in andthen (ARPMessage_serialize reply) (\<lambda>s.
                           let f = \<lparr>ef_header = \<lparr>eh_dst = mac, eh_src = ni_ethernet_address ni2, eh_type = TYPE_ARP\<rparr>,
                                    ef_payload = [s]\<rparr>
                           in Inr (ni2\<lparr>ni_frames_out := ni_frames_out ni2 @ [f]\<rparr>))
                   else Inr ni2)
              else Inr ni2))"

definition NetworkInterface_recv_frame ::
  "NetworkInterface \<Rightarrow> EthernetFrame \<Rightarrow> (InternetDatagram option \<times> NetworkInterface) result" where
  "NetworkInterface_recv_frame ni frame =
     (let hd0 = ef_header frame
      in if \<not> (eh_dst hd0 = ETHERNET_BROADCAST \<or> eh_dst hd0 = ni_ethernet_address ni) then Inr (None, ni)
         else if eh_type hd0 = TYPE_IPv4
         then andthen (payload_to_Buffer (ef_payload frame)) (\<lambda>b.
              andthen (IPv4Datagram_parse IPv4Datagram_new b) (\<lambda>(pr, dgram).
              Inr (if pr = NoError then Some dgram else None, ni)))
         else andthen (payload_to_Buffer (ef_payload frame)) (\<lambda>b.
              let (pr, am) = ARPMessage_parse ARPMessage_new b
              in if pr \<noteq> NoError then Inr (None, ni)
                 else andthen (NetworkInterface_recv_arp ni am) (\<lambda>ni'. Inr (None, ni'))))"

text \<open>
  The two loops of \<open>tick\<close>. In the first one \<open>cache.erase(cache.find(ip))\<close> is undefined when the address
  is not in the cache.
\<close>

fun tick_cache :: "size_t \<Rightarrow> (u32 \<times> size_t) list \<Rightarrow> (u32 \<rightharpoonup> EthernetAddress) \<Rightarrow>
  ((u32 \<times> size_t) list \<times> (u32 \<rightharpoonup> EthernetAddress)) result" where
  "tick_cache ms [] cache = Inr ([], cache)"
| "tick_cache ms ((ip, t) # rest) cache =
     (if 30000 \<le> t + ms
      then if cache ip = None then Inl (Undefined ''erase(end())'') else tick_cache ms rest (cache(ip := None))
      else andthen (tick_cache ms rest cache) (\<lambda>(m, c). Inr ((ip, t + ms) # m, c)))"

fun tick_since :: "size_t \<Rightarrow> (u32 \<times> size_t) list \<Rightarrow> (u32 \<times> size_t) list" where
  "tick_since ms [] = []"
| "tick_since ms ((ip, t) # rest) =
     (if 5000 \<le> t + ms then tick_since ms rest else (ip, t + ms) # tick_since ms rest)"

definition NetworkInterface_tick :: "NetworkInterface \<Rightarrow> size_t \<Rightarrow> NetworkInterface result" where
  "NetworkInterface_tick ni ms =
     andthen (tick_cache ms (ni_cache_time ni) (ni_cache ni)) (\<lambda>(ct, c).
       Inr (ni\<lparr>ni_cache_time := ct, ni_cache := c, ni_since_last_sent := tick_since ms (ni_since_last_sent ni)\<rparr>))"

section \<open>Tables whose entries age\<close>

text \<open>
  The contract of a table of ages: time passes for all entries alike, and an entry disappears with
  the first tick that takes it to the limit.
\<close>

locale aging_table =
  fixes inv :: "'s \<Rightarrow> bool"
    and age :: "'s \<Rightarrow> 'k \<Rightarrow> size_t option"
    and pass :: "size_t \<Rightarrow> 's \<Rightarrow> 's"
    and limit :: nat
  assumes pass_inv: "inv s \<Longrightarrow> inv (pass ms s)"
    and pass_age: "inv s \<Longrightarrow> age (pass ms s) k =
      (case age s k of None \<Rightarrow> None | Some t \<Rightarrow> if limit \<le> unat (t + ms) then None else Some (t + ms))"
begin

lemma passes_absent: "inv s \<Longrightarrow> age s k = None \<Longrightarrow> age (fold pass ts s) k = None"
  by (induction ts arbitrary: s) (simp_all add: pass_inv pass_age)

lemma passes_age:
  assumes "inv s" and "age s k = Some t" and "unat t + sum_list (map unat ts) < 2 ^ 64" and "unat t < limit"
  shows "age (fold pass ts s) k =
    (if unat t + sum_list (map unat ts) < limit then Some (t + of_nat (sum_list (map unat ts))) else None)"
  using assms
proof (induction ts arbitrary: s t)
  case Nil
  then show ?case by simp
next
  case (Cons m ts)
  have u: "unat (t + m) = unat t + unat m" using Cons.prems(3) by (intro unat_add_u64) simp
  show ?case
  proof (cases "limit \<le> unat t + unat m")
    case True
    then have "age (pass m s) k = None" using Cons.prems by (simp add: pass_age u)
    with True show ?thesis using passes_absent[OF pass_inv[OF Cons.prems(1)]] by simp
  next
    case False
    then have "age (pass m s) k = Some (t + m)" using Cons.prems by (simp add: pass_age u)
    from Cons.IH[OF pass_inv[OF Cons.prems(1)] this] False Cons.prems(3) show ?thesis
      by (simp add: u add.assoc)
  qed
qed

end

lemma tick_since_keys: "set (map fst (tick_since ms m)) \<subseteq> set (map fst m)"
  by (induction ms m rule: tick_since.induct) auto

lemma tick_since_distinct: "distinct (map fst m) \<Longrightarrow> distinct (map fst (tick_since ms m))"
proof (induction ms m rule: tick_since.induct)
  case (2 ms ip t rest)
  then show ?case using tick_since_keys[of ms rest] by auto
qed simp

lemma map_of_none: "map_of m k = None \<longleftrightarrow> k \<notin> set (map fst m)"
  by (simp add: map_of_eq_None_iff)

lemma map_of_tick_since:
  assumes "distinct (map fst m)"
  shows "map_of (tick_since ms m) k =
    (case map_of m k of None \<Rightarrow> None | Some t \<Rightarrow> if 5000 \<le> unat (t + ms) then None else Some (t + ms))"
  using assms
proof (induction ms m rule: tick_since.induct)
  case (2 ms ip t rest)
  have "map_of (tick_since ms rest) ip = None" if "map_of rest ip = None"
    using that tick_since_keys[of ms rest] unfolding map_of_none by blast
  moreover have "map_of rest ip = None" using 2(3) by (simp add: map_of_none)
  ultimately show ?case using 2 by (auto simp: word_le_nat_alt)
qed simp

interpretation arp_wait: aging_table "\<lambda>m. distinct (map fst m)" map_of tick_since 5000
  by unfold_locales (rule tick_since_distinct, assumption, rule map_of_tick_since, assumption)


section \<open>The cache and its ages\<close>

text \<open>Every cached address has an age, and only those.\<close>

definition in_step :: "(u32 \<times> size_t) list \<times> (u32 \<rightharpoonup> EthernetAddress) \<Rightarrow> bool" where
  "in_step = (\<lambda>(ct, c). distinct (map fst ct) \<and> dom c = set (map fst ct))"

lemma tick_cache_spec:
  assumes "distinct (map fst m)" and "set (map fst m) \<subseteq> dom c"
  shows "\<exists>m' c'. tick_cache ms m c = Inr (m', c') \<and> set (map fst m') \<subseteq> set (map fst m) \<and> distinct (map fst m') \<and>
    (\<forall>k. map_of m' k = (case map_of m k of None \<Rightarrow> None | Some t \<Rightarrow> if 30000 \<le> unat (t + ms) then None else Some (t + ms))) \<and>
    (\<forall>k. c' k = (if k \<in> set (map fst m) \<and> map_of m' k = None then None else c k))"
  using assms
proof (induction ms m c rule: tick_cache.induct)
  case (1 ms cache)
  then show ?case by simp
next
  case (2 ms ip t rest c)
  have d: "distinct (map fst rest)" "ip \<notin> set (map fst rest)" and sub: "set (map fst rest) \<subseteq> dom c" "c ip \<noteq> None"
    using 2(3,4) by auto
  have rest: "map_of rest ip = None" using d(2) by (simp add: map_of_none)
  show ?case
  proof (cases "30000 \<le> t + ms")
    case True
    have "set (map fst rest) \<subseteq> dom (c(ip := None))" using sub(1) d(2) by auto
    then obtain m' c' where IH: "tick_cache ms rest (c(ip := None)) = Inr (m', c')" "set (map fst m') \<subseteq> set (map fst rest)"
      "distinct (map fst m')"
      "\<forall>k. map_of m' k = (case map_of rest k of None \<Rightarrow> None | Some t \<Rightarrow> if 30000 \<le> unat (t + ms) then None else Some (t + ms))"
      "\<forall>k. c' k = (if k \<in> set (map fst rest) \<and> map_of m' k = None then None else (c(ip := None)) k)"
      using 2(1)[OF True sub(2) d(1)] by blast
    have run: "tick_cache ms ((ip, t) # rest) c = Inr (m', c')" using True sub(2) IH(1) by simp
    have "map_of m' ip = None" using IH(4) rest by simp
    then show ?thesis
      using IH(2-5) True rest unfolding run
      by (intro exI[of _ m'] exI[of _ c']) (auto simp: word_le_nat_alt)
  next
    case False
    obtain m' c' where IH: "tick_cache ms rest c = Inr (m', c')" "set (map fst m') \<subseteq> set (map fst rest)"
      "distinct (map fst m')"
      "\<forall>k. map_of m' k = (case map_of rest k of None \<Rightarrow> None | Some t \<Rightarrow> if 30000 \<le> unat (t + ms) then None else Some (t + ms))"
      "\<forall>k. c' k = (if k \<in> set (map fst rest) \<and> map_of m' k = None then None else c k)"
      using 2(2)[OF False d(1) sub(1)] by blast
    have run: "tick_cache ms ((ip, t) # rest) c = Inr ((ip, t + ms) # m', c')" using False IH(1) by simp
    have "ip \<notin> set (map fst m')" using IH(2) d(2) by blast
    then show ?thesis
      using IH(2-5) False d(2) unfolding run
      by (intro exI[of _ "(ip, t + ms) # m'"] exI[of _ c']) (auto simp: word_le_nat_alt)
  qed
qed

lemma tick_cache_ok:
  assumes "in_step (ct, c)"
  shows "\<exists>ct' c'. tick_cache ms ct c = Inr (ct', c') \<and> in_step (ct', c') \<and>
    (\<forall>k. map_of ct' k = (case map_of ct k of None \<Rightarrow> None | Some t \<Rightarrow> if 30000 \<le> unat (t + ms) then None else Some (t + ms))) \<and>
    (\<forall>k. c' k = (if map_of ct' k = None then None else c k))"
proof -
  have d: "distinct (map fst ct)" "dom c = set (map fst ct)" using assms by (auto simp: in_step_def)
  obtain ct' c' where T: "tick_cache ms ct c = Inr (ct', c')" "set (map fst ct') \<subseteq> set (map fst ct)" "distinct (map fst ct')"
    "\<forall>k. map_of ct' k = (case map_of ct k of None \<Rightarrow> None | Some t \<Rightarrow> if 30000 \<le> unat (t + ms) then None else Some (t + ms))"
    "\<forall>k. c' k = (if k \<in> set (map fst ct) \<and> map_of ct' k = None then None else c k)"
    using tick_cache_spec[OF d(1), of c ms] d(2) by blast
  have c': "c' k = (if map_of ct' k = None then None else c k)" for k
  proof (cases "k \<in> set (map fst ct)")
    case False
    then have "c k = None" using d(2) by blast
    then show ?thesis using T(5) by simp
  qed (use T(5) in simp)
  have "dom c' = set (map fst ct')"
  proof -
    have "k \<in> dom c' \<longleftrightarrow> k \<in> set (map fst ct')" for k
      using c'[of k] T(2) d(2) map_of_none[of ct' k] by (auto simp: dom_def)
    then show ?thesis by blast
  qed
  then show ?thesis using T(1,3,4) c' by (simp add: in_step_def)
qed

interpretation arp_cache: aging_table in_step "\<lambda>s. map_of (fst s)"
  "\<lambda>ms s. projr (tick_cache ms (fst s) (snd s))" 30000
proof
  fix s :: "(u32 \<times> size_t) list \<times> (u32 \<rightharpoonup> EthernetAddress)" and ms k
  assume "in_step s"
  then obtain ct' c' where "tick_cache ms (fst s) (snd s) = Inr (ct', c')" "in_step (ct', c')"
    "\<forall>k. map_of ct' k = (case map_of (fst s) k of None \<Rightarrow> None | Some t \<Rightarrow> if 30000 \<le> unat (t + ms) then None else Some (t + ms))"
    using tick_cache_ok[of "fst s" "snd s" ms] by auto
  then show "in_step (projr (tick_cache ms (fst s) (snd s)))"
    "map_of (fst (projr (tick_cache ms (fst s) (snd s)))) k =
      (case map_of (fst s) k of None \<Rightarrow> None | Some t \<Rightarrow> if 30000 \<le> unat (t + ms) then None else Some (t + ms))"
    by simp_all
qed

section \<open>Reachable interfaces\<close>

definition ni_ok :: "NetworkInterface \<Rightarrow> bool" where
  "ni_ok ni \<longleftrightarrow> in_step (ni_cache_time ni, ni_cache ni) \<and> distinct (map fst (ni_since_last_sent ni))"

inductive ni_step :: "NetworkInterface \<Rightarrow> NetworkInterface \<Rightarrow> bool" where
  ni_send: "NetworkInterface_send_datagram ni dgram next_hop = Inr ni' \<Longrightarrow> ni_step ni ni'"
| ni_recv: "NetworkInterface_recv_frame ni frame = Inr (r, ni') \<Longrightarrow> ni_step ni ni'"
| ni_tick: "NetworkInterface_tick ni ms = Inr ni' \<Longrightarrow> ni_step ni ni'"
| ni_take: "ni_frames_out ni = f # fs \<Longrightarrow> ni_step ni (ni\<lparr>ni_frames_out := fs\<rparr>)"

inductive ni_reach :: "NetworkInterface \<Rightarrow> NetworkInterface \<Rightarrow> bool" for ni0 where
  ni_start: "ni_reach ni0 ni0"
| ni_next: "ni_reach ni0 ni \<Longrightarrow> ni_step ni ni' \<Longrightarrow> ni_reach ni0 ni'"

lemma upd_keys: "distinct (map fst m) \<Longrightarrow> distinct (map fst (AList.update k v m))"
  "set (map fst (AList.update k v m)) = insert k (set (map fst m))"
  by (auto simp: distinct_update AList.update_keys)

lemma send_ok:
  assumes "ni_ok ni" and "NetworkInterface_send_datagram ni dgram next_hop = Inr ni'"
  shows "ni_ok ni'"
  using assms
  by (auto simp: NetworkInterface_send_datagram_def ni_ok_def andthen_Inr_iff Let_def distinct_update
      split: option.splits if_splits)

lemma recv_arp_state:
  assumes "NetworkInterface_recv_arp ni am = Inr ni'"
  shows "ni_cache ni' = (ni_cache ni)(arp_sender_ip_address am \<mapsto> arp_sender_ethernet_address am)"
    and "ni_cache_time ni' = AList.update (arp_sender_ip_address am) 0 (ni_cache_time ni)"
    and "ni_since_last_sent ni' = ni_since_last_sent ni"
  using assms
  by (auto simp: NetworkInterface_recv_arp_def andthen_Inr_iff Let_def split: option.splits if_splits)

lemma recv_arp_ok:
  assumes "ni_ok ni" and "NetworkInterface_recv_arp ni am = Inr ni'"
  shows "ni_ok ni'"
  using assms(1) recv_arp_state[OF assms(2)]
  by (simp add: ni_ok_def in_step_def upd_keys del: set_map)

lemma recv_ok:
  assumes "ni_ok ni" and "NetworkInterface_recv_frame ni frame = Inr (r, ni')"
  shows "ni_ok ni'"
  using assms recv_arp_ok
  by (auto simp: NetworkInterface_recv_frame_def andthen_Inr_iff Let_def case_prod_beta split: if_splits)

lemma tick_ok:
  assumes "ni_ok ni"
  shows "\<exists>ni'. NetworkInterface_tick ni ms = Inr ni' \<and> ni_ok ni' \<and>
    (ni_cache_time ni', ni_cache ni') = projr (tick_cache ms (ni_cache_time ni) (ni_cache ni)) \<and>
    (\<forall>k. ni_cache ni' k = (if map_of (ni_cache_time ni') k = None then None else ni_cache ni k)) \<and>
    ni_since_last_sent ni' = tick_since ms (ni_since_last_sent ni)"
proof -
  obtain ct c where T: "tick_cache ms (ni_cache_time ni) (ni_cache ni) = Inr (ct, c)" "in_step (ct, c)"
    "\<forall>k. c k = (if map_of ct k = None then None else ni_cache ni k)"
    using tick_cache_ok[of "ni_cache_time ni" "ni_cache ni" ms] assms by (auto simp: ni_ok_def)
  then show ?thesis
    using assms tick_since_distinct by (simp add: NetworkInterface_tick_def ni_ok_def)
qed

lemma new_ok: "ni_ok (NetworkInterface_new eth ip)"
  by (simp add: NetworkInterface_new_def ni_ok_def in_step_def)

lemma reach_ok:
  assumes "ni_reach (NetworkInterface_new eth ip) ni"
  shows "ni_ok ni"
  using assms
proof induction
  case ni_start
  show ?case by (rule new_ok)
next
  case (ni_next ni ni')
  from ni_next(2,3) show ?case
  proof cases
    case (ni_tick ms)
    then show ?thesis using tick_ok[OF ni_next(3), of ms] by auto
  next
    case (ni_take f fs)
    then show ?thesis using ni_next(3) by (simp add: ni_ok_def)
  qed (auto intro: send_ok recv_ok)
qed

text \<open>Several ticks.\<close>

primrec ni_ticks :: "NetworkInterface \<Rightarrow> size_t list \<Rightarrow> NetworkInterface result" where
  "ni_ticks ni [] = Inr ni"
| "ni_ticks ni (ms # ts) = andthen (NetworkInterface_tick ni ms) (\<lambda>ni'. ni_ticks ni' ts)"

lemma ni_ticks_ok:
  assumes "ni_ok ni"
  shows "\<exists>ni'. ni_ticks ni ts = Inr ni' \<and> ni_ok ni' \<and>
    (ni_cache_time ni', ni_cache ni') =
      fold (\<lambda>ms s. projr (tick_cache ms (fst s) (snd s))) ts (ni_cache_time ni, ni_cache ni) \<and>
    (\<forall>k. ni_cache ni' k = (if map_of (ni_cache_time ni') k = None then None else ni_cache ni k))"
  using assms
proof (induction ts arbitrary: ni)
  case Nil
  then have "ni_cache ni k = None" if "map_of (ni_cache_time ni) k = None" for k
    using that by (auto simp: ni_ok_def in_step_def map_of_none)
  then show ?case using Nil by simp
next
  case (Cons ms ts)
  obtain n1 where t: "NetworkInterface_tick ni ms = Inr n1" "ni_ok n1"
    "(ni_cache_time n1, ni_cache n1) = projr (tick_cache ms (ni_cache_time ni) (ni_cache ni))"
    "\<forall>k. ni_cache n1 k = (if map_of (ni_cache_time n1) k = None then None else ni_cache ni k)"
    using tick_ok[OF Cons.prems] by blast
  obtain n2 where r: "ni_ticks n1 ts = Inr n2" "ni_ok n2" "(ni_cache_time n2, ni_cache n2) =
      fold (\<lambda>ms s. projr (tick_cache ms (fst s) (snd s))) ts (ni_cache_time n1, ni_cache n1)"
    "\<forall>k. ni_cache n2 k = (if map_of (ni_cache_time n2) k = None then None else ni_cache n1 k)"
    using Cons.IH[OF t(2)] by blast
  have gone: "map_of (ni_cache_time n1) k = None \<Longrightarrow> map_of (ni_cache_time n2) k = None" for k
    using arp_cache.passes_absent[of "(ni_cache_time n1, ni_cache n1)" k ts] t(2) r(3)[symmetric] by (simp add: ni_ok_def)
  have "\<forall>k. ni_cache n2 k = (if map_of (ni_cache_time n2) k = None then None else ni_cache ni k)"
    using r(4) t(4) gone by metis
  moreover have "(ni_cache_time n2, ni_cache n2) =
      fold (\<lambda>ms s. projr (tick_cache ms (fst s) (snd s))) (ms # ts) (ni_cache_time ni, ni_cache ni)"
    unfolding r(3) t(3) by simp
  ultimately show ?case using t(1) r(1,2) by auto
qed


section \<open>Properties\<close>

text \<open>A frame as it comes out of the wire.\<close>

definition over_wire :: "EthernetFrame \<Rightarrow> EthernetFrame" where
  "over_wire f = snd (EthernetFrame_parse EthernetFrame_new (concat (EthernetFrame_serialize f)))"

lemma over_wire_eq: "over_wire f = \<lparr>ef_header = ef_header f, ef_payload = [concat (ef_payload f)]\<rparr>"
  by (simp add: over_wire_def EthernetFrame_roundtrip)

lemma type_ne: "TYPE_ARP \<noteq> TYPE_IPv4" "OPCODE_REPLY \<noteq> OPCODE_REQUEST"
  by (simp_all add: TYPE_ARP_def TYPE_IPv4_def OPCODE_REPLY_def OPCODE_REQUEST_def)

text \<open>An interface that has heard nothing asks.\<close>

lemma arp_resolution_step:
  "\<exists>ni1. NetworkInterface_send_datagram (NetworkInterface_new eth (ipv4_address a pa)) dg (ipv4_address b pb) = Inr ni1"
  by (simp add: NetworkInterface_send_datagram_def NetworkInterface_new_def ARPMessage_serialize_def ARPMessage_supported_def
      ARPMessage_new_def Let_def)

text \<open>The exchange behind the next property.\<close>

lemma arp_resolution:
  assumes "datagram_ok dg"
  shows "\<exists>A1 B1 A2 B2 f1 f2 f3 dg'.
    NetworkInterface_send_datagram (NetworkInterface_new ma (ipv4_address a pa)) dg (ipv4_address b p) = Inr A1 \<and>
    ni_frames_out A1 = [f1] \<and> eh_dst (ef_header f1) = ETHERNET_BROADCAST \<and>
    NetworkInterface_recv_frame (NetworkInterface_new mb (ipv4_address b pb)) (over_wire f1) = Inr (None, B1) \<and>
    ni_frames_out B1 = [f2] \<and>
    NetworkInterface_recv_frame (A1\<lparr>ni_frames_out := []\<rparr>) (over_wire f2) = Inr (None, A2) \<and>
    ni_frames_out A2 = [f3] \<and>
    NetworkInterface_recv_frame (B1\<lparr>ni_frames_out := []\<rparr>) (over_wire f3) = Inr (Some dg', B2) \<and> dg_same dg dg' \<and>
    dg_payload dg' = [concat (dg_payload dg)]"
proof -
  define req where "req = ARPMessage_new\<lparr>arp_opcode := OPCODE_REQUEST, arp_sender_ip_address := a,
      arp_sender_ethernet_address := ma, arp_target_ip_address := b\<rparr>"
  define rep where "rep = ARPMessage_new\<lparr>arp_opcode := OPCODE_REPLY, arp_sender_ip_address := b,
      arp_sender_ethernet_address := mb, arp_target_ip_address := a, arp_target_ethernet_address := ma\<rparr>"
  have "ARPMessage_supported req" "ARPMessage_supported rep"
    by (simp_all add: req_def rep_def ARPMessage_supported_def ARPMessage_new_def)
  then obtain s1 s2 where s1: "ARPMessage_serialize req = Inr s1" "ARPMessage_parse ARPMessage_new s1 = (NoError, req)"
    and s2: "ARPMessage_serialize rep = Inr s2" "ARPMessage_parse ARPMessage_new s2 = (NoError, rep)"
    using ARPMessage_roundtrip[of req ARPMessage_new "[]"] ARPMessage_roundtrip[of rep ARPMessage_new "[]"] by auto
  obtain bl dg' where dg: "IPv4Datagram_serialize dg = Inr bl"
    "IPv4Datagram_parse IPv4Datagram_new (concat bl) = Inr (NoError, dg')" "dg_same dg dg'"
    "dg_payload dg' = [concat (dg_payload dg)]"
    using IPv4Datagram_roundtrip[OF assms, of IPv4Datagram_new] by (auto simp: dg_same_def)
  define A1 where "A1 = (NetworkInterface_new ma (ipv4_address a pa))\<lparr>ni_since_last_sent := [(b, 0)],
      ni_frames_out := [\<lparr>ef_header = \<lparr>eh_dst = ETHERNET_BROADCAST, eh_src = ma, eh_type = TYPE_ARP\<rparr>, ef_payload = [s1]\<rparr>],
      ni_datagrams := [b \<mapsto> [dg]]\<rparr>"
  define B1 where "B1 = (NetworkInterface_new mb (ipv4_address b pb))\<lparr>ni_cache := [a \<mapsto> ma], ni_cache_time := [(a, 0)],
      ni_frames_out := [\<lparr>ef_header = \<lparr>eh_dst = ma, eh_src = mb, eh_type = TYPE_ARP\<rparr>, ef_payload = [s2]\<rparr>]\<rparr>"
  define A2 where "A2 = A1\<lparr>ni_cache := [b \<mapsto> mb], ni_cache_time := [(b, 0)], ni_datagrams := Map.empty,
      ni_frames_out := [\<lparr>ef_header = \<lparr>eh_dst = mb, eh_src = ma, eh_type = TYPE_IPv4\<rparr>, ef_payload = bl\<rparr>]\<rparr>"
  have send: "NetworkInterface_send_datagram (NetworkInterface_new ma (ipv4_address a pa)) dg (ipv4_address b p) = Inr A1"
    using s1(1) by (simp add: NetworkInterface_send_datagram_def NetworkInterface_new_def req_def A1_def)
  have ask: "NetworkInterface_recv_frame (NetworkInterface_new mb (ipv4_address b pb)) (over_wire (hd (ni_frames_out A1))) = Inr (None, B1)"
    using s1(2) s2(1)
    by (simp add: NetworkInterface_recv_frame_def over_wire_eq A1_def type_ne payload_to_Buffer_def NetworkInterface_recv_arp_def
        NetworkInterface_new_def B1_def req_def rep_def)
  have answer: "NetworkInterface_recv_frame (A1\<lparr>ni_frames_out := []\<rparr>) (over_wire (hd (ni_frames_out B1))) = Inr (None, A2)"
    using s2(2) dg(1)
    by (simp add: NetworkInterface_recv_frame_def over_wire_eq B1_def type_ne payload_to_Buffer_def NetworkInterface_recv_arp_def
        NetworkInterface_new_def A1_def A2_def rep_def)
  have deliver: "NetworkInterface_recv_frame (B1\<lparr>ni_frames_out := []\<rparr>) (over_wire (hd (ni_frames_out A2))) =
      Inr (Some dg', B1\<lparr>ni_frames_out := []\<rparr>)"
    using dg(2) by (simp add: NetworkInterface_recv_frame_def over_wire_eq A2_def B1_def payload_to_Buffer_def NetworkInterface_new_def)
  show ?thesis
    by (intro exI conjI, rule send, simp add: A1_def, simp, rule ask[unfolded A1_def, simplified], simp add: B1_def,
        rule answer[unfolded B1_def, simplified], simp add: A2_def, rule deliver[unfolded A2_def, simplified], rule dg(3), rule dg(4))
qed

text \<open>C25: Address resolution works end to end. A new interface that is asked to send a datagram to a
neighbour it knows nothing about broadcasts one ARP request; the neighbour answers it; the answer makes
the first interface send the datagram it had kept; and the neighbour hands that datagram, unchanged up
to the checksum that was filled in, to its owner. All four frames go over the wire as bytes.\<close>

theorem arp_resolution_delivers:
  assumes "datagram_ok dg"
  shows "\<exists>A1 B1 A2 B2 f1 f2 f3 dg'.
    NetworkInterface_send_datagram (NetworkInterface_new ma (ipv4_address a pa)) dg (ipv4_address b p) = Inr A1 \<and>
    ni_frames_out A1 = [f1] \<and> eh_dst (ef_header f1) = ETHERNET_BROADCAST \<and>
    NetworkInterface_recv_frame (NetworkInterface_new mb (ipv4_address b pb)) (over_wire f1) = Inr (None, B1) \<and>
    ni_frames_out B1 = [f2] \<and>
    NetworkInterface_recv_frame (A1\<lparr>ni_frames_out := []\<rparr>) (over_wire f2) = Inr (None, A2) \<and>
    ni_frames_out A2 = [f3] \<and>
    NetworkInterface_recv_frame (B1\<lparr>ni_frames_out := []\<rparr>) (over_wire f3) = Inr (Some dg', B2) \<and> dg_same dg dg'"
  using arp_resolution[OF assms, of ma a pa b p mb pb] by blast

text \<open>A datagram and an interface for the concrete executions.\<close>

definition tiny_datagram :: IPv4Datagram where
  "tiny_datagram = \<lparr>dg_header = IPv4Header_new\<lparr>ih_len := 23, ih_dst := 7\<rparr>, dg_payload = [[1], [2, 3]]\<rparr>"

lemma tiny_datagram_ok: "datagram_ok tiny_datagram"
  by (simp add: tiny_datagram_def datagram_ok_def ip_header_ok_def IPv4Header_new_def)

abbreviation host_a :: NetworkInterface where
  "host_a \<equiv> NetworkInterface_new (EthernetAddress 2 0 0 0 0 1) (ipv4_address 5 0)"

theorem arp_resolution_delivers_witness:
  "\<exists>A1 f1 B1 f2. NetworkInterface_send_datagram host_a tiny_datagram (ipv4_address 6 0) = Inr A1 \<and> ni_frames_out A1 = [f1] \<and>
    NetworkInterface_recv_frame (NetworkInterface_new (EthernetAddress 2 0 0 0 0 2) (ipv4_address 6 0)) (over_wire f1) = Inr (None, B1) \<and>
    ni_frames_out B1 = [f2]"
  using arp_resolution_delivers[OF tiny_datagram_ok, of "EthernetAddress 2 0 0 0 0 1" 5 0 6 0 "EthernetAddress 2 0 0 0 0 2" 0]
  by blast

text \<open>C26: What an ARP message says about its sender is used for 30 seconds. In any reachable interface, after an
ARP message from \<open>ip\<close> at \<open>mac\<close> has been taken in, any sequence of ticks returns (no entry is erased
twice), and the address is cached exactly until the ticks add up to 30000 ms.\<close>

theorem arp_cache_expires:
  assumes "ni_reach (NetworkInterface_new eth own) ni" and "NetworkInterface_recv_arp ni am = Inr ni1"
    and "sum_list (map unat ts) < 2 ^ 64"
  shows "\<exists>ni2. ni_ticks ni1 ts = Inr ni2 \<and> ni_cache ni2 (arp_sender_ip_address am) =
    (if sum_list (map unat ts) < 30000 then Some (arp_sender_ethernet_address am) else None)"
proof -
  let ?ip = "arp_sender_ip_address am"
  note st = recv_arp_state[OF assms(2)]
  have ok: "ni_ok ni1" by (rule recv_arp_ok[OF reach_ok[OF assms(1)] assms(2)])
  obtain ni2 where n: "ni_ticks ni1 ts = Inr ni2" "(ni_cache_time ni2, ni_cache ni2) =
      fold (\<lambda>ms s. projr (tick_cache ms (fst s) (snd s))) ts (ni_cache_time ni1, ni_cache ni1)"
    "\<forall>k. ni_cache ni2 k = (if map_of (ni_cache_time ni2) k = None then None else ni_cache ni1 k)"
    using ni_ticks_ok[OF ok] by blast
  have "in_step (ni_cache_time ni1, ni_cache ni1)" using ok by (simp add: ni_ok_def)
  moreover have "map_of (ni_cache_time ni1) ?ip = Some 0" by (simp add: st(2) update_conv')
  ultimately have "map_of (ni_cache_time ni2) ?ip =
      (if sum_list (map unat ts) < 30000 then Some (of_nat (sum_list (map unat ts))) else None)"
    using arp_cache.passes_age[of "(ni_cache_time ni1, ni_cache ni1)" ?ip 0 ts] assms(3) unfolding n(2)[symmetric] by simp
  with n(1,3) st(1) show ?thesis by simp
qed

theorem arp_cache_expires_witness:
  "\<exists>ni1 ni2. NetworkInterface_recv_arp host_a (ARPMessage_new\<lparr>arp_opcode := OPCODE_REPLY, arp_sender_ip_address := 9\<rparr>) = Inr ni1 \<and>
    ni_ticks ni1 [20000, 9999] = Inr ni2 \<and> ni_cache ni2 9 = Some EthernetAddress_zero"
proof -
  let ?am = "ARPMessage_new\<lparr>arp_opcode := OPCODE_REPLY, arp_sender_ip_address := 9\<rparr>"
  obtain ni1 where r: "NetworkInterface_recv_arp host_a ?am = Inr ni1"
    by (simp add: NetworkInterface_recv_arp_def NetworkInterface_new_def ARPMessage_new_def type_ne)
  have "arp_sender_ip_address ?am = 9" "arp_sender_ethernet_address ?am = EthernetAddress_zero"
    by (simp_all add: ARPMessage_new_def)
  then show ?thesis
    using r arp_cache_expires[OF ni_start r, of "[20000, 9999]"] by auto
qed

text \<open>While an ARP request is pending, datagrams are lost. After any datagram was given to an interface for a
next hop whose address is not cached, a second datagram for the same hop changes nothing at all: it is
neither sent nor kept for later.\<close>

theorem pending_datagram_dropped:
  assumes "NetworkInterface_send_datagram ni dg1 hop = Inr ni1" and "Address_ipv4_numeric hop = Inr ip"
    and "ni_cache ni ip = None"
  shows "NetworkInterface_send_datagram ni1 dg2 hop = Inr ni1"
  using assms
  by (auto simp: NetworkInterface_send_datagram_def andthen_Inr_iff Let_def update_conv' split: option.splits if_splits)

theorem pending_datagram_dropped_witness:
  "\<exists>ni1. NetworkInterface_send_datagram host_a tiny_datagram (ipv4_address 6 0) = Inr ni1 \<and>
    NetworkInterface_send_datagram ni1 (tiny_datagram\<lparr>dg_payload := [[4, 5, 6]]\<rparr>) (ipv4_address 6 0) = Inr ni1"
proof -
  obtain ni1 where r: "NetworkInterface_send_datagram host_a tiny_datagram (ipv4_address 6 0) = Inr ni1"
    using arp_resolution_step by blast
  have "ni_cache host_a 6 = None" by (simp add: NetworkInterface_new_def)
  with r pending_datagram_dropped[OF r ipv4_numeric] show ?thesis by blast
qed

end
