(* ===== verification/Router.thy ===== *)
theory Router
  imports Network_Interface
begin

text \<open>
  \<open>libsponge/router.{hh,cc}\<close>: interfaces that keep what they receive, and a router that forwards it by
  longest-prefix match. The order in which the hash map of routes is iterated over is unspecified;
  it is the argument \<open>order\<close> of the operations that iterate.
\<close>

section \<open>State\<close>

record AsyncNetworkInterface =
  an_interface :: NetworkInterface
  an_datagrams_out :: "InternetDatagram list"

definition AsyncNetworkInterface_new :: "NetworkInterface \<Rightarrow> AsyncNetworkInterface" where
  "AsyncNetworkInterface_new ni = \<lparr>an_interface = ni, an_datagrams_out = []\<rparr>"

definition AsyncNetworkInterface_recv_frame ::
  "AsyncNetworkInterface \<Rightarrow> EthernetFrame \<Rightarrow> AsyncNetworkInterface result" where
  "AsyncNetworkInterface_recv_frame an frame =
     andthen (NetworkInterface_recv_frame (an_interface an) frame) (\<lambda>(optional_dgram, ni).
       let an' = an\<lparr>an_interface := ni\<rparr>
       in Inr (case optional_dgram of
                 None \<Rightarrow> an'
               | Some dgram \<Rightarrow> an'\<lparr>an_datagrams_out := an_datagrams_out an' @ [dgram]\<rparr>))"

record Router =
  rt_interfaces :: "AsyncNetworkInterface list"
  rt_len_map :: "(u32 \<times> u8) list"
  rt_gw_map :: "u32 \<rightharpoonup> u32"
  rt_itf_map :: "u32 \<rightharpoonup> size_t"

definition Router_new :: Router where
  "Router_new = \<lparr>rt_interfaces = [], rt_len_map = [], rt_gw_map = Map.empty, rt_itf_map = Map.empty\<rparr>"

definition Router_add_interface :: "Router \<Rightarrow> AsyncNetworkInterface \<Rightarrow> size_t \<times> Router" where
  "Router_add_interface rt an =
     (let rt' = rt\<lparr>rt_interfaces := rt_interfaces rt @ [an]\<rparr>
      in (of_nat (length (rt_interfaces rt')) - 1, rt'))"

definition Router_interface :: "Router \<Rightarrow> size_t \<Rightarrow> AsyncNetworkInterface result" where
  "Router_interface rt N =
     (if unat N < length (rt_interfaces rt) then Inr (rt_interfaces rt ! unat N) else Inl (OutOfRange ''vector::at''))"

definition Router_add_route :: "Router \<Rightarrow> u32 \<Rightarrow> u8 \<Rightarrow> Address option \<Rightarrow> size_t \<Rightarrow> Router result" where
  "Router_add_route rt route_prefix prefix_length next_hop interface_num =
     (let rt1 = rt\<lparr>rt_len_map := AList.update route_prefix prefix_length (rt_len_map rt),
                   rt_itf_map := (rt_itf_map rt)(route_prefix \<mapsto> interface_num)\<rparr>
      in case next_hop of
           None \<Rightarrow> Inr rt1
         | Some a \<Rightarrow> andthen (Address_ipv4_numeric a) (\<lambda>ip.
             Inr (rt1\<lparr>rt_gw_map := (rt_gw_map rt1)(route_prefix \<mapsto> ip)\<rparr>)))"

section \<open>Routing\<close>

text \<open>\<open>w >> (32 - len)\<close>: undefined unless the amount is between 0 and 31.\<close>

definition shift_prefix :: "u32 \<Rightarrow> u8 \<Rightarrow> u32 result" where
  "shift_prefix w len =
     (if 1 \<le> len \<and> len \<le> 32 then Inr (drop_bit (32 - unat len) w) else Inl (Undefined ''shift amount''))"

text \<open>
  The loop over the routes; its state is the length, the interface and the next hop of the best match so
  far, and the map of interfaces, to which \<open>operator[]\<close> adds an entry when there is none.
\<close>

fun route_loop ::
  "Router \<Rightarrow> u32 \<Rightarrow> (u32 \<times> u8) list \<Rightarrow> u8 \<Rightarrow> size_t \<Rightarrow> u32 \<Rightarrow> (size_t \<times> u32 \<times> Router) result" where
  "route_loop rt addr [] m_length itf next_hop = Inr (itf, next_hop, rt)"
| "route_loop rt addr ((key, len) # it) m_length itf next_hop =
     andthen (shift_prefix key len) (\<lambda>prefix.
     andthen (shift_prefix addr len) (\<lambda>addr_mask.
       if addr_mask = prefix \<and> m_length < len
       then let i = (case rt_itf_map rt key of None \<Rightarrow> 0 | Some n \<Rightarrow> n);
                rt' = rt\<lparr>rt_itf_map := (rt_itf_map rt)(key \<mapsto> i)\<rparr>
            in route_loop rt' addr it len i (case rt_gw_map rt' key of None \<Rightarrow> addr | Some g \<Rightarrow> g)
       else route_loop rt addr it m_length itf next_hop))"

definition Router_forward :: "Router \<Rightarrow> InternetDatagram \<Rightarrow> size_t \<Rightarrow> u32 \<Rightarrow> Router result" where
  "Router_forward rt dgram itf next_hop =
     (let dgram' = dgram\<lparr>dg_header := (dg_header dgram)\<lparr>ih_ttl := ih_ttl (dg_header dgram) - 1\<rparr>\<rparr>
      in andthen (Router_interface rt itf) (\<lambda>an.
         andthen (Address_from_ipv4_numeric next_hop) (\<lambda>hop.
         andthen (NetworkInterface_send_datagram (an_interface an) dgram' hop) (\<lambda>ni.
         Inr (rt\<lparr>rt_interfaces := (rt_interfaces rt)[unat itf := an\<lparr>an_interface := ni\<rparr>]\<rparr>)))))"

definition Router_route_one_datagram ::
  "(u32 \<times> u8) list \<Rightarrow> Router \<Rightarrow> InternetDatagram \<Rightarrow> Router result" where
  "Router_route_one_datagram order rt dgram =
     andthen (route_loop rt (ih_dst (dg_header dgram)) order 0 0 2873314305) (\<lambda>(itf, next_hop, rt1).
       if int (unat (ih_ttl (dg_header dgram))) - 1 \<le> 0 then Inr rt1
       else Router_forward rt1 dgram itf next_hop)"

text \<open>
  Emptying the queue of interface \<open>i\<close>: routing does not change the queues, so the datagrams are
  those that were there at the start.
\<close>

fun route_queue :: "(u32 \<times> u8) list \<Rightarrow> nat \<Rightarrow> InternetDatagram list \<Rightarrow> Router \<Rightarrow> Router result" where
  "route_queue order i [] rt = Inr rt"
| "route_queue order i (dgram # ds) rt =
     andthen (Router_route_one_datagram order rt dgram) (\<lambda>rt1.
       route_queue order i ds
         (rt1\<lparr>rt_interfaces := (rt_interfaces rt1)[i := (rt_interfaces rt1 ! i)\<lparr>an_datagrams_out := ds\<rparr>]\<rparr>))"

fun route_from :: "(u32 \<times> u8) list \<Rightarrow> nat list \<Rightarrow> Router \<Rightarrow> Router result" where
  "route_from order [] rt = Inr rt"
| "route_from order (i # is) rt =
     andthen (route_queue order i (an_datagrams_out (rt_interfaces rt ! i)) rt) (route_from order is)"

definition Router_route :: "(u32 \<times> u8) list \<Rightarrow> Router \<Rightarrow> Router result" where
  "Router_route order rt = route_from order [0..<length (rt_interfaces rt)] rt"

section \<open>Longest-prefix match\<close>

text \<open>A route of length \<open>len\<close> covers an address when the first \<open>len\<close> bits agree.\<close>

definition covers :: "u32 \<Rightarrow> u32 \<times> u8 \<Rightarrow> bool" where
  "covers addr r \<longleftrightarrow> drop_bit (32 - unat (snd r)) (fst r) = drop_bit (32 - unat (snd r)) addr"

definition routes_ok :: "Router \<Rightarrow> bool" where
  "routes_ok rt \<longleftrightarrow> (\<forall>r\<in>set (rt_len_map rt). 1 \<le> snd r \<and> snd r \<le> 32 \<and> rt_itf_map rt (fst r) \<noteq> None)"

lemma covers_bits:
  "covers addr (key, len) \<longleftrightarrow> (\<forall>n. 32 - unat len \<le> n \<and> n < 32 \<longrightarrow> bit key n = bit addr n)"
proof -
  define k where "k = 32 - unat len"
  have "covers addr (key, len) \<longleftrightarrow> (\<forall>m<32. bit key (k + m) = bit addr (k + m))"
    by (simp add: covers_def bit_eq_iff bit_drop_bit_eq k_def)
  also have "\<dots> \<longleftrightarrow> (\<forall>n. k \<le> n \<and> n < 32 \<longrightarrow> bit key n = bit addr n)"
  proof (rule iffI; intro allI impI)
    fix n assume all: "\<forall>m<32. bit key (k + m) = bit addr (k + m)" and n: "k \<le> n \<and> n < 32"
    then show "bit key n = bit addr n" using all[rule_format, of "n - k"] by (simp add: less_imp_diff_less)
  next
    fix m :: nat assume all: "\<forall>n. k \<le> n \<and> n < 32 \<longrightarrow> bit key n = bit addr n" and "m < 32"
    show "bit key (k + m) = bit addr (k + m)"
    proof (cases "k + m < 32")
      case False
      then show ?thesis using bit_imp_le_length[of key "k + m"] bit_imp_le_length[of addr "k + m"] by auto
    qed (use all in simp)
  qed
  finally show ?thesis unfolding k_def .
qed

lemma routes_ok_entry:
  assumes "routes_ok rt" and "(key, len) \<in> set (rt_len_map rt)"
  shows "shift_prefix w len = Inr (drop_bit (32 - unat len) w)" and "\<exists>i. rt_itf_map rt key = Some i"
  using assms by (auto simp: routes_ok_def shift_prefix_def)

text \<open>The interface and the next hop of a route.\<close>

definition route_target :: "Router \<Rightarrow> u32 \<Rightarrow> u32 \<Rightarrow> size_t \<times> u32" where
  "route_target rt addr key =
     (the (rt_itf_map rt key), case rt_gw_map rt key of None \<Rightarrow> addr | Some g \<Rightarrow> g)"

text \<open>
  The loop: \<open>best\<close> holds of the state when it comes from no route and nothing seen covers the address, or
  from a covering route at least as long as all covering routes seen.
\<close>

definition best :: "Router \<Rightarrow> u32 \<Rightarrow> (u32 \<times> u8) set \<Rightarrow> u8 \<Rightarrow> size_t \<times> u32 \<Rightarrow> bool" where
  "best rt addr seen m target \<longleftrightarrow>
     (m = 0 \<and> (\<forall>r\<in>seen. \<not> covers addr r) \<and> target = (0, 2873314305)) \<or>
     (\<exists>key. (key, m) \<in> seen \<and> covers addr (key, m) \<and> (\<forall>r\<in>seen. covers addr r \<longrightarrow> snd r \<le> m) \<and>
        target = route_target rt addr key)"

lemma best_step:
  assumes "best rt addr seen m target" and "1 \<le> len"
  shows "covers addr (key, len) \<and> m < len \<Longrightarrow>
      best rt addr (insert (key, len) seen) len (route_target rt addr key)"
    and "\<not> (covers addr (key, len) \<and> m < len) \<Longrightarrow> best rt addr (insert (key, len) seen) m target"
proof -
  assume c: "covers addr (key, len) \<and> m < len"
  have "snd r \<le> len" if "r \<in> seen" "covers addr r" for r
    using assms(1) that c unfolding best_def by (meson less_imp_le order.trans)
  with c show "best rt addr (insert (key, len) seen) len (route_target rt addr key)"
    unfolding best_def by (intro disjI2 exI[of _ key]) auto
next
  assume n: "\<not> (covers addr (key, len) \<and> m < len)"
  have "m = 0 \<Longrightarrow> \<not> covers addr (key, len)" using n assms(2) by (auto simp: word_less_nat_alt word_le_nat_alt)
  with n assms(1) show "best rt addr (insert (key, len) seen) m target"
    unfolding best_def by (elim disjE exE conjE) (auto simp: not_less)
qed

lemma route_loop_best:
  assumes "routes_ok rt" and "set it \<subseteq> set (rt_len_map rt)" and "best rt addr seen m (itf, hop)"
  shows "\<exists>m' itf' hop'. route_loop rt addr it m itf hop = Inr (itf', hop', rt) \<and> best rt addr (seen \<union> set it) m' (itf', hop')"
  using assms
proof (induction it arbitrary: m itf hop seen)
  case Nil
  then show ?case by auto
next
  case (Cons r it)
  obtain key len where r: "r = (key, len)" by (cases r)
  have mem: "(key, len) \<in> set (rt_len_map rt)" "1 \<le> len" using Cons.prems(1,2) r by (auto simp: routes_ok_def)
  note sh = routes_ok_entry(1)[OF Cons.prems(1) mem(1)]
  obtain i where i: "rt_itf_map rt key = Some i" using routes_ok_entry(2)[OF Cons.prems(1) mem(1)] by blast
  have same: "rt\<lparr>rt_itf_map := (rt_itf_map rt)(key \<mapsto> i)\<rparr> = rt" using i by (simp add: fun_upd_idem)
  note step = best_step[OF Cons.prems(3) mem(2), of key]
  have un: "seen \<union> set ((key, len) # it) = insert (key, len) seen \<union> set it" by simp
  show ?case
  proof (cases "covers addr (key, len) \<and> m < len")
    case True
    have "best rt addr (insert (key, len) seen) len (i, case rt_gw_map rt key of None \<Rightarrow> addr | Some g \<Rightarrow> g)"
      using step(1)[OF True] i by (simp add: route_target_def)
    from Cons.IH[OF Cons.prems(1) _ this] Cons.prems(2) True show ?thesis
      unfolding r un by (simp add: sh i same covers_def Let_def)
  next
    case False
    from Cons.IH[OF Cons.prems(1) _ step(2)[OF False]] Cons.prems(2) False show ?thesis
      unfolding r un by (auto simp: sh covers_def)
  qed
qed



text \<open>A router with two routes for the concrete executions.\<close>

definition two_routes :: Router where
  "two_routes = \<lparr>rt_interfaces = [AsyncNetworkInterface_new host_a, AsyncNetworkInterface_new host_a],
     rt_len_map = [(0x0A000000, 8), (0x0A010000, 16)], rt_gw_map = [0x0A000000 \<mapsto> 77],
     rt_itf_map = [0x0A000000 \<mapsto> 0, 0x0A010000 \<mapsto> 1]\<rparr>"

definition to_ten :: InternetDatagram where
  "to_ten = tiny_datagram\<lparr>dg_header := (dg_header tiny_datagram)\<lparr>ih_dst := 0x0A010203\<rparr>\<rparr>"


text \<open>A default route, of length zero, makes every lookup undefined: the loop shifts by 32 before it compares
lengths. This holds for every datagram, whatever other routes there are and wherever the route is.\<close>

theorem default_route_undefined:
  assumes "(key, 0) \<in> set order" and "\<forall>r\<in>set order. snd r \<le> 32"
  shows "Router_route_one_datagram order rt dgram = Inl (Undefined ''shift amount'')"
proof -
  have "route_loop rt addr order m itf hop = Inl (Undefined ''shift amount'')" for addr m itf hop
    using assms
  proof (induction order arbitrary: rt m itf hop)
    case (Cons r order)
    obtain k len where r: "r = (k, len)" by (cases r)
    show ?case
    proof (cases "len = 0")
      case True
      then show ?thesis by (simp add: r shift_prefix_def)
    next
      case False
      then have "1 \<le> len" by (simp add: word_le_nat_alt unat_gt_0 Suc_leI)
      moreover have "(key, 0) \<in> set order" using Cons.prems(1) False r by auto
      ultimately show ?thesis using Cons r by (simp add: shift_prefix_def Let_def)
    qed
  qed simp
  then show ?thesis by (simp add: Router_route_one_datagram_def)
qed

theorem default_route_undefined_witness:
  "Router_route_one_datagram [(0x0A000000, 8), (0, 0)] two_routes to_ten = Inl (Undefined ''shift amount'')"
  by (rule default_route_undefined[of 0]) simp_all

text \<open>A route replaces an earlier one for the same prefix whatever their lengths, and a gateway is never
forgotten: after a route to 10.0.0.0/8 through gateway 77, a direct route to 10.0.0.0/16 leaves one route,
of length 16, and still through gateway 77.\<close>

theorem route_overwritten_gateway_kept:
  "map_sum id (\<lambda>rt. (rt_len_map rt, route_target rt 0x0A000001 0x0A000000))
     (andthen (Router_add_route Router_new 0x0A000000 8 (Some (ipv4_address 77 0)) 1) (\<lambda>rt.
      Router_add_route rt 0x0A000000 16 None 2)) = Inr ([(0x0A000000, 16)], (2, 77))"
  by (simp add: Router_add_route_def Router_new_def route_target_def)

text \<open>Forwarding leaves the queues of received datagrams alone.\<close>

lemma route_loop_interfaces:
  "route_loop rt addr it m itf hop = Inr (itf', hop', rt') \<Longrightarrow> rt_interfaces rt' = rt_interfaces rt"
proof (induction it arbitrary: rt m itf hop)
  case (Cons r it)
  then show ?case by (cases r) (auto simp: andthen_Inr_iff Let_def split: if_splits dest!: Cons.IH)
qed simp

lemma route_one_queues:
  assumes "Router_route_one_datagram order rt dgram = Inr rt'"
  shows "map an_datagrams_out (rt_interfaces rt') = map an_datagrams_out (rt_interfaces rt)"
proof -
  obtain itf hop rt1 where L: "route_loop rt (ih_dst (dg_header dgram)) order 0 0 2873314305 = Inr (itf, hop, rt1)"
    "(if int (unat (ih_ttl (dg_header dgram))) - 1 \<le> 0 then Inr rt1 else Router_forward rt1 dgram itf hop) = Inr rt'"
    using assms by (auto simp: Router_route_one_datagram_def andthen_Inr_iff)
  show ?thesis
    using L(2) unfolding route_loop_interfaces[OF L(1), symmetric]
    by (auto simp: Router_forward_def Router_interface_def andthen_Inr_iff Let_def map_update list_update_id
        split: if_splits intro!: nth_equalityI)
       (auto simp: nth_list_update)
qed

lemma route_queue_queues:
  assumes "route_queue order i ds rt = Inr rt'" and "i < length (rt_interfaces rt)"
    and "an_datagrams_out (rt_interfaces rt ! i) = ds"
  shows "map an_datagrams_out (rt_interfaces rt') = (map an_datagrams_out (rt_interfaces rt))[i := []]"
  using assms
proof (induction ds arbitrary: rt)
  case Nil
  then show ?case by (metis length_map list_update_id nth_map route_queue.simps(1) sum.inject(2))
next
  case (Cons d ds)
  obtain rt1 where one: "Router_route_one_datagram order rt d = Inr rt1"
    and rest: "route_queue order i ds (rt1\<lparr>rt_interfaces := (rt_interfaces rt1)[i := (rt_interfaces rt1 ! i)\<lparr>an_datagrams_out := ds\<rparr>]\<rparr>) = Inr rt'"
    using Cons.prems(1) by (auto simp: andthen_Inr_iff)
  note q = route_one_queues[OF one]
  have len: "length (rt_interfaces rt1) = length (rt_interfaces rt)" using q by (metis length_map)
  show ?case
    using Cons.IH[OF rest] Cons.prems(2) q by (simp add: len map_update)
qed

lemma route_from_queues:
  assumes "route_from order is rt = Inr rt'" and "\<forall>i\<in>set is. i < length (rt_interfaces rt)"
  shows "map an_datagrams_out (rt_interfaces rt') = fold (\<lambda>i q. q[i := []]) is (map an_datagrams_out (rt_interfaces rt))"
  using assms
proof (induction "is" arbitrary: rt)
  case (Cons i "is")
  obtain rt1 where r: "route_queue order i (an_datagrams_out (rt_interfaces rt ! i)) rt = Inr rt1" "route_from order is rt1 = Inr rt'"
    using Cons.prems(1) by (auto simp: andthen_Inr_iff)
  have q: "map an_datagrams_out (rt_interfaces rt1) = (map an_datagrams_out (rt_interfaces rt))[i := []]"
    using route_queue_queues[OF r(1)] Cons.prems(2) by simp
  have "length (rt_interfaces rt1) = length (rt_interfaces rt)" using q by (metis length_list_update length_map)
  then show ?case using Cons.IH[OF r(2)] Cons.prems(2) q by simp
qed simp

lemma fold_clear: "fold (\<lambda>i q. q[i := []]) [0..<n] q = replicate (min n (length q)) [] @ drop n q"
proof (induction n)
  case (Suc n)
  show ?case
  proof (cases "n < length q")
    case True
    then show ?thesis using Suc by (simp add: list_update_append min_absorb1 replicate_app_Cons_same
          Cons_nth_drop_Suc[symmetric] replicate_append_same)
  next
    case False
    then show ?thesis using Suc by (simp add: min_absorb2 list_update_beyond)
  qed
qed simp

text \<open>\<open>route\<close> takes every datagram that was received: afterwards the queue of each interface is empty.\<close>

theorem route_empties_queues:
  assumes "Router_route order rt = Inr rt'"
  shows "map an_datagrams_out (rt_interfaces rt') = replicate (length (rt_interfaces rt)) []"
  using route_from_queues[OF assms[unfolded Router_route_def]] by (simp add: fold_clear)

theorem route_empties_queues_witness:
  "\<exists>rt'. Router_route [] (Router_new\<lparr>rt_interfaces := [\<lparr>an_interface = host_a, an_datagrams_out = [to_ten, to_ten]\<rparr>]\<rparr>) = Inr rt' \<and>
    map an_datagrams_out (rt_interfaces rt') = [[]]"
proof -
  let ?rt = "Router_new\<lparr>rt_interfaces := [\<lparr>an_interface = host_a, an_datagrams_out = [to_ten, to_ten]\<rparr>]\<rparr>"
  have "\<not> isl (Router_route [] ?rt)" by code_simp
  then obtain rt' where r: "Router_route [] ?rt = Inr rt'" by (cases "Router_route [] ?rt") simp_all
  with route_empties_queues[OF r] show ?thesis by auto
qed

end
