(* ===== verification/Tcp_Sender.thy ===== *)
theory Tcp_Sender
  imports Tcp_Segment Byte_Stream
begin

text \<open>
  \<open>libsponge/tcp_sender.{hh,cc}\<close> with the constants of \<open>tcp_helpers/tcp_config.hh\<close>: the sender reads
  its stream, cuts it into segments that fit the peer's window, keeps the segments that are not
  yet acknowledged and retransmits the oldest one when the timer expires. Queues are lists with
  the front first.
\<close>

section \<open>Configuration\<close>

definition MAX_PAYLOAD_SIZE :: size_t where
  "MAX_PAYLOAD_SIZE = 1000"

definition MAX_RETX_ATTEMPTS :: u32 where
  "MAX_RETX_ATTEMPTS = 8"

record TCPConfig =
  cfg_rt_timeout :: u16
  cfg_recv_capacity :: size_t
  cfg_send_capacity :: size_t
  cfg_fixed_isn :: "WrappingInt32 option"

definition TCPConfig_default :: TCPConfig where
  "TCPConfig_default = \<lparr>cfg_rt_timeout = 1000, cfg_recv_capacity = 64000, cfg_send_capacity = 64000, cfg_fixed_isn = None\<rparr>"

section \<open>State and operations\<close>

record TCPSender =
  sd_isn :: WrappingInt32
  sd_segments_out :: "TCPSegment list"
  sd_initial_retransmission_timeout :: u32
  sd_stream :: ByteStream
  sd_next_seqno :: u64
  sd_outstandings :: "TCPSegment list"
  sd_in_flights :: u64
  sd_timePassed :: size_t
  sd_RTO :: u32
  sd_recount :: u32
  sd_window :: u64
  sd_window_right :: u64
  sd_lastAck :: u64
  sd_fin_sent :: bool
  sd_probing :: bool

text \<open>The value of \<open>random_device()()\<close> is the last argument.\<close>

definition TCPSender_new :: "size_t \<Rightarrow> u16 \<Rightarrow> WrappingInt32 option \<Rightarrow> u32 \<Rightarrow> TCPSender" where
  "TCPSender_new capacity retx_timeout fixed_isn random =
     \<lparr>sd_isn = (case fixed_isn of Some i \<Rightarrow> i | None \<Rightarrow> WrappingInt32 random),
      sd_segments_out = [], sd_initial_retransmission_timeout = ucast retx_timeout,
      sd_stream = ByteStream_new capacity, sd_next_seqno = 0, sd_outstandings = [], sd_in_flights = 0,
      sd_timePassed = 0, sd_RTO = ucast retx_timeout, sd_recount = 0, sd_window = 1,
      sd_window_right = 0, sd_lastAck = 0, sd_fin_sent = False, sd_probing = False\<rparr>"

definition TCPSender_bytes_in_flight :: "TCPSender \<Rightarrow> u64" where
  "TCPSender_bytes_in_flight s = sd_in_flights s"

definition TCPSender_next_seqno_absolute :: "TCPSender \<Rightarrow> u64" where
  "TCPSender_next_seqno_absolute s = sd_next_seqno s"

definition TCPSender_next_seqno :: "TCPSender \<Rightarrow> WrappingInt32" where
  "TCPSender_next_seqno s = wrap (sd_next_seqno s) (sd_isn s)"

definition TCPSender_consecutive_retransmissions :: "TCPSender \<Rightarrow> u32" where
  "TCPSender_consecutive_retransmissions s = sd_recount s"

definition TCPSender_send_empty_segment :: "TCPSender \<Rightarrow> TCPSender" where
  "TCPSender_send_empty_segment s =
     (let seg = TCPSegment_new\<lparr>seg_header := TCPHeader_new\<lparr>th_seqno := TCPSender_next_seqno s\<rparr>\<rparr>
      in s\<lparr>sd_segments_out := sd_segments_out s @ [seg]\<rparr>)"

definition TCPSender_send_empty_segment_RST :: "TCPSender \<Rightarrow> TCPSender" where
  "TCPSender_send_empty_segment_RST s =
     (let seg = TCPSegment_new\<lparr>seg_header := TCPHeader_new\<lparr>th_seqno := TCPSender_next_seqno s, th_rst := True\<rparr>\<rparr>
      in s\<lparr>sd_segments_out := sd_segments_out s @ [seg]\<rparr>)"

definition TCPSender_send_one_byte_segment :: "TCPSender \<Rightarrow> bool \<Rightarrow> TCPSender result" where
  "TCPSender_send_one_byte_segment s f =
     (let hd0 = TCPHeader_new\<lparr>th_seqno := TCPSender_next_seqno s\<rparr>
      in andthen
           (if f then Inr (TCPSegment_new\<lparr>seg_header := hd0\<lparr>th_fin := True\<rparr>\<rparr>, sd_stream s)
            else andthen (ByteStream_read (sd_stream s) 1) (\<lambda>(d, st).
                 Inr (\<lparr>seg_header = hd0, seg_payload = d\<rparr>, st)))
           (\<lambda>(seg, st).
              Inr (s\<lparr>sd_stream := st, sd_next_seqno := sd_next_seqno s + 1, sd_in_flights := sd_in_flights s + 1,
                     sd_outstandings := sd_outstandings s @ [seg],
                     sd_segments_out := sd_segments_out s @ [seg]\<rparr>)))"

definition TCPSender_ready_to_fin :: "TCPSender \<Rightarrow> bool" where
  "TCPSender_ready_to_fin s \<longleftrightarrow> ByteStream_eof (sd_stream s) \<and>
     TCPSender_next_seqno_absolute s < ByteStream_bytes_written (sd_stream s) + 2"

text \<open>One round of the loop of \<open>fill_window\<close>; the flag is set by \<open>break\<close>.\<close>

definition TCPSender_fill_window_round :: "TCPSender \<times> bool \<Rightarrow> (TCPSender \<times> bool) result" where
  "TCPSender_fill_window_round = (\<lambda>(s, brk).
     if 0 < TCPSender_next_seqno_absolute s \<and> ByteStream_buffer_empty (sd_stream s) \<and> \<not> TCPSender_ready_to_fin s
     then Inr (s, True)
     else
       let is_syn = (TCPSender_next_seqno_absolute s = 0);
           hd0 = TCPHeader_new\<lparr>th_seqno := TCPSender_next_seqno s, th_syn := is_syn\<rparr>;
           syn = (if is_syn then 1 else 0);
           dlen = min (sd_window_right s - syn - TCPSender_next_seqno_absolute s + 1) MAX_PAYLOAD_SIZE
       in andthen (ByteStream_read (sd_stream s) dlen) (\<lambda>(d, st).
          let seg0 = \<lparr>seg_header = hd0, seg_payload = d\<rparr>;
              next1 = TCPSegment_length_in_sequence_space seg0 + sd_next_seqno s;
              fin = (ByteStream_eof st \<and> next1 \<le> sd_window_right s \<and> \<not> sd_fin_sent s);
              seg = (if fin then \<lparr>seg_header = hd0\<lparr>th_fin := True\<rparr>, seg_payload = d\<rparr> else seg0)
          in Inr (s\<lparr>sd_stream := st,
                    sd_next_seqno := (if fin then next1 + 1 else next1),
                    sd_fin_sent := (if fin then True else sd_fin_sent s),
                    sd_in_flights := sd_in_flights s + TCPSegment_length_in_sequence_space seg,
                    sd_outstandings := sd_outstandings s @ [seg],
                    sd_segments_out := sd_segments_out s @ [seg]\<rparr>, False)))"

definition TCPSender_fill_window :: "TCPSender \<Rightarrow> TCPSender result" where
  "TCPSender_fill_window s =
     (if sd_window s = 0 \<and> \<not> sd_probing s \<and> \<not> ByteStream_buffer_empty (sd_stream s)
      then TCPSender_send_one_byte_segment (s\<lparr>sd_probing := True\<rparr>) False
      else if sd_window s = 0 \<and> \<not> sd_probing s \<and> TCPSender_ready_to_fin s
      then TCPSender_send_one_byte_segment (s\<lparr>sd_probing := True\<rparr>) True
      else andthen (while_loop (\<lambda>(s, brk). \<not> brk \<and> TCPSender_next_seqno_absolute s \<le> sd_window_right s)
                      TCPSender_fill_window_round (s, False))
             (\<lambda>(s, brk). Inr s))"

text \<open>The loop of \<open>ack_received\<close>: pop what is acknowledged, remember whether anything was.\<close>

definition TCPSender_ack_round :: "u64 \<Rightarrow> TCPSender \<times> bool \<times> bool \<Rightarrow> (TCPSender \<times> bool \<times> bool) result" where
  "TCPSender_ack_round ackabs = (\<lambda>(s, rm, brk).
     case sd_outstandings s of
       [] \<Rightarrow> Inr (s, rm, True)
     | seg # segs \<Rightarrow>
         andthen (unwrap (th_seqno (seg_header seg)) (sd_isn s) (ByteStream_bytes_read (sd_stream s))) (\<lambda>a.
         let last = TCPSegment_length_in_sequence_space seg + a - 1
         in if last < ackabs
            then Inr (s\<lparr>sd_in_flights := sd_in_flights s - TCPSegment_length_in_sequence_space seg,
                        sd_outstandings := segs\<rparr>, True, False)
            else Inr (s, rm, True)))"

definition TCPSender_ack_received :: "TCPSender \<Rightarrow> WrappingInt32 \<Rightarrow> u16 \<Rightarrow> TCPSender result" where
  "TCPSender_ack_received s ackno window_size =
     andthen (unwrap ackno (sd_isn s) (ByteStream_bytes_read (sd_stream s))) (\<lambda>ackabs.
       if TCPSender_next_seqno_absolute s < ackabs then Inr s
       else
         let window_move = (sd_window_right s < ackabs + ucast window_size - 1);
             s1 = s\<lparr>sd_window := ucast window_size,
                    sd_window_right := (if window_move then ackabs + ucast window_size - 1 else sd_window_right s)\<rparr>
         in andthen (while_loop (\<lambda>(s, rm, brk). \<not> brk \<and> sd_outstandings s \<noteq> [])
                       (TCPSender_ack_round ackabs) (s1, False, False)) (\<lambda>(s2, rm, brk).
            let s3 = (if window_move then s2\<lparr>sd_probing := False\<rparr> else s2)
            in Inr (if rm
                    then s3\<lparr>sd_RTO := sd_initial_retransmission_timeout s3,
                            sd_timePassed := (if sd_outstandings s3 \<noteq> [] then 0 else sd_timePassed s3),
                            sd_recount := 0\<rparr>
                    else s3)))"

definition TCPSender_tick :: "TCPSender \<Rightarrow> size_t \<Rightarrow> TCPSender" where
  "TCPSender_tick s ms_since_last_tick =
     (let s1 = (if sd_outstandings s \<noteq> [] then s\<lparr>sd_timePassed := ms_since_last_tick + sd_timePassed s\<rparr> else s)
      in if sd_outstandings s1 = [] then s1
         else if ucast (sd_RTO s1) \<le> sd_timePassed s1
         then let s2 = s1\<lparr>sd_segments_out := sd_segments_out s1 @ [hd (sd_outstandings s1)]\<rparr>;
                  s3 = (if 0 < sd_window s2
                        then s2\<lparr>sd_recount := sd_recount s2 + 1, sd_RTO := sd_RTO s2 * 2\<rparr> else s2)
              in s3\<lparr>sd_timePassed := 0\<rparr>
         else s1)"

end
