(* ===== verification/Tcp_Receiver.thy ===== *)
theory Tcp_Receiver
  imports Tcp_Segment Reassembler_Correct
begin

text \<open>
  \<open>libsponge/tcp_receiver.{hh,cc}\<close>: the receiver turns sequence numbers into stream indices,
  feeds the reassembler and computes the acknowledgment number and the window.
\<close>

section \<open>State and operations\<close>

record TCPReceiver =
  rc_reassembler :: StreamReassembler
  rc_capacity :: size_t
  rc_isn :: WrappingInt32
  rc_syned :: bool

definition TCPReceiver_new :: "size_t \<Rightarrow> TCPReceiver" where
  "TCPReceiver_new capacity =
     \<lparr>rc_reassembler = StreamReassembler_new capacity, rc_capacity = capacity,
      rc_isn = WrappingInt32 0, rc_syned = False\<rparr>"

definition TCPReceiver_stream_out :: "TCPReceiver \<Rightarrow> ByteStream" where
  "TCPReceiver_stream_out rc = sr_output (rc_reassembler rc)"

definition TCPReceiver_segment_received :: "TCPReceiver \<Rightarrow> TCPSegment \<Rightarrow> TCPReceiver result" where
  "TCPReceiver_segment_received rc seg =
     (let h = seg_header seg
      in if \<not> rc_syned rc \<and> \<not> th_syn h then Inr rc
         else
           let rc1 = (if th_syn h then rc\<lparr>rc_isn := th_seqno h, rc_syned := True\<rparr> else rc);
               f = th_fin h;
               checkpoint = ByteStream_bytes_written (TCPReceiver_stream_out rc1)
           in andthen
                (if th_syn h then Inr (Some 0)
                 else andthen (unwrap (th_seqno h) (rc_isn rc1) checkpoint) (\<lambda>u.
                      if u = 0 then Inr None
                      else andthen (unwrap (th_seqno h) (rc_isn rc1) checkpoint) (\<lambda>u. Inr (Some (u - 1)))))
                (\<lambda>idx. case idx of
                   None \<Rightarrow> Inr rc1
                 | Some i \<Rightarrow>
                     andthen (push_substring (rc_reassembler rc1) (seg_payload seg) i f)
                       (\<lambda>r. Inr (rc1\<lparr>rc_reassembler := r\<rparr>))))"

definition TCPReceiver_ackno :: "TCPReceiver \<Rightarrow> WrappingInt32 option" where
  "TCPReceiver_ackno rc =
     (if \<not> rc_syned rc then None
      else
        let ack = ByteStream_bytes_written (TCPReceiver_stream_out rc) + 1;
            ack1 = (if ByteStream_input_ended (TCPReceiver_stream_out rc) then ack + 1 else ack)
        in Some (wrap ack1 (rc_isn rc)))"

definition TCPReceiver_window_size :: "TCPReceiver \<Rightarrow> size_t" where
  "TCPReceiver_window_size rc = ByteStream_remaining_capacity (TCPReceiver_stream_out rc)"

definition TCPReceiver_unassembled_bytes :: "TCPReceiver \<Rightarrow> size_t" where
  "TCPReceiver_unassembled_bytes rc = StreamReassembler_unassembled_bytes (rc_reassembler rc)"

section \<open>The abstract receiver\<close>

text \<open>
  A peer sends a stream \<open>xs\<close> with initial sequence number \<open>isn\<close>. \<open>Deliver h i n\<close> is a segment with
  header \<open>h\<close> and payload \<open>i..<i+n\<close>; it is legal when its sequence number, its SYN and its FIN are
  those the peer would use, or when it occupies no sequence number at all (a pure acknowledgment).
  Segments may be lost, repeated and reordered at will.
\<close>

datatype rx_op = Deliver TCPHeader nat nat | Consume size_t

fun rx_legal :: "bytes \<Rightarrow> WrappingInt32 \<Rightarrow> rx_op \<Rightarrow> bool" where
  "rx_legal xs isn (Deliver h i n) \<longleftrightarrow>
     (n = 0 \<and> \<not> th_syn h \<and> \<not> th_fin h) \<or>
     (i + n \<le> length xs \<and> (th_fin h \<longrightarrow> i + n = length xs) \<and> (th_syn h \<longrightarrow> i = 0) \<and>
      th_seqno h = (if th_syn h then isn else wrap (of_nat (Suc i)) isn))"
| "rx_legal xs isn (Consume n) \<longleftrightarrow> True"

fun rx_step :: "bytes \<Rightarrow> TCPReceiver \<Rightarrow> rx_op \<Rightarrow> (bytes \<times> TCPReceiver) result" where
  "rx_step xs rc (Deliver h i n) =
     andthen (TCPReceiver_segment_received rc \<lparr>seg_header = h, seg_payload = slice xs i n\<rparr>) (\<lambda>rc'. Inr ([], rc'))"
| "rx_step xs rc (Consume n) =
     andthen (ByteStream_read (TCPReceiver_stream_out rc) n) (\<lambda>(d, out).
       Inr (d, rc\<lparr>rc_reassembler := (rc_reassembler rc)\<lparr>sr_output := out\<rparr>\<rparr>))"

text \<open>The abstract state: whether a SYN was seen, and the state of the abstract reassembler.\<close>

fun rx_spec :: "bytes \<Rightarrow> nat \<Rightarrow> rx_op \<Rightarrow> bool \<times> spec_state \<Rightarrow> bytes \<times> bool \<times> spec_state" where
  "rx_spec xs c (Deliver h i n) (s, a) =
     (if \<not> s \<and> \<not> th_syn h then ([], s, a) else ([], True, spec_push c i n (th_fin h) a))"
| "rx_spec xs c (Consume n) (s, a) = (let (d, a') = spec_step xs c (Take n) a in (d, s, a'))"

definition rx_abs :: "TCPReceiver \<Rightarrow> bool \<times> spec_state" where
  "rx_abs rc = (rc_syned rc, sr_abs (rc_reassembler rc))"

definition rx_inv :: "bytes \<Rightarrow> WrappingInt32 \<Rightarrow> size_t \<Rightarrow> TCPReceiver \<Rightarrow> bool" where
  "rx_inv xs isn cap rc \<longleftrightarrow> sr_inv xs (rc_reassembler rc) \<and> sr_capacity (rc_reassembler rc) = cap \<and>
     length xs + 1 < 2 ^ 31 \<and> (rc_syned rc \<longrightarrow> rc_isn rc = isn)"

lemma sr_inv_bytes_written:
  assumes "sr_inv xs r"
  shows "ByteStream_bytes_written (sr_output r) = of_nat (prefix_len (sr_known r))"
proof -
  obtain ivs where core: "sr_core xs r ivs" using assms by (auto simp: sr_inv_def)
  then have "prefix_len (sr_known r) = sr_written r"
    unfolding sr_known_core[OF core] by (intro prefix_len_core) (auto simp: sr_core_def)
  then show ?thesis using core by (simp add: sr_core_def bytes_written_nat sr_written_def)
qed

text \<open>The receiver finds the stream index of every segment of the peer.\<close>

lemma unwrap_index:
  assumes "length xs + 1 < 2 ^ 31" and "i \<le> length xs" and "w \<le> length xs"
  shows "unwrap (wrap (of_nat (Suc i)) isn) isn (of_nat w) = Inr (of_nat (Suc i))"
    and "(of_nat (Suc i) :: u64) \<noteq> 0" and "(of_nat (Suc i) - 1 :: u64) = of_nat i"
proof -
  have w: "unat (of_nat w :: u64) = w" using assms by (intro unat_of_nat_u64) simp
  show "unwrap (wrap (of_nat (Suc i)) isn) isn (of_nat w) = Inr (of_nat (Suc i))"
    using assms by (intro unwrap_wrap_near) (auto simp: w ndist_def)
  show "(of_nat (Suc i) :: u64) \<noteq> 0"
    using assms of_nat_eq_u64[of "Suc i" 0] by simp
qed simp

text \<open>A segment that occupies no sequence number leaves the reassembler as it is.\<close>

lemma push_substring_Nil:
  assumes "sr_inv xs r"
  shows "push_substring r [] i False = Inr r"
proof -
  have obs: "ByteStream_input_ended (sr_output r) \<longleftrightarrow> sr_endIdx r \<noteq> - 1 \<and> prefix_len (sr_known r) = length xs"
    and le: "prefix_len (sr_known r) \<le> length xs" by (rule sr_observe[OF assms])+
  have small: "length xs < 2 ^ 31" and e: "sr_endIdx r \<in> {- 1, of_nat (length xs)}"
    using assms by (auto simp: sr_inv_def sr_core_def sr_ending_def)
  note bw = sr_inv_bytes_written[OF assms]
  have "bs_end (sr_output r)" if "of_nat (prefix_len (sr_known r)) = sr_endIdx r"
  proof -
    have "sr_endIdx r \<noteq> - 1" using of_nat_ne_minus_1[of "prefix_len (sr_known r)"] le small that by auto
    moreover have "prefix_len (sr_known r) = length xs"
      using e that calculation le small by (simp add: of_nat_eq_u64)
    ultimately show ?thesis using obs by (simp add: ByteStream_input_ended_def)
  qed
  then show ?thesis
    by (auto simp: push_substring_def AddTempCash_def AddTempCash_trim_def bw ByteStream_end_input_def)
qed

lemma segment_received_sim:
  assumes inv: "rx_inv xs isn cap rc" and leg: "rx_legal xs isn (Deliver h i n)"
  shows "\<exists>rc'. TCPReceiver_segment_received rc \<lparr>seg_header = h, seg_payload = slice xs i n\<rparr> = Inr rc' \<and>
    rx_inv xs isn cap rc' \<and> rx_spec xs (unat cap) (Deliver h i n) (rx_abs rc) = ([], rx_abs rc')"
proof (cases "\<not> rc_syned rc \<and> \<not> th_syn h")
  case True
  then show ?thesis using inv by (simp add: TCPReceiver_segment_received_def rx_abs_def)
next
  case False
  have sinv: "sr_inv xs (rc_reassembler rc)" and len: "length xs + 1 < 2 ^ 31"
    and cap: "sr_capacity (rc_reassembler rc) = cap" using inv by (auto simp: rx_inv_def)
  note bw = sr_inv_bytes_written[OF sinv]
  note le = sr_observe(2)[OF sinv]
  show ?thesis
  proof (cases "n = 0 \<and> \<not> th_syn h \<and> \<not> th_fin h")
    case empty: True
    have "unat (of_nat (prefix_len (sr_known (rc_reassembler rc))) :: u64) < 2 ^ 64 - 2 ^ 32"
      using le len by (subst unat_of_nat_u64) simp_all
    from unwrap_returns[OF this] False empty inv show ?thesis
      by (auto simp: TCPReceiver_segment_received_def TCPReceiver_stream_out_def bw push_substring_Nil[OF sinv]
          rx_abs_def sr_abs_def Let_def intro!: exI[of _ rc])
  next
    case data: False
    then have lim: "i + n \<le> length xs" "th_fin h \<longrightarrow> i + n = length xs" "th_syn h \<longrightarrow> i = 0"
      and seq: "th_seqno h = (if th_syn h then isn else wrap (of_nat (Suc i)) isn)" using leg by auto
    obtain r' where r': "push_substring (rc_reassembler rc) (slice xs i n) (of_nat i) (th_fin h) = Inr r'"
      "sr_inv xs r'" "sr_capacity r' = cap" "sr_abs r' = spec_push (unat cap) i n (th_fin h) (sr_abs (rc_reassembler rc))"
      using push_substring_sim[OF sinv lim(1,2)] cap by auto
    have "i \<le> length xs" using lim by simp
    note idx = unwrap_index[OF len this le]
    show ?thesis
    proof (cases "th_syn h")
      case True
      then show ?thesis
        using r' len lim seq False by (simp add: TCPReceiver_segment_received_def rx_inv_def rx_abs_def)
    next
      case nosyn: False
      then show ?thesis
        using r' len seq False inv idx
        by (simp add: TCPReceiver_segment_received_def rx_inv_def rx_abs_def TCPReceiver_stream_out_def bw
            del: of_nat_Suc)
    qed
  qed
qed

lemma consume_sim:
  assumes inv: "rx_inv xs isn cap rc"
  shows "\<exists>d rc'. rx_step xs rc (Consume n) = Inr (d, rc') \<and> rx_inv xs isn cap rc' \<and>
    rx_spec xs (unat cap) (Consume n) (rx_abs rc) = (d, rx_abs rc')"
proof -
  have "sr_inv xs (rc_reassembler rc)" using inv by (simp add: rx_inv_def)
  from ByteStream_read_sim[OF this, of n] inv show ?thesis
    by (auto simp: TCPReceiver_stream_out_def rx_inv_def rx_abs_def sr_abs_def)
qed

interpretation rx_sim: simulation "rx_inv xs isn cap" "rx_legal xs isn" "rx_step xs" rx_abs "rx_spec xs (unat cap)"
  for xs isn cap
proof
  fix rc x
  assume inv: "rx_inv xs isn cap rc" and leg: "rx_legal xs isn x"
  show "\<exists>d rc'. rx_step xs rc x = Inr (d, rc') \<and> rx_inv xs isn cap rc' \<and>
      rx_spec xs (unat cap) x (rx_abs rc) = (d, rx_abs rc')"
  proof (cases x)
    case (Deliver h i n)
    with segment_received_sim[OF inv leg[unfolded Deliver]] show ?thesis by auto
  next
    case (Consume n)
    with consume_sim[OF inv, of n] show ?thesis by simp
  qed
qed

section \<open>Properties\<close>

lemma rx_spec_delivers:
  "spec_run (rx_spec xs c) ops (s, K, R, f) = (ys, s', K', R', f') \<Longrightarrow>
   R \<le> R' \<and> concat ys = slice xs R (R' - R) \<and>
   (s' \<longleftrightarrow> s \<or> (\<exists>h i n. Deliver h i n \<in> set ops \<and> th_syn h))"
proof (induction ops arbitrary: s K R f ys)
  case Nil
  then show ?case by simp
next
  case (Cons x ops)
  obtain y s1 K1 R1 f1 where one: "rx_spec xs c x (s, K, R, f) = (y, s1, K1, R1, f1)" by (metis prod_cases5)
  obtain ys1 s2 K2 R2 f2 where rest: "spec_run (rx_spec xs c) ops (s1, K1, R1, f1) = (ys1, s2, K2, R2, f2)"
    by (metis prod_cases5)
  have eqs: "ys = y # ys1" "s' = s2" "K' = K2" "R' = R2" "f' = f2" using Cons.prems one rest by simp_all
  have A: "R \<le> R1" "y = slice xs R (R1 - R)" "s1 \<longleftrightarrow> s \<or> (\<exists>h i n. x = Deliver h i n \<and> th_syn h)"
    using one by (cases x; auto split: if_splits)+
  note B = Cons.IH[OF rest[folded eqs(2-5)]]
  have "s' \<longleftrightarrow> s \<or> (\<exists>h i n. Deliver h i n \<in> set (x # ops) \<and> th_syn h)"
    using A(3) B unfolding list.set by blast
  with A(1,2) B eqs(1) show ?case by (auto simp: slice_join)
qed

lemma rx_new_inv:
  assumes "length xs + unat cap + 1 < 2 ^ 31"
  shows "rx_inv xs isn cap (TCPReceiver_new cap)" and "rx_abs (TCPReceiver_new cap) = (False, {}, 0, False)"
  using sr_new_inv[of xs cap] assms by (simp_all add: rx_inv_def rx_abs_def TCPReceiver_new_def)

text \<open>C13: The receiver implements the abstract receiver. Whatever sequence of segments of one peer
arrives -- lost, repeated, reordered, cut differently -- and however the reader interleaves its reads,
every call returns and the reads hand out what the abstract machine hands out; segments before the
first SYN have no effect, every later one adds the bytes of its payload that lie in the window.\<close>

theorem receiver_refines:
  assumes "length xs + unat cap + 1 < 2 ^ 31" and "list_all (rx_legal xs isn) ops"
  shows "\<exists>ys rc. run_ops (rx_step xs) (TCPReceiver_new cap) ops = Inr (ys, rc) \<and>
    spec_run (rx_spec xs (unat cap)) ops (False, {}, 0, False) = (ys, rx_abs rc)"
  using rx_sim.run_sim[OF rx_new_inv(1)[OF assms(1)] assms(2)] rx_new_inv(2)[OF assms(1)] by auto

theorem receiver_refines_witness:
  "\<exists>ys rc. run_ops (rx_step [7, 8, 9]) (TCPReceiver_new 2)
      [Deliver (TCPHeader_new\<lparr>th_seqno := wrap 3 (WrappingInt32 40)\<rparr>) 2 1,
       Deliver (TCPHeader_new\<lparr>th_seqno := WrappingInt32 40, th_syn := True\<rparr>) 0 2, Consume 1] = Inr (ys, rc) \<and>
    spec_run (rx_spec [7, 8, 9] (unat (2 :: size_t)))
      [Deliver (TCPHeader_new\<lparr>th_seqno := wrap 3 (WrappingInt32 40)\<rparr>) 2 1,
       Deliver (TCPHeader_new\<lparr>th_seqno := WrappingInt32 40, th_syn := True\<rparr>) 0 2, Consume 1]
      (False, {}, 0, False) = (ys, rx_abs rc)"
  by (rule receiver_refines[where isn = "WrappingInt32 40"]) (simp_all add: TCPHeader_new_def)

text \<open>C16: What the receiver tells the peer is right. After any legal sequence of segments and reads,
with \<open>w\<close> the length of the contiguous part of the stream received so far: the bytes read and
buffered are the first \<open>w\<close> bytes of the peer's stream; the acknowledgment number is absent until a SYN
has arrived and afterwards is the sequence number of \<open>1 + w\<close>, one more once the stream has ended;
and the window is the capacity less the bytes waiting to be read.\<close>

theorem receiver_acknowledges:
  assumes "length xs + unat cap + 1 < 2 ^ 31" and "list_all (rx_legal xs isn) ops"
  shows "\<exists>ys rc. run_ops (rx_step xs) (TCPReceiver_new cap) ops = Inr (ys, rc) \<and>
    (let w = prefix_len (sr_known (rc_reassembler rc));
         out = TCPReceiver_stream_out rc
     in concat ys @ bs_buffer out = take w xs \<and>
        TCPReceiver_ackno rc =
          (if \<exists>h i n. Deliver h i n \<in> set ops \<and> th_syn h
           then Some (wrap (of_nat (1 + w + (if ByteStream_input_ended out then 1 else 0))) isn) else None) \<and>
        unat (TCPReceiver_window_size rc) = unat cap - length (bs_buffer out))"
proof -
  obtain ys rc where run: "run_ops (rx_step xs) (TCPReceiver_new cap) ops = Inr (ys, rc)"
    and inv: "rx_inv xs isn cap rc"
    and spec: "spec_run (rx_spec xs (unat cap)) ops (False, {}, 0, False) = (ys, rx_abs rc)"
    using rx_sim.run_sim[OF rx_new_inv(1)[OF assms(1)] assms(2)] rx_new_inv(2)[OF assms(1)] by auto
  have sinv: "sr_inv xs (rc_reassembler rc)" and cap: "sr_capacity (rc_reassembler rc) = cap"
    and isn: "rc_syned rc \<longrightarrow> rc_isn rc = isn" using inv by (auto simp: rx_inv_def)
  let ?r = "rc_reassembler rc"
  note D = rx_spec_delivers[OF spec[unfolded rx_abs_def sr_abs_def]]
  note O = sr_observe[OF sinv]
  have "concat ys @ bs_buffer (sr_output ?r) = take (prefix_len (sr_known ?r)) xs"
    using D O(1,3) slice_join[of 0 "sr_read ?r" "prefix_len (sr_known ?r)" xs] by simp
  moreover have "unat (TCPReceiver_window_size rc) = unat cap - length (bs_buffer (sr_output ?r))"
  proof -
    obtain ivs where "sr_core xs ?r ivs" using sinv by (auto simp: sr_inv_def)
    then have "bs_wf (sr_output ?r)" "unat (bs_capacity (sr_output ?r)) = unat cap"
      using cap by (auto simp: sr_core_def bs_linear_def)
    then show ?thesis
      by (simp add: TCPReceiver_window_size_def TCPReceiver_stream_out_def remaining_capacity_room bs_room_def)
  qed
  moreover have "TCPReceiver_ackno rc = (if \<exists>h i n. Deliver h i n \<in> set ops \<and> th_syn h
      then Some (wrap (of_nat (1 + prefix_len (sr_known ?r) + (if ByteStream_input_ended (sr_output ?r) then 1 else 0))) isn)
      else None)"
    using D isn by (auto simp: TCPReceiver_ackno_def TCPReceiver_stream_out_def sr_inv_bytes_written[OF sinv] algebra_simps)
  ultimately show ?thesis using run by (auto simp: Let_def TCPReceiver_stream_out_def)
qed

theorem receiver_acknowledges_witness:
  "\<exists>ys rc. run_ops (rx_step [7, 8]) (TCPReceiver_new 2)
      [Deliver (TCPHeader_new\<lparr>th_seqno := WrappingInt32 40, th_syn := True, th_fin := True\<rparr>) 0 2] = Inr (ys, rc) \<and>
    (let w = prefix_len (sr_known (rc_reassembler rc));
         out = TCPReceiver_stream_out rc
     in concat ys @ bs_buffer out = take w [7, 8] \<and>
        TCPReceiver_ackno rc =
          (if \<exists>h i n. Deliver h i n \<in> set [Deliver (TCPHeader_new\<lparr>th_seqno := WrappingInt32 40, th_syn := True, th_fin := True\<rparr>) 0 2] \<and> th_syn h
           then Some (wrap (of_nat (1 + w + (if ByteStream_input_ended out then 1 else 0))) (WrappingInt32 40)) else None) \<and>
        unat (TCPReceiver_window_size rc) = unat (2 :: size_t) - length (bs_buffer out))"
  by (rule receiver_acknowledges) (simp_all add: TCPHeader_new_def)




end
