(* ===== verification/Tcp_State.thy ===== *)
theory Tcp_State
  imports Tcp_Sender Tcp_Receiver
begin

text \<open>
  \<open>libsponge/tcp_helpers/tcp_state.{hh,cc}\<close>: the summary of a connection's state and the official
  TCP states it is compared with. Summaries are strings, as in the code.
\<close>

section \<open>Summaries\<close>

definition TCPReceiverStateSummary_ERROR :: string where
  "TCPReceiverStateSummary_ERROR = ''error (connection was reset)''"

definition TCPReceiverStateSummary_LISTEN :: string where
  "TCPReceiverStateSummary_LISTEN = ''waiting for SYN: ackno is empty''"

definition TCPReceiverStateSummary_SYN_RECV :: string where
  "TCPReceiverStateSummary_SYN_RECV = ''SYN received (ackno exists), and input to stream hasn't ended''"

definition TCPReceiverStateSummary_FIN_RECV :: string where
  "TCPReceiverStateSummary_FIN_RECV = ''input to stream has ended''"

definition TCPSenderStateSummary_ERROR :: string where
  "TCPSenderStateSummary_ERROR = ''error (connection was reset)''"

definition TCPSenderStateSummary_CLOSED :: string where
  "TCPSenderStateSummary_CLOSED = ''waiting for stream to begin (no SYN sent)''"

definition TCPSenderStateSummary_SYN_SENT :: string where
  "TCPSenderStateSummary_SYN_SENT = ''stream started but nothing acknowledged''"

definition TCPSenderStateSummary_SYN_ACKED :: string where
  "TCPSenderStateSummary_SYN_ACKED = ''stream ongoing''"

definition TCPSenderStateSummary_FIN_SENT :: string where
  "TCPSenderStateSummary_FIN_SENT = ''stream finished (FIN sent) but not fully acknowledged''"

definition TCPSenderStateSummary_FIN_ACKED :: string where
  "TCPSenderStateSummary_FIN_ACKED = ''stream finished and fully acknowledged''"

lemmas summary_defs =
  TCPReceiverStateSummary_ERROR_def TCPReceiverStateSummary_LISTEN_def
  TCPReceiverStateSummary_SYN_RECV_def TCPReceiverStateSummary_FIN_RECV_def
  TCPSenderStateSummary_ERROR_def TCPSenderStateSummary_CLOSED_def TCPSenderStateSummary_SYN_SENT_def
  TCPSenderStateSummary_SYN_ACKED_def TCPSenderStateSummary_FIN_SENT_def TCPSenderStateSummary_FIN_ACKED_def

definition TCPState_summary_receiver :: "TCPReceiver \<Rightarrow> string" where
  "TCPState_summary_receiver receiver =
     (if ByteStream_error (TCPReceiver_stream_out receiver) then TCPReceiverStateSummary_ERROR
      else if TCPReceiver_ackno receiver = None then TCPReceiverStateSummary_LISTEN
      else if ByteStream_input_ended (TCPReceiver_stream_out receiver) then TCPReceiverStateSummary_FIN_RECV
      else TCPReceiverStateSummary_SYN_RECV)"

definition TCPState_summary_sender :: "TCPSender \<Rightarrow> string" where
  "TCPState_summary_sender sender =
     (if ByteStream_error (sd_stream sender) then TCPSenderStateSummary_ERROR
      else if TCPSender_next_seqno_absolute sender = 0 then TCPSenderStateSummary_CLOSED
      else if TCPSender_next_seqno_absolute sender = TCPSender_bytes_in_flight sender
      then TCPSenderStateSummary_SYN_SENT
      else if \<not> ByteStream_eof (sd_stream sender) then TCPSenderStateSummary_SYN_ACKED
      else if TCPSender_next_seqno_absolute sender < ByteStream_bytes_written (sd_stream sender) + 2
      then TCPSenderStateSummary_SYN_ACKED
      else if TCPSender_bytes_in_flight sender \<noteq> 0 then TCPSenderStateSummary_FIN_SENT
      else TCPSenderStateSummary_FIN_ACKED)"

section \<open>States\<close>

record TCPState =
  ts_sender :: string
  ts_receiver :: string
  ts_active :: bool
  ts_linger_after_streams_finish :: bool

datatype State =
    LISTEN | SYN_RCVD | SYN_SENT | ESTABLISHED | CLOSE_WAIT | LAST_ACK
  | FIN_WAIT_1 | FIN_WAIT_2 | CLOSING | TIME_WAIT | CLOSED | RESET

definition TCPState_eq :: "TCPState \<Rightarrow> TCPState \<Rightarrow> bool" where
  "TCPState_eq s other \<longleftrightarrow> ts_active s = ts_active other \<and>
     ts_linger_after_streams_finish s = ts_linger_after_streams_finish other \<and>
     ts_sender s = ts_sender other \<and> ts_receiver s = ts_receiver other"

definition TCPState_neq :: "TCPState \<Rightarrow> TCPState \<Rightarrow> bool" where
  "TCPState_neq s other \<longleftrightarrow> \<not> TCPState_eq s other"

text \<open>\<open>to_string\<close> of a \<open>bool\<close> prints it as an \<open>int\<close>.\<close>

definition bool_to_string :: "bool \<Rightarrow> string" where
  "bool_to_string b = (if b then ''1'' else ''0'')"

definition TCPState_name :: "TCPState \<Rightarrow> string" where
  "TCPState_name s =
     ''sender=`'' @ ts_sender s @ ''`, receiver=`'' @ ts_receiver s @ ''`, active='' @
     bool_to_string (ts_active s) @ '', linger_after_streams_finish='' @
     bool_to_string (ts_linger_after_streams_finish s)"

fun TCPState_official :: "State \<Rightarrow> TCPState" where
  "TCPState_official LISTEN =
     \<lparr>ts_sender = TCPSenderStateSummary_CLOSED, ts_receiver = TCPReceiverStateSummary_LISTEN,
      ts_active = True, ts_linger_after_streams_finish = True\<rparr>"
| "TCPState_official SYN_RCVD =
     \<lparr>ts_sender = TCPSenderStateSummary_SYN_SENT, ts_receiver = TCPReceiverStateSummary_SYN_RECV,
      ts_active = True, ts_linger_after_streams_finish = True\<rparr>"
| "TCPState_official SYN_SENT =
     \<lparr>ts_sender = TCPSenderStateSummary_SYN_SENT, ts_receiver = TCPReceiverStateSummary_LISTEN,
      ts_active = True, ts_linger_after_streams_finish = True\<rparr>"
| "TCPState_official ESTABLISHED =
     \<lparr>ts_sender = TCPSenderStateSummary_SYN_ACKED, ts_receiver = TCPReceiverStateSummary_SYN_RECV,
      ts_active = True, ts_linger_after_streams_finish = True\<rparr>"
| "TCPState_official CLOSE_WAIT =
     \<lparr>ts_sender = TCPSenderStateSummary_SYN_ACKED, ts_receiver = TCPReceiverStateSummary_FIN_RECV,
      ts_active = True, ts_linger_after_streams_finish = False\<rparr>"
| "TCPState_official LAST_ACK =
     \<lparr>ts_sender = TCPSenderStateSummary_FIN_SENT, ts_receiver = TCPReceiverStateSummary_FIN_RECV,
      ts_active = True, ts_linger_after_streams_finish = False\<rparr>"
| "TCPState_official CLOSING =
     \<lparr>ts_sender = TCPSenderStateSummary_FIN_SENT, ts_receiver = TCPReceiverStateSummary_FIN_RECV,
      ts_active = True, ts_linger_after_streams_finish = True\<rparr>"
| "TCPState_official FIN_WAIT_1 =
     \<lparr>ts_sender = TCPSenderStateSummary_FIN_SENT, ts_receiver = TCPReceiverStateSummary_SYN_RECV,
      ts_active = True, ts_linger_after_streams_finish = True\<rparr>"
| "TCPState_official FIN_WAIT_2 =
     \<lparr>ts_sender = TCPSenderStateSummary_FIN_ACKED, ts_receiver = TCPReceiverStateSummary_SYN_RECV,
      ts_active = True, ts_linger_after_streams_finish = True\<rparr>"
| "TCPState_official TIME_WAIT =
     \<lparr>ts_sender = TCPSenderStateSummary_FIN_ACKED, ts_receiver = TCPReceiverStateSummary_FIN_RECV,
      ts_active = True, ts_linger_after_streams_finish = True\<rparr>"
| "TCPState_official RESET =
     \<lparr>ts_sender = TCPSenderStateSummary_ERROR, ts_receiver = TCPReceiverStateSummary_ERROR,
      ts_active = False, ts_linger_after_streams_finish = False\<rparr>"
| "TCPState_official CLOSED =
     \<lparr>ts_sender = TCPSenderStateSummary_FIN_ACKED, ts_receiver = TCPReceiverStateSummary_FIN_RECV,
      ts_active = False, ts_linger_after_streams_finish = False\<rparr>"

definition TCPState_new :: "TCPSender \<Rightarrow> TCPReceiver \<Rightarrow> bool \<Rightarrow> bool \<Rightarrow> TCPState" where
  "TCPState_new sender receiver active linger =
     \<lparr>ts_sender = TCPState_summary_sender sender, ts_receiver = TCPState_summary_receiver receiver,
      ts_active = active, ts_linger_after_streams_finish = (if active then linger else False)\<rparr>"

section \<open>Lemmas\<close>

lemma TCPState_eq_iff [simp]: "TCPState_eq s t \<longleftrightarrow> s = t"
  by (cases s; cases t) (auto simp: TCPState_eq_def)

lemma official_inj: "TCPState_official a = TCPState_official b \<longleftrightarrow> a = b"
  by (cases a; cases b) (simp_all add: summary_defs)

text \<open>What the two summaries that matter for closing a connection mean.\<close>

lemma summary_FIN_ACKED:
  "TCPState_summary_sender s = TCPSenderStateSummary_FIN_ACKED \<longleftrightarrow>
     \<not> bs_error (sd_stream s) \<and> sd_next_seqno s \<noteq> 0 \<and> ByteStream_eof (sd_stream s) \<and>
     ByteStream_bytes_written (sd_stream s) + 2 \<le> sd_next_seqno s \<and> sd_in_flights s = 0"
  by (auto simp: TCPState_summary_sender_def summary_defs ByteStream_error_def TCPSender_next_seqno_absolute_def
      TCPSender_bytes_in_flight_def)

lemma summary_FIN_RECV:
  "TCPState_summary_receiver r = TCPReceiverStateSummary_FIN_RECV \<longleftrightarrow>
     \<not> bs_error (TCPReceiver_stream_out r) \<and> rc_syned r \<and> ByteStream_input_ended (TCPReceiver_stream_out r)"
  by (auto simp: TCPState_summary_receiver_def summary_defs ByteStream_error_def TCPReceiver_ackno_def Let_def)

end
