(* ===== verification/Tcp_Connection.thy ===== *)
theory Tcp_Connection
  imports Tcp_State
begin

text \<open>
  \<open>libsponge/tcp_connection.{hh,cc}\<close>: one endpoint of a connection, made of a sender, a receiver and
  the queue of segments that are ready for the network.
\<close>

section \<open>State\<close>

record TCPConnection =
  cn_cfg :: TCPConfig
  cn_receiver :: TCPReceiver
  cn_sender :: TCPSender
  cn_segments_out :: "TCPSegment list"
  cn_linger_after_streams_finish :: bool
  cn_time_since_last_segment_received :: size_t
  cn_active :: bool
  cn_since_time_wait :: size_t

text \<open>The last argument is the random number the sender's constructor draws.\<close>

definition TCPConnection_new :: "TCPConfig \<Rightarrow> u32 \<Rightarrow> TCPConnection" where
  "TCPConnection_new cfg random =
     \<lparr>cn_cfg = cfg, cn_receiver = TCPReceiver_new (cfg_recv_capacity cfg),
      cn_sender = TCPSender_new (cfg_send_capacity cfg) (cfg_rt_timeout cfg) (cfg_fixed_isn cfg) random,
      cn_segments_out = [], cn_linger_after_streams_finish = True,
      cn_time_since_last_segment_received = 0, cn_active = True, cn_since_time_wait = 0\<rparr>"

definition TCPConnection_remaining_outbound_capacity :: "TCPConnection \<Rightarrow> size_t" where
  "TCPConnection_remaining_outbound_capacity c = ByteStream_remaining_capacity (sd_stream (cn_sender c))"

definition TCPConnection_bytes_in_flight :: "TCPConnection \<Rightarrow> size_t" where
  "TCPConnection_bytes_in_flight c = TCPSender_bytes_in_flight (cn_sender c)"

definition TCPConnection_unassembled_bytes :: "TCPConnection \<Rightarrow> size_t" where
  "TCPConnection_unassembled_bytes c = TCPReceiver_unassembled_bytes (cn_receiver c)"

definition TCPConnection_time_since_last_segment_received :: "TCPConnection \<Rightarrow> size_t" where
  "TCPConnection_time_since_last_segment_received c = cn_time_since_last_segment_received c"

definition TCPConnection_active :: "TCPConnection \<Rightarrow> bool" where
  "TCPConnection_active c = cn_active c"

definition TCPConnection_inbound_stream :: "TCPConnection \<Rightarrow> ByteStream" where
  "TCPConnection_inbound_stream c = TCPReceiver_stream_out (cn_receiver c)"

definition TCPConnection_state :: "TCPConnection \<Rightarrow> TCPState" where
  "TCPConnection_state c =
     TCPState_new (cn_sender c) (cn_receiver c) (TCPConnection_active c) (cn_linger_after_streams_finish c)"

section \<open>Operations\<close>

text \<open>
  The body of the loop of \<open>seg_2_seg\<close> on one segment. The code goes on using a reference to the front
  element after popping it; the model takes the value the element had.
\<close>

definition stamp :: "TCPReceiver \<Rightarrow> TCPSegment \<Rightarrow> TCPSegment" where
  "stamp rc seg =
     (case TCPReceiver_ackno rc of
        None \<Rightarrow> seg
      | Some a \<Rightarrow> seg\<lparr>seg_header := (seg_header seg)\<lparr>th_ack := True, th_ackno := a,
                       th_win := ucast (TCPReceiver_window_size rc)\<rparr>\<rparr>)"

fun seg_2_seg_loop :: "TCPReceiver \<Rightarrow> TCPSegment list \<Rightarrow> TCPSegment list \<Rightarrow> TCPSegment list" where
  "seg_2_seg_loop rc [] out = out"
| "seg_2_seg_loop rc (seg # segs) out = seg_2_seg_loop rc segs (out @ [stamp rc seg])"

definition seg_2_seg :: "TCPConnection \<Rightarrow> TCPConnection" where
  "seg_2_seg c =
     c\<lparr>cn_sender := (cn_sender c)\<lparr>sd_segments_out := []\<rparr>,
       cn_segments_out := seg_2_seg_loop (cn_receiver c) (sd_segments_out (cn_sender c)) (cn_segments_out c)\<rparr>"

text \<open>\<open>_sender.stream_in().set_error(); _receiver.stream_out().set_error();\<close>\<close>

definition set_stream_errors :: "TCPConnection \<Rightarrow> TCPConnection" where
  "set_stream_errors c =
     (let s = cn_sender c; r = cn_receiver c; sr = rc_reassembler r
      in c\<lparr>cn_sender := s\<lparr>sd_stream := ByteStream_set_error (sd_stream s)\<rparr>,
           cn_receiver := r\<lparr>rc_reassembler := sr\<lparr>sr_output := ByteStream_set_error (sr_output sr)\<rparr>\<rparr>\<rparr>)"

definition TCPConnection_segment_received :: "TCPConnection \<Rightarrow> TCPSegment \<Rightarrow> TCPConnection result" where
  "TCPConnection_segment_received c0 seg =
     (let h = seg_header seg;
          c = c0\<lparr>cn_time_since_last_segment_received := 0\<rparr>
      in if TCPSender_next_seqno_absolute (cn_sender c) = 0 \<and> th_ack h then Inr c
         else if th_rst h
         then Inr ((set_stream_errors c)\<lparr>cn_active := False, cn_linger_after_streams_finish := False\<rparr>)
         else
           let st = sd_stream (cn_sender c);
               c1 = (if th_fin h \<and> (\<not> ByteStream_eof st \<or>
                          TCPSender_next_seqno_absolute (cn_sender c) < ByteStream_bytes_written st + 2)
                     then c\<lparr>cn_linger_after_streams_finish := False\<rparr> else c)
           in andthen (TCPReceiver_segment_received (cn_receiver c1) seg) (\<lambda>r.
              andthen
                (if th_ack h
                 then andthen (TCPSender_ack_received (cn_sender c1) (th_ackno h) (th_win h)) TCPSender_fill_window
                 else Inr (cn_sender c1)) (\<lambda>s1.
              andthen
                (if TCPSender_next_seqno_absolute s1 = 0 \<and> TCPReceiver_ackno r \<noteq> None
                 then TCPSender_fill_window s1 else Inr s1) (\<lambda>s2.
              let s3 = (if 0 < TCPSegment_length_in_sequence_space seg \<and> sd_segments_out s2 = []
                        then TCPSender_send_empty_segment s2 else s2);
                  s4 = (case TCPReceiver_ackno r of
                          None \<Rightarrow> s3
                        | Some a \<Rightarrow>
                            if TCPSegment_length_in_sequence_space seg = 0 \<and> th_seqno h = wrapping_minus a 1 \<and>
                               sd_segments_out s3 = []
                            then TCPSender_send_empty_segment s3 else s3)
              in Inr (seg_2_seg (c1\<lparr>cn_receiver := r, cn_sender := s4\<rparr>))))))"

definition TCPConnection_write :: "TCPConnection \<Rightarrow> bytes \<Rightarrow> (size_t \<times> TCPConnection) result" where
  "TCPConnection_write c data =
     (let (res, st) = ByteStream_write (sd_stream (cn_sender c)) data
      in andthen (TCPSender_fill_window ((cn_sender c)\<lparr>sd_stream := st\<rparr>)) (\<lambda>s.
         Inr (res, seg_2_seg (c\<lparr>cn_sender := s\<rparr>))))"

definition TCPConnection_tick :: "TCPConnection \<Rightarrow> size_t \<Rightarrow> TCPConnection" where
  "TCPConnection_tick c0 ms =
     (let c = c0\<lparr>cn_sender := TCPSender_tick (cn_sender c0) ms,
                 cn_time_since_last_segment_received := cn_time_since_last_segment_received c0 + ms\<rparr>
      in if TCPState_eq (TCPConnection_state c) (TCPState_official TIME_WAIT)
         then let c1 = c\<lparr>cn_since_time_wait := cn_since_time_wait c + ms\<rparr>
              in if 10 * ucast (cfg_rt_timeout (cn_cfg c1)) \<le> cn_since_time_wait c1
                 then c1\<lparr>cn_linger_after_streams_finish := False, cn_active := False\<rparr> else c1
         else if cn_active c \<and> MAX_RETX_ATTEMPTS < TCPSender_consecutive_retransmissions (cn_sender c)
         then let c1 = c\<lparr>cn_active := False, cn_sender := (cn_sender c)\<lparr>sd_segments_out := []\<rparr>, cn_segments_out := []\<rparr>;
                  c2 = seg_2_seg (c1\<lparr>cn_sender := TCPSender_send_empty_segment_RST (cn_sender c1)\<rparr>)
              in (set_stream_errors c2)\<lparr>cn_linger_after_streams_finish := False\<rparr>
         else let c1 = seg_2_seg c; s = cn_sender c1; st = sd_stream s
              in if \<not> cn_linger_after_streams_finish c1 \<and>
                    ByteStream_input_ended (TCPReceiver_stream_out (cn_receiver c1)) \<and> ByteStream_eof st \<and>
                    TCPSender_next_seqno_absolute s = ByteStream_bytes_written st + 2 \<and>
                    TCPSender_bytes_in_flight s = 0
                 then c1\<lparr>cn_active := False\<rparr> else c1)"

definition TCPConnection_end_input_stream :: "TCPConnection \<Rightarrow> TCPConnection result" where
  "TCPConnection_end_input_stream c =
     (let s = cn_sender c
      in andthen (TCPSender_fill_window (s\<lparr>sd_stream := ByteStream_end_input (sd_stream s)\<rparr>)) (\<lambda>s'.
         Inr (seg_2_seg (c\<lparr>cn_sender := s'\<rparr>))))"

definition TCPConnection_connect :: "TCPConnection \<Rightarrow> TCPConnection result" where
  "TCPConnection_connect c =
     andthen (TCPSender_fill_window (cn_sender c)) (\<lambda>s. Inr (seg_2_seg (c\<lparr>cn_sender := s\<rparr>)))"

text \<open>The destructor; the warning on \<open>cerr\<close> is not part of the state.\<close>

definition TCPConnection_destroy :: "TCPConnection \<Rightarrow> TCPConnection" where
  "TCPConnection_destroy c =
     (if TCPConnection_active c
      then let c1 = c\<lparr>cn_active := False, cn_linger_after_streams_finish := False\<rparr>
           in set_stream_errors (seg_2_seg (c1\<lparr>cn_sender := TCPSender_send_empty_segment_RST (cn_sender c1)\<rparr>))
      else c)"

end
