(* ===== verification/Tcp_Adapters.thy ===== *)
theory Tcp_Adapters
  imports Network_Interface
begin

text \<open>
  The adapters between a TCP connection and what carries its segments:
  \<open>libsponge/tcp_helpers/fd_adapter.{hh,cc}\<close> (segments in UDP datagrams), \<open>tcp_over_ip.{hh,cc}\<close> (in IPv4
  datagrams), \<open>tuntap_adapter.{hh,cc}\<close> (these on a TUN device, or in Ethernet frames on a TAP device) and
  \<open>lossy_fd_adapter.hh\<close>. What a device delivers is an argument of \<open>read\<close>; what is written to one is part
  of the result or, for the TAP device, of the adapter's state.
\<close>

section \<open>Configuration and base class\<close>

record FdAdapterConfig =
  fa_source :: Address
  fa_destination :: Address
  fa_loss_rate_dn :: u16
  fa_loss_rate_up :: u16

record FdAdapterBase =
  fb_cfg :: FdAdapterConfig
  fb_listen :: bool

definition FdAdapterBase_new :: "getaddrinfo \<Rightarrow> FdAdapterBase result" where
  "FdAdapterBase_new gai =
     andthen (Address_ip gai ''0'' 0) (\<lambda>source.
     andthen (Address_ip gai ''0'' 0) (\<lambda>destination.
       Inr \<lparr>fb_cfg = \<lparr>fa_source = source, fa_destination = destination, fa_loss_rate_dn = 0, fa_loss_rate_up = 0\<rparr>,
            fb_listen = False\<rparr>))"

definition FdAdapterBase_set_listening :: "FdAdapterBase \<Rightarrow> bool \<Rightarrow> FdAdapterBase" where
  "FdAdapterBase_set_listening b l = b\<lparr>fb_listen := l\<rparr>"

definition FdAdapterBase_listening :: "FdAdapterBase \<Rightarrow> bool" where
  "FdAdapterBase_listening b = fb_listen b"

definition FdAdapterBase_tick :: "FdAdapterBase \<Rightarrow> size_t \<Rightarrow> FdAdapterBase" where
  "FdAdapterBase_tick b ms = b"

section \<open>Segments in UDP datagrams\<close>

text \<open>The datagram the socket received is given by its source address and its payload.\<close>

definition TCPOverUDPSocketAdapter_read ::
  "FdAdapterBase \<Rightarrow> Address \<times> bytes \<Rightarrow> (TCPSegment option \<times> FdAdapterBase) result" where
  "TCPOverUDPSocketAdapter_read b datagram =
     (let (source_address, payload) = datagram
      in if \<not> FdAdapterBase_listening b \<and> \<not> Address_eq source_address (fa_destination (fb_cfg b)) then Inr (None, b)
         else andthen (TCPSegment_parse TCPSegment_new payload 0) (\<lambda>(pr, seg).
           if pr \<noteq> NoError then Inr (None, b)
           else if FdAdapterBase_listening b
           then if th_syn (seg_header seg) \<and> \<not> th_rst (seg_header seg)
                then Inr (Some seg, FdAdapterBase_set_listening
                            (b\<lparr>fb_cfg := (fb_cfg b)\<lparr>fa_destination := source_address\<rparr>\<rparr>) False)
                else Inr (None, b)
           else Inr (Some seg, b)))"

text \<open>The result is the destination, the payload, and the segment with its ports set.\<close>

definition TCPOverUDPSocketAdapter_write ::
  "getnameinfo \<Rightarrow> FdAdapterBase \<Rightarrow> TCPSegment \<Rightarrow> (Address \<times> bytes list \<times> TCPSegment) result" where
  "TCPOverUDPSocketAdapter_write gni b seg =
     andthen (Address_port gni (fa_source (fb_cfg b))) (\<lambda>sport.
     andthen (Address_port gni (fa_destination (fb_cfg b))) (\<lambda>dport.
       let seg' = seg\<lparr>seg_header := (seg_header seg)\<lparr>th_sport := sport, th_dport := dport\<rparr>\<rparr>
       in andthen (TCPSegment_serialize seg' 0) (\<lambda>payload. Inr (fa_destination (fb_cfg b), payload, seg'))))"

section \<open>Segments in IPv4 datagrams\<close>

definition unwrap_tcp_in_ip ::
  "getaddrinfo \<Rightarrow> getnameinfo \<Rightarrow> FdAdapterBase \<Rightarrow> InternetDatagram \<Rightarrow> (TCPSegment option \<times> FdAdapterBase) result" where
  "unwrap_tcp_in_ip gai gni b ip_dgram =
     (let h = dg_header ip_dgram; listening = FdAdapterBase_listening b; source = fa_source (fb_cfg b)
      in andthen (if listening then Inr True else andthen (Address_ipv4_numeric source) (\<lambda>ip. Inr (ih_dst h = ip))) (\<lambda>for_us.
         if \<not> for_us then Inr (None, b)
         else andthen (if listening then Inr True
                       else andthen (Address_ipv4_numeric (fa_destination (fb_cfg b))) (\<lambda>ip. Inr (ih_src h = ip))) (\<lambda>from_peer.
         if \<not> from_peer then Inr (None, b)
         else if ih_proto h \<noteq> PROTO_TCP then Inr (None, b)
         else andthen (payload_to_Buffer (dg_payload ip_dgram)) (\<lambda>buffer.
              andthen (TCPSegment_parse TCPSegment_new buffer (IPv4Header_pseudo_cksum h)) (\<lambda>(pr, tcp_seg).
              if pr \<noteq> NoError then Inr (None, b)
              else andthen (Address_port gni source) (\<lambda>my_port.
                   if th_dport (seg_header tcp_seg) \<noteq> my_port then Inr (None, b)
                   else andthen
                     (if listening
                      then if th_syn (seg_header tcp_seg) \<and> \<not> th_rst (seg_header tcp_seg)
                           then andthen (Address_ip gai (inet_ntoa (ih_dst h)) my_port) (\<lambda>src.
                                andthen (Address_ip gai (inet_ntoa (ih_src h)) (th_sport (seg_header tcp_seg))) (\<lambda>dst.
                                Inr (Some (FdAdapterBase_set_listening
                                  (b\<lparr>fb_cfg := (fb_cfg b)\<lparr>fa_source := src, fa_destination := dst\<rparr>\<rparr>) False))))
                           else Inr None
                      else Inr (Some b))
                     (\<lambda>ob. case ob of
                        None \<Rightarrow> Inr (None, b)
                      | Some b' \<Rightarrow>
                          andthen (Address_port gni (fa_destination (fb_cfg b'))) (\<lambda>peer_port.
                          Inr (if th_sport (seg_header tcp_seg) \<noteq> peer_port then None else Some tcp_seg, b')))))))))"

definition wrap_tcp_in_ip ::
  "getnameinfo \<Rightarrow> FdAdapterBase \<Rightarrow> TCPSegment \<Rightarrow> (InternetDatagram \<times> TCPSegment) result" where
  "wrap_tcp_in_ip gni b seg =
     andthen (Address_port gni (fa_source (fb_cfg b))) (\<lambda>sport.
     andthen (Address_port gni (fa_destination (fb_cfg b))) (\<lambda>dport.
       let seg' = seg\<lparr>seg_header := (seg_header seg)\<lparr>th_sport := sport, th_dport := dport\<rparr>\<rparr>
       in andthen (Address_ipv4_numeric (fa_source (fb_cfg b))) (\<lambda>src.
          andthen (Address_ipv4_numeric (fa_destination (fb_cfg b))) (\<lambda>dst.
            let h0 = dg_header IPv4Datagram_new;
                len = ucast (ih_hlen h0) * 4 + ucast (th_doff (seg_header seg')) * 4 + size_of (seg_payload seg') :: size_t;
                h = h0\<lparr>ih_src := src, ih_dst := dst, ih_len := ucast len\<rparr>
            in andthen (TCPSegment_serialize seg' (IPv4Header_pseudo_cksum h)) (\<lambda>payload.
               Inr (\<lparr>dg_header = h, dg_payload = payload\<rparr>, seg'))))))"

section \<open>IPv4 datagrams on a TUN device\<close>

definition TCPOverIPv4OverTunFdAdapter_read ::
  "getaddrinfo \<Rightarrow> getnameinfo \<Rightarrow> FdAdapterBase \<Rightarrow> bytes \<Rightarrow> (TCPSegment option \<times> FdAdapterBase) result" where
  "TCPOverIPv4OverTunFdAdapter_read gai gni b data =
     andthen (IPv4Datagram_parse IPv4Datagram_new data) (\<lambda>(pr, ip_dgram).
       if pr \<noteq> NoError then Inr (None, b) else unwrap_tcp_in_ip gai gni b ip_dgram)"

definition TCPOverIPv4OverTunFdAdapter_write ::
  "getnameinfo \<Rightarrow> FdAdapterBase \<Rightarrow> TCPSegment \<Rightarrow> bytes list result" where
  "TCPOverIPv4OverTunFdAdapter_write gni b seg =
     andthen (wrap_tcp_in_ip gni b seg) (\<lambda>(ip_dgram, seg'). IPv4Datagram_serialize ip_dgram)"

section \<open>IPv4 datagrams in Ethernet frames on a TAP device\<close>

record TCPOverIPv4OverEthernetAdapter =
  ea_base :: FdAdapterBase
  ea_tap :: "bytes list"
  ea_interface :: NetworkInterface
  ea_next_hop :: Address

fun send_pending_loop :: "EthernetFrame list \<Rightarrow> bytes list \<Rightarrow> bytes list" where
  "send_pending_loop [] tap = tap"
| "send_pending_loop (f # fs) tap = send_pending_loop fs (tap @ [concat (EthernetFrame_serialize f)])"

definition send_pending :: "TCPOverIPv4OverEthernetAdapter \<Rightarrow> TCPOverIPv4OverEthernetAdapter" where
  "send_pending ea =
     ea\<lparr>ea_tap := send_pending_loop (ni_frames_out (ea_interface ea)) (ea_tap ea),
        ea_interface := (ea_interface ea)\<lparr>ni_frames_out := []\<rparr>\<rparr>"

text \<open>The constructor writes an empty frame to the device.\<close>

definition TCPOverIPv4OverEthernetAdapter_new ::
  "getaddrinfo \<Rightarrow> EthernetAddress \<Rightarrow> Address \<Rightarrow> Address \<Rightarrow> TCPOverIPv4OverEthernetAdapter result" where
  "TCPOverIPv4OverEthernetAdapter_new gai eth_address ip_address next_hop =
     andthen (FdAdapterBase_new gai) (\<lambda>base.
       let ea = \<lparr>ea_base = base, ea_tap = [], ea_interface = NetworkInterface_new eth_address ip_address,
                 ea_next_hop = next_hop\<rparr>
       in Inr (ea\<lparr>ea_tap := ea_tap ea @ [concat (EthernetFrame_serialize EthernetFrame_new)]\<rparr>))"

definition TCPOverIPv4OverEthernetAdapter_read ::
  "getaddrinfo \<Rightarrow> getnameinfo \<Rightarrow> TCPOverIPv4OverEthernetAdapter \<Rightarrow> bytes \<Rightarrow>
    (TCPSegment option \<times> TCPOverIPv4OverEthernetAdapter) result" where
  "TCPOverIPv4OverEthernetAdapter_read gai gni ea data =
     (let (pr, frame) = EthernetFrame_parse EthernetFrame_new data
      in if pr \<noteq> NoError then Inr (None, ea)
         else andthen (NetworkInterface_recv_frame (ea_interface ea) frame) (\<lambda>(ip_dgram, ni).
           let ea1 = send_pending (ea\<lparr>ea_interface := ni\<rparr>)
           in case ip_dgram of
                None \<Rightarrow> Inr (None, ea1)
              | Some dg \<Rightarrow> andthen (unwrap_tcp_in_ip gai gni (ea_base ea1) dg) (\<lambda>(seg, b).
                  Inr (seg, ea1\<lparr>ea_base := b\<rparr>))))"

definition TCPOverIPv4OverEthernetAdapter_tick ::
  "TCPOverIPv4OverEthernetAdapter \<Rightarrow> size_t \<Rightarrow> TCPOverIPv4OverEthernetAdapter result" where
  "TCPOverIPv4OverEthernetAdapter_tick ea ms =
     andthen (NetworkInterface_tick (ea_interface ea) ms) (\<lambda>ni. Inr (send_pending (ea\<lparr>ea_interface := ni\<rparr>)))"

definition TCPOverIPv4OverEthernetAdapter_write ::
  "getnameinfo \<Rightarrow> TCPOverIPv4OverEthernetAdapter \<Rightarrow> TCPSegment \<Rightarrow> TCPOverIPv4OverEthernetAdapter result" where
  "TCPOverIPv4OverEthernetAdapter_write gni ea seg =
     andthen (wrap_tcp_in_ip gni (ea_base ea) seg) (\<lambda>(dg, seg').
     andthen (NetworkInterface_send_datagram (ea_interface ea) dg (ea_next_hop ea)) (\<lambda>ni.
     Inr (send_pending (ea\<lparr>ea_interface := ni\<rparr>))))"

section \<open>Random loss\<close>

text \<open>
  \<open>LossyFdAdapter<AdapterT>\<close>: the value the random generator yields is the argument \<open>rand\<close>; the generator is
  consulted only when the loss rate is not zero.
\<close>

definition should_drop :: "FdAdapterConfig \<Rightarrow> u32 \<Rightarrow> bool \<Rightarrow> bool" where
  "should_drop cfg rand uplink =
     (let loss = (if uplink then fa_loss_rate_up cfg else fa_loss_rate_dn cfg)
      in loss \<noteq> 0 \<and> (ucast rand :: u16) < loss)"

definition LossyFdAdapter_read ::
  "('a \<Rightarrow> FdAdapterConfig) \<Rightarrow> ('a \<Rightarrow> (TCPSegment option \<times> 'a) result) \<Rightarrow> u32 \<Rightarrow> 'a \<Rightarrow> (TCPSegment option \<times> 'a) result" where
  "LossyFdAdapter_read config read rand adapter =
     andthen (read adapter) (\<lambda>(ret, adapter').
       Inr (if should_drop (config adapter') rand False then None else ret, adapter'))"

definition LossyFdAdapter_write ::
  "('a \<Rightarrow> FdAdapterConfig) \<Rightarrow> ('a \<Rightarrow> TCPSegment \<Rightarrow> 'a result) \<Rightarrow> u32 \<Rightarrow> 'a \<Rightarrow> TCPSegment \<Rightarrow> 'a result" where
  "LossyFdAdapter_write config write rand adapter seg =
     (if should_drop (config adapter) rand True then Inr adapter else write adapter seg)"

section \<open>Lemmas\<close>

lemma unat_ucast_u8_u64: "unat (ucast (x :: u8) :: u64) = unat x"
  using unat_u8_less[of x] by (simp add: unsigned_ucast_eq take_bit_nat_eq_self)

lemma unat_add_bound: "unat (a :: u32) < m \<Longrightarrow> unat b < n \<Longrightarrow> unat (a + b) < m + n"
  by (metis add_less_mono le_less_trans unat_add_lem unat_word_ariths(1) mod_less_eq_dividend)

lemma pseudo_cksum_bound: "unat (IPv4Header_pseudo_cksum h) < 2 ^ 30"
proof -
  have hi: "unat (drop_bit 16 (x :: u32)) < 65536" for x
    using unat_u32_less[of x] by (simp add: drop_bit_eq_div unat_div)
  have lo: "unat (and (x :: u32) 0xffff) < 65536" for x
    using word_and_le1[where y = x and a = "0xffff :: u32"] by (simp add: word_le_nat_alt)
  have pr: "unat (ucast (x :: u8) :: u32) < 256" for x
    using unat_u8_less[of x] by (simp add: unsigned_ucast_eq take_bit_nat_eq_self)
  have pl: "unat (ucast (x :: u16) :: u32) < 65536" for x
    using unat_u16_less[of x] by (simp add: unsigned_ucast_eq take_bit_nat_eq_self)
  have "unat (IPv4Header_pseudo_cksum h) < 65536 + 65536 + (65536 + 65536) + 256 + 65536"
    unfolding IPv4Header_pseudo_cksum_def Let_def by (intro unat_add_bound hi lo pr pl)
  then show ?thesis by simp
qed

lemma pseudo_cksum_cksum [simp]: "IPv4Header_pseudo_cksum (h\<lparr>ih_cksum := v\<rparr>) = IPv4Header_pseudo_cksum h"
  by (simp add: IPv4Header_pseudo_cksum_def IPv4Header_payload_length_def)

text \<open>
  What \<open>getnameinfo\<close> and \<open>getaddrinfo\<close> document for numeric names: the port of the socket address in decimal,
  and the socket address of a dotted quad and a decimal port.
\<close>

definition knows_port :: "getnameinfo \<Rightarrow> u32 \<Rightarrow> u16 \<Rightarrow> bool" where
  "knows_port gni ip port \<longleftrightarrow> (\<exists>name. gni (sockaddr_in ip port) = (0, name, to_string_dec (unat port)))"

definition knows_address :: "getaddrinfo \<Rightarrow> u32 \<Rightarrow> u16 \<Rightarrow> bool" where
  "knows_address gai ip port \<longleftrightarrow>
     gai (inet_ntoa ip) (to_string_dec (unat port)) numeric_hints = (0, Some (sockaddr_in ip port, 16))"

lemma Address_port_known [simp]:
  assumes "knows_port gni ip port"
  shows "Address_port gni (ipv4_address ip port) = Inr port"
proof -
  have "unat port < 2 ^ 31" using unat_u16_less[of port] by simp
  moreover have "take 16 (ad_storage (ipv4_address ip port)) = sockaddr_in ip port" "ad_size (ipv4_address ip port) = 16"
    by (simp_all add: ipv4_address_def)
  ultimately show ?thesis
    using assms by (auto simp: Address_port_def Address_ip_port_def knows_port_def stoi_dec)
qed

lemma Address_ip_known [simp]:
  "knows_address gai ip port \<Longrightarrow> Address_ip gai (inet_ntoa ip) port = Inr (ipv4_address ip port)"
  by (simp add: knows_address_def Address_ip_def Address_resolve_def)

text \<open>An adapter whose connection goes from port \<open>pa\<close> of \<open>a\<close> to port \<open>pb\<close> of \<open>b\<close>.\<close>

definition connected :: "FdAdapterBase \<Rightarrow> u32 \<Rightarrow> u16 \<Rightarrow> u32 \<Rightarrow> u16 \<Rightarrow> bool" where
  "connected A a pa b pb \<longleftrightarrow> \<not> fb_listen A \<and>
     fa_source (fb_cfg A) = ipv4_address a pa \<and> fa_destination (fb_cfg A) = ipv4_address b pb"

definition with_ports :: "TCPSegment \<Rightarrow> u16 \<Rightarrow> u16 \<Rightarrow> TCPSegment" where
  "with_ports seg pa pb = seg\<lparr>seg_header := (seg_header seg)\<lparr>th_sport := pa, th_dport := pb\<rparr>\<rparr>"

lemma with_ports_ok [simp]: "tcp_segment_ok (with_ports seg pa pb) = tcp_segment_ok seg"
  by (simp add: with_ports_def tcp_segment_ok_def tcp_header_ok_def)

text \<open>The datagram a segment is wrapped in, as its receiver finds it.\<close>

definition carries :: "u32 \<Rightarrow> u32 \<Rightarrow> TCPSegment \<Rightarrow> InternetDatagram \<Rightarrow> bool" where
  "carries a b seg dg \<longleftrightarrow> ih_src (dg_header dg) = a \<and> ih_dst (dg_header dg) = b \<and> ih_proto (dg_header dg) = PROTO_TCP \<and>
     (\<exists>v. TCPSegment_parse TCPSegment_new (concat (dg_payload dg)) (IPv4Header_pseudo_cksum (dg_header dg)) =
        Inr (NoError, seg\<lparr>seg_header := (seg_header seg)\<lparr>th_cksum := v\<rparr>\<rparr>))"

lemma carries_same: 
  assumes "carries a b seg dg" and "dg_same dg dg'"
  shows "carries a b seg dg'"
proof -
  have c: "(dg_header dg)\<lparr>ih_cksum := 0\<rparr> = (dg_header dg')\<lparr>ih_cksum := 0\<rparr>" "concat (dg_payload dg) = concat (dg_payload dg')"
    using assms(2) by (simp_all add: dg_same_def)
  have "ih_src (dg_header dg) = ih_src (dg_header dg')" "ih_dst (dg_header dg) = ih_dst (dg_header dg')"
    "ih_proto (dg_header dg) = ih_proto (dg_header dg')"
    "IPv4Header_pseudo_cksum (dg_header dg) = IPv4Header_pseudo_cksum (dg_header dg')"
    using arg_cong[OF c(1), of ih_src] arg_cong[OF c(1), of ih_dst] arg_cong[OF c(1), of ih_proto]
      arg_cong[OF c(1), of IPv4Header_pseudo_cksum] by simp_all
  then show ?thesis using assms(1) c(2) by (simp add: carries_def)
qed

lemma wrap_carries:
  assumes A: "connected A a pa b pb" and "knows_port gni a pa" "knows_port gni b pb" and ok: "tcp_segment_ok seg"
  shows "\<exists>dg. wrap_tcp_in_ip gni A seg = Inr (dg, with_ports seg pa pb) \<and> datagram_ok dg \<and>
    carries a b (with_ports seg pa pb) dg"
proof -
  let ?s = "with_ports seg pa pb" and ?h0 = "IPv4Header_new"
  let ?len = "ucast (ih_hlen ?h0) * 4 + ucast (th_doff (seg_header ?s)) * 4 + size_of (seg_payload ?s) :: size_t"
  define h where "h = ?h0\<lparr>ih_src := a, ih_dst := b, ih_len := ucast ?len\<rparr>"
  obtain hdr v where ser: "TCPSegment_serialize ?s (IPv4Header_pseudo_cksum h) = Inr [hdr, seg_payload ?s]"
    "length hdr = 4 * unat (th_doff (seg_header ?s))"
    "TCPSegment_parse TCPSegment_new (hdr @ seg_payload ?s) (IPv4Header_pseudo_cksum h) =
      Inr (NoError, ?s\<lparr>seg_header := (seg_header ?s)\<lparr>th_cksum := v\<rparr>\<rparr>)"
    using TCPSegment_roundtrip[of ?s "IPv4Header_pseudo_cksum h" TCPSegment_new] ok pseudo_cksum_bound by auto
  have d: "unat (th_doff (seg_header ?s)) < 16" "length (seg_payload ?s) < 2 ^ 15"
    using ok tcp_header_ok_unat by (auto simp: with_ports_def tcp_segment_ok_def)
  have "unat ?len = 20 + 4 * unat (th_doff (seg_header ?s)) + length (seg_payload ?s)"
    using d by (simp add: unat_word_ariths unat_ucast_u8_u64 unat_size_of IPv4Header_new_def)
  then have len: "unat (ih_len h) = 20 + length (hdr @ seg_payload ?s)"
    using d ser(2) by (simp add: h_def unsigned_ucast_eq take_bit_eq_mod)
  have "ip_header_ok h" by (simp add: h_def ip_header_ok_def IPv4Header_new_def)
  then have "datagram_ok \<lparr>dg_header = h, dg_payload = [hdr, seg_payload ?s]\<rparr>"
    using len by (simp add: datagram_ok_def) (simp add: h_def IPv4Header_new_def)
  moreover have "wrap_tcp_in_ip gni A seg = Inr (\<lparr>dg_header = h, dg_payload = [hdr, seg_payload ?s]\<rparr>, ?s)"
    using assms ser(1) by (simp add: wrap_tcp_in_ip_def connected_def with_ports_def IPv4Datagram_new_def h_def Let_def)
  moreover have "carries a b ?s \<lparr>dg_header = h, dg_payload = [hdr, seg_payload ?s]\<rparr>"
    using ser(3) by (auto simp: carries_def) (simp_all add: h_def IPv4Header_new_def)
  ultimately show ?thesis by blast
qed

lemma unwrap_carried:
  assumes B: "connected B b pb a pa" and "knows_port gni a pa" "knows_port gni b pb"
    and c: "carries a b (with_ports seg pa pb) dg" and "dg_payload dg = [p]"
  shows "\<exists>seg'. unwrap_tcp_in_ip gai gni B dg = Inr (Some seg', B) \<and> seg_same (with_ports seg pa pb) seg'"
  using assms
  by (auto simp: unwrap_tcp_in_ip_def connected_def carries_def FdAdapterBase_listening_def payload_to_Buffer_def with_ports_def
      seg_same_def Let_def)

lemma unwrap_listening:
  assumes B: "fb_listen B" "fa_source (fb_cfg B) = ipv4_address any pb"
    and k: "knows_port gni a pa" "knows_port gni any pb" "knows_address gai a pa" "knows_address gai b pb"
    and syn: "th_syn (seg_header seg)" "\<not> th_rst (seg_header seg)"
    and c: "carries a b (with_ports seg pa pb) dg" and "dg_payload dg = [p]"
  shows "\<exists>seg' B'. unwrap_tcp_in_ip gai gni B dg = Inr (Some seg', B') \<and> seg_same (with_ports seg pa pb) seg' \<and>
    connected B' b pb a pa"
  using assms
  by (auto simp: unwrap_tcp_in_ip_def connected_def carries_def FdAdapterBase_listening_def FdAdapterBase_set_listening_def
      payload_to_Buffer_def with_ports_def seg_same_def Let_def)

text \<open>A frame another adapter wrote, read from the device.\<close>

lemma ethernet_read_none:
  "NetworkInterface_recv_frame (ea_interface ea) (over_wire f) = Inr (None, ni) \<Longrightarrow>
   TCPOverIPv4OverEthernetAdapter_read gai gni ea (concat (EthernetFrame_serialize f)) = Inr (None, send_pending (ea\<lparr>ea_interface := ni\<rparr>))"
  by (simp add: TCPOverIPv4OverEthernetAdapter_read_def over_wire_eq EthernetFrame_roundtrip)

lemma ethernet_read_some:
  "NetworkInterface_recv_frame (ea_interface ea) (over_wire f) = Inr (Some dg, ni) \<Longrightarrow>
   unwrap_tcp_in_ip gai gni (ea_base ea) dg = Inr (r, b) \<Longrightarrow>
   TCPOverIPv4OverEthernetAdapter_read gai gni ea (concat (EthernetFrame_serialize f)) =
     Inr (r, (send_pending (ea\<lparr>ea_interface := ni\<rparr>))\<lparr>ea_base := b\<rparr>)"
  by (simp add: TCPOverIPv4OverEthernetAdapter_read_def over_wire_eq EthernetFrame_roundtrip send_pending_def)

lemma send_pending_one:
  "ni_frames_out ni = [f] \<Longrightarrow> send_pending (ea\<lparr>ea_interface := ni\<rparr>) =
     ea\<lparr>ea_tap := ea_tap ea @ [concat (EthernetFrame_serialize f)], ea_interface := ni\<lparr>ni_frames_out := []\<rparr>\<rparr>"
  by (simp add: send_pending_def)

section \<open>Properties\<close>

text \<open>C14: A segment crosses two Ethernet adapters that have never heard of each other. Writing it makes the first
adapter put an ARP request on its device; the second, reading that, answers; the first, reading the answer,
puts out the segment in an IPv4 datagram in a frame; and the second, reading that, returns the segment with
the ports of the connection and otherwise unchanged up to the checksum. Every step is on the bytes of the
devices. The C library is assumed to print the port of the two socket addresses.\<close>

theorem ethernet_adapters_deliver:
  assumes EA: "ea_interface EA = NetworkInterface_new ma (ipv4_address a p)" "ea_next_hop EA = ipv4_address b q"
      "connected (ea_base EA) a pa b pb"
    and EB: "ea_interface EB = NetworkInterface_new mb (ipv4_address b r)" "connected (ea_base EB) b pb a pa"
    and ports: "knows_port gni a pa" "knows_port gni b pb" and seg: "tcp_segment_ok seg"
  shows "\<exists>EA1 EB1 EA2 EB2 f1 f2 f3 seg'.
    TCPOverIPv4OverEthernetAdapter_write gni EA seg = Inr EA1 \<and> ea_tap EA1 = ea_tap EA @ [f1] \<and>
    TCPOverIPv4OverEthernetAdapter_read gai gni EB f1 = Inr (None, EB1) \<and> ea_tap EB1 = ea_tap EB @ [f2] \<and>
    TCPOverIPv4OverEthernetAdapter_read gai gni EA1 f2 = Inr (None, EA2) \<and> ea_tap EA2 = ea_tap EA1 @ [f3] \<and>
    TCPOverIPv4OverEthernetAdapter_read gai gni EB1 f3 = Inr (Some seg', EB2) \<and> seg_same (with_ports seg pa pb) seg'"
proof -
  obtain dg where dg: "wrap_tcp_in_ip gni (ea_base EA) seg = Inr (dg, with_ports seg pa pb)" "datagram_ok dg"
    "carries a b (with_ports seg pa pb) dg"
    using wrap_carries[OF EA(3) ports seg] by blast
  obtain A1 B1 A2 B2 f1 f2 f3 dg' where r:
    "NetworkInterface_send_datagram (ea_interface EA) dg (ea_next_hop EA) = Inr A1" "ni_frames_out A1 = [f1]"
    "NetworkInterface_recv_frame (ea_interface EB) (over_wire f1) = Inr (None, B1)" "ni_frames_out B1 = [f2]"
    "NetworkInterface_recv_frame (A1\<lparr>ni_frames_out := []\<rparr>) (over_wire f2) = Inr (None, A2)" "ni_frames_out A2 = [f3]"
    "NetworkInterface_recv_frame (B1\<lparr>ni_frames_out := []\<rparr>) (over_wire f3) = Inr (Some dg', B2)"
    "dg_same dg dg'" "dg_payload dg' = [concat (dg_payload dg)]"
    using arp_resolution[OF dg(2), of ma a p b q mb r] unfolding EA EB by blast
  let ?w = "\<lambda>f. concat (EthernetFrame_serialize f)"
  define EA1 where "EA1 = EA\<lparr>ea_tap := ea_tap EA @ [?w f1], ea_interface := A1\<lparr>ni_frames_out := []\<rparr>\<rparr>"
  define EB1 where "EB1 = EB\<lparr>ea_tap := ea_tap EB @ [?w f2], ea_interface := B1\<lparr>ni_frames_out := []\<rparr>\<rparr>"
  define EA2 where "EA2 = EA1\<lparr>ea_tap := ea_tap EA1 @ [?w f3], ea_interface := A2\<lparr>ni_frames_out := []\<rparr>\<rparr>"
  have w: "TCPOverIPv4OverEthernetAdapter_write gni EA seg = Inr EA1"
    using dg(1) r(1,2) by (simp add: TCPOverIPv4OverEthernetAdapter_write_def send_pending_one EA1_def)
  have b1: "TCPOverIPv4OverEthernetAdapter_read gai gni EB (?w f1) = Inr (None, EB1)"
    using ethernet_read_none[OF r(3)] r(4) by (simp add: send_pending_one EB1_def)
  have a2: "TCPOverIPv4OverEthernetAdapter_read gai gni EA1 (?w f2) = Inr (None, EA2)"
    using ethernet_read_none[of EA1 f2 A2] r(5,6) by (simp add: send_pending_one EA2_def) (simp add: EA1_def)
  have "connected (ea_base EB1) b pb a pa" using EB(2) by (simp add: EB1_def)
  then obtain seg' where s: "unwrap_tcp_in_ip gai gni (ea_base EB1) dg' = Inr (Some seg', ea_base EB1)"
    "seg_same (with_ports seg pa pb) seg'"
    using unwrap_carried ports carries_same[OF dg(3) r(8)] r(9) by blast
  have "NetworkInterface_recv_frame (ea_interface EB1) (over_wire f3) = Inr (Some dg', B2)" using r(7) by (simp add: EB1_def)
  note b2 = ethernet_read_some[OF this s(1)]
  show ?thesis
    by (intro exI conjI, rule w, simp add: EA1_def, rule b1, simp add: EB1_def, rule a2, simp add: EA2_def, rule b2, rule s(2))
qed

text \<open>Two hosts on one link and what the C library says about their ports.\<close>

definition ports_of :: getnameinfo where
  "ports_of sa = (0, ''host'', to_string_dec (if sa = sockaddr_in 5 80 then 80 else 9000))"

definition base_of :: "u32 \<Rightarrow> u16 \<Rightarrow> u32 \<Rightarrow> u16 \<Rightarrow> FdAdapterBase" where
  "base_of a pa b pb = \<lparr>fb_cfg = \<lparr>fa_source = ipv4_address a pa, fa_destination = ipv4_address b pb, fa_loss_rate_dn = 0,
     fa_loss_rate_up = 0\<rparr>, fb_listen = False\<rparr>"

definition ether_of :: "u8 \<Rightarrow> u32 \<Rightarrow> u16 \<Rightarrow> u32 \<Rightarrow> u16 \<Rightarrow> TCPOverIPv4OverEthernetAdapter" where
  "ether_of m a pa b pb = \<lparr>ea_base = base_of a pa b pb, ea_tap = [],
     ea_interface = NetworkInterface_new (EthernetAddress 2 0 0 0 0 m) (ipv4_address a 0), ea_next_hop = ipv4_address b 0\<rparr>"

definition hello_segment :: TCPSegment where
  "hello_segment = \<lparr>seg_header = TCPHeader_new\<lparr>th_syn := True\<rparr>, seg_payload = [104, 105]\<rparr>"

lemma example_hosts [simp]:
  "connected (base_of a pa b pb) a pa b pb" "knows_port ports_of 5 80" "knows_port ports_of 6 9000" "knows_port ports_of 0 9000"
  "tcp_segment_ok hello_segment"
  "th_syn (seg_header hello_segment)" "\<not> th_rst (seg_header hello_segment)"
  by (auto simp: connected_def base_of_def knows_port_def ports_of_def tcp_segment_ok_def tcp_header_ok_def hello_segment_def
      TCPHeader_new_def sockaddr_in_def dest: u16_field.unparse_inject)

theorem ethernet_adapters_deliver_witness:
  "\<exists>EA1 EB1 EA2 EB2 f1 f2 f3 seg'.
    TCPOverIPv4OverEthernetAdapter_write ports_of (ether_of 1 5 80 6 9000) hello_segment = Inr EA1 \<and> ea_tap EA1 = [f1] \<and>
    TCPOverIPv4OverEthernetAdapter_read (\<lambda>_ _ _. (1, None)) ports_of (ether_of 2 6 9000 5 80) f1 = Inr (None, EB1) \<and> ea_tap EB1 = [f2] \<and>
    TCPOverIPv4OverEthernetAdapter_read (\<lambda>_ _ _. (1, None)) ports_of EA1 f2 = Inr (None, EA2) \<and> ea_tap EA2 = [f1, f3] \<and>
    TCPOverIPv4OverEthernetAdapter_read (\<lambda>_ _ _. (1, None)) ports_of EB1 f3 = Inr (Some seg', EB2) \<and> seg_payload seg' = [104, 105]"
proof -
  have "ea_tap (ether_of m a pa b pb) = []" for m a pa b pb by (simp add: ether_of_def)
  moreover have "seg_same (with_ports hello_segment pa pb) seg' \<Longrightarrow> seg_payload seg' = [104, 105]" for pa pb seg'
    by (simp add: seg_same_def with_ports_def hello_segment_def)
  ultimately show ?thesis
    using ethernet_adapters_deliver[of "ether_of 1 5 80 6 9000" "EthernetAddress 2 0 0 0 0 1" 5 0 6 0 80 9000
        "ether_of 2 6 9000 5 80" "EthernetAddress 2 0 0 0 0 2" 0 ports_of hello_segment "\<lambda>_ _ _. (1, None)"]
    by (auto simp: ether_of_def)
qed

text \<open>A listening adapter on a TUN device is taken over by the first SYN. A segment with SYN and without
RST that a connected adapter writes is returned by an adapter that listens on the port, whatever address
that one is bound to, and afterwards that adapter is connected back to the sender's address and port from
the address the sender used. The C library is assumed to print ports and to read dotted quads.\<close>

theorem tun_listener_accepts:
  assumes A: "connected A a pa b pb" and B: "fb_listen B" "fa_source (fb_cfg B) = ipv4_address any pb"
    and names: "knows_port gni a pa" "knows_port gni b pb" "knows_port gni any pb" "knows_address gai a pa" "knows_address gai b pb"
    and seg: "tcp_segment_ok seg" "th_syn (seg_header seg)" "\<not> th_rst (seg_header seg)"
  shows "\<exists>bl seg' B'. TCPOverIPv4OverTunFdAdapter_write gni A seg = Inr bl \<and>
    TCPOverIPv4OverTunFdAdapter_read gai gni B (concat bl) = Inr (Some seg', B') \<and>
    seg_same (with_ports seg pa pb) seg' \<and> connected B' b pb a pa"
proof -
  obtain dg where dg: "wrap_tcp_in_ip gni A seg = Inr (dg, with_ports seg pa pb)" "datagram_ok dg"
    "carries a b (with_ports seg pa pb) dg"
    using wrap_carries[OF A names(1,2) seg(1)] by blast
  obtain bl dg' where w: "IPv4Datagram_serialize dg = Inr bl" "IPv4Datagram_parse IPv4Datagram_new (concat bl) = Inr (NoError, dg')"
    "dg_same dg dg'" "dg_payload dg' = [concat (dg_payload dg)]"
    using IPv4Datagram_roundtrip[OF dg(2), of IPv4Datagram_new] by (auto simp: dg_same_def)
  show ?thesis
    using unwrap_listening[OF B names(1,3,4,5) seg(2,3) carries_same[OF dg(3) w(3)] w(4)] dg(1) w(1,2)
    by (simp add: TCPOverIPv4OverTunFdAdapter_write_def TCPOverIPv4OverTunFdAdapter_read_def)
qed

theorem tun_listener_accepts_witness:
  "(let gai = (\<lambda>node service hints. if node = ''0.0.0.5'' then (0, Some (sockaddr_in 5 80, 16)) else (0, Some (sockaddr_in 6 9000, 16)));
        B = (base_of 0 9000 0 0)\<lparr>fb_listen := True\<rparr>
    in \<exists>bl seg' B'. TCPOverIPv4OverTunFdAdapter_write ports_of (base_of 5 80 6 9000) hello_segment = Inr bl \<and>
      TCPOverIPv4OverTunFdAdapter_read gai ports_of B (concat bl) = Inr (Some seg', B') \<and>
      seg_same (with_ports hello_segment 80 9000) seg' \<and> connected B' 6 9000 5 80)"
proof -
  have "inet_ntoa 5 = ''0.0.0.5''" "inet_ntoa 6 = ''0.0.0.6''" by code_simp+
  then show ?thesis
    unfolding Let_def
    by (intro tun_listener_accepts[where any = 0]) (simp_all add: knows_address_def base_of_def connected_def)
qed

text \<open>C24: A connected adapter lets only its own connection through: when \<open>unwrap_tcp_in_ip\<close> of an adapter that is
not listening returns a segment, the datagram is TCP, comes from the address and port of the peer and goes
to the address and port of the adapter, its checksum is right for the pseudo-header, and the adapter is
unchanged; a listening adapter returns only a SYN without RST and has then stopped listening.\<close>

theorem unwrap_filters:
  assumes "unwrap_tcp_in_ip gai gni b dg = Inr (Some seg, b')"
  shows "ih_proto (dg_header dg) = PROTO_TCP \<and> \<not> fb_listen b' \<and>
    (\<exists>s. payload_to_Buffer (dg_payload dg) = Inr s \<and>
       TCPSegment_parse TCPSegment_new s (IPv4Header_pseudo_cksum (dg_header dg)) = Inr (NoError, seg)) \<and>
    Address_port gni (fa_destination (fb_cfg b')) = Inr (th_sport (seg_header seg)) \<and>
    Address_port gni (fa_source (fb_cfg b)) = Inr (th_dport (seg_header seg)) \<and>
    (if fb_listen b then th_syn (seg_header seg) \<and> \<not> th_rst (seg_header seg)
     else b' = b \<and> Address_ipv4_numeric (fa_source (fb_cfg b)) = Inr (ih_dst (dg_header dg)) \<and>
       Address_ipv4_numeric (fa_destination (fb_cfg b)) = Inr (ih_src (dg_header dg)))"
  using assms
  by (auto simp: unwrap_tcp_in_ip_def Let_def andthen_Inr_iff FdAdapterBase_listening_def FdAdapterBase_set_listening_def
      split: if_splits option.splits prod.splits)

theorem unwrap_filters_witness:
  "\<exists>dg seg. unwrap_tcp_in_ip (\<lambda>_ _ _. (1, None)) ports_of (base_of 6 9000 5 80) dg = Inr (Some seg, base_of 6 9000 5 80) \<and>
    ih_proto (dg_header dg) = PROTO_TCP \<and> ih_src (dg_header dg) = 5 \<and> th_dport (seg_header seg) = 9000"
proof -
  obtain dg where dg: "datagram_ok dg" "carries 5 6 (with_ports hello_segment 80 9000) dg"
    using wrap_carries[of "base_of 5 80 6 9000" 5 80 6 9000 ports_of hello_segment] by auto
  define dg' where "dg' = dg\<lparr>dg_payload := [concat (dg_payload dg)]\<rparr>"
  have "carries 5 6 (with_ports hello_segment 80 9000) dg'" using dg(2) by (simp add: carries_def dg'_def)
  then obtain seg where s: "unwrap_tcp_in_ip (\<lambda>_ _ _. (1, None)) ports_of (base_of 6 9000 5 80) dg' = Inr (Some seg, base_of 6 9000 5 80)"
    using unwrap_carried[of "base_of 6 9000 5 80" 6 9000 5 80 ports_of hello_segment dg'] by (auto simp: dg'_def)
  show ?thesis
    using unwrap_filters[OF s] s by (intro exI[of _ dg'] exI[of _ seg]) (auto simp: base_of_def)
qed

text \<open>Without loss the lossy adapter is the adapter, and of the 65536 values of the generator's low half
the loss rate is the number that drop a segment.\<close>

lemma lossless_transparent:
  assumes "\<And>a. fa_loss_rate_dn (config a) = 0" and "\<And>a. fa_loss_rate_up (config a) = 0"
  shows "LossyFdAdapter_read config read rand = read" and "LossyFdAdapter_write config write rand = write"
proof -
  have "andthen x (\<lambda>(r, s). Inr (r, s)) = x" for x :: "('b \<times> 'c) result" by (cases x) auto
  then show "LossyFdAdapter_read config read rand = read"
    using assms by (intro ext) (simp add: LossyFdAdapter_read_def should_drop_def)
  show "LossyFdAdapter_write config write rand = write"
    using assms by (intro ext) (simp add: LossyFdAdapter_write_def should_drop_def)
qed

lemma loss_rate_exact:
  "card {v :: u16. should_drop cfg (ucast v) True} = unat (fa_loss_rate_up cfg)"
proof -
  have c: "(ucast (ucast v :: u32) :: u16) = v" for v :: u16 by (rule bit_word_eqI) (simp add: bit_simps)
  have "{v :: u16. should_drop cfg (ucast v) True} = {v. unat v < unat (fa_loss_rate_up cfg)}"
    by (auto simp: should_drop_def c word_less_nat_alt Let_def)
  moreover have "unat ` {v :: u16. unat v < unat (fa_loss_rate_up cfg)} = {..<unat (fa_loss_rate_up cfg)}"
  proof (intro set_eqI iffI)
    fix n assume "n \<in> {..<unat (fa_loss_rate_up cfg)}"
    then have "unat (of_nat n :: u16) = n" "n < unat (fa_loss_rate_up cfg)"
      using unat_u16_less[of "fa_loss_rate_up cfg"] by (simp_all add: unat_of_nat)
    then show "n \<in> unat ` {v :: u16. unat v < unat (fa_loss_rate_up cfg)}" by (metis (lifting) image_eqI mem_Collect_eq)
  qed auto
  ultimately show ?thesis
    by (metis (lifting) card_image card_lessThan injI inj_on_subset subset_UNIV word_unat_eq_iff)
qed

end
