(* ===== verification/File_Descriptor.thy ===== *)
theory File_Descriptor
  imports Buffers Addresses
begin

text \<open>
  \<open>libsponge/util/file_descriptor.{hh,cc}\<close> and \<open>SystemCall\<close> of \<open>util.cc\<close>. The wrapper of a kernel descriptor
  is a record; the return value of a system call, \<open>errno\<close> after it and the bytes it delivers are
  arguments. \<open>write\<close> makes several calls, so there the kernel is a function on a state of its own.
\<close>

section \<open>System calls\<close>

definition SystemCall :: "string \<Rightarrow> cint \<Rightarrow> cint \<Rightarrow> cint \<Rightarrow> cint result" where
  "SystemCall attempt return_value errno errno_mask =
     (if 0 \<le> sint return_value \<or> errno = errno_mask then Inr return_value
      else Inl (UnixError attempt errno))"

section \<open>Descriptors\<close>

record FDWrapper =
  fd_fd :: cint
  fd_eof :: bool
  fd_closed :: bool
  fd_read_count :: u32
  fd_write_count :: u32

definition to_string_int :: "cint \<Rightarrow> string" where
  "to_string_int n = (if sint n < 0 then ''-'' @ to_string_dec (nat (- sint n)) else to_string_dec (nat (sint n)))"

definition FDWrapper_new :: "cint \<Rightarrow> FDWrapper result" where
  "FDWrapper_new fd =
     (if sint fd < 0 then Inl (RuntimeError (''invalid fd number:'' @ to_string_int fd))
      else Inr \<lparr>fd_fd = fd, fd_eof = False, fd_closed = False, fd_read_count = 0, fd_write_count = 0\<rparr>)"

definition FDWrapper_close :: "FDWrapper \<Rightarrow> cint \<Rightarrow> cint \<Rightarrow> FDWrapper result" where
  "FDWrapper_close w ret errno =
     andthen (SystemCall ''close'' ret errno 0) (\<lambda>_. Inr (w\<lparr>fd_eof := True, fd_closed := True\<rparr>))"

definition FDWrapper_destroy :: "FDWrapper \<Rightarrow> cint \<Rightarrow> cint \<Rightarrow> FDWrapper" where
  "FDWrapper_destroy w ret errno =
     (if fd_closed w then w else case FDWrapper_close w ret errno of Inl _ \<Rightarrow> w | Inr w' \<Rightarrow> w')"

definition FileDescriptor_register_read :: "FDWrapper \<Rightarrow> FDWrapper" where
  "FileDescriptor_register_read w = w\<lparr>fd_read_count := fd_read_count w + 1\<rparr>"

definition FileDescriptor_register_write :: "FDWrapper \<Rightarrow> FDWrapper" where
  "FileDescriptor_register_write w = w\<lparr>fd_write_count := fd_write_count w + 1\<rparr>"

definition BUFFER_SIZE :: size_t where
  "BUFFER_SIZE = 1024 * 1024"

text \<open>
  The kernel's answer to \<open>read\<close>: the \<open>ssize_t\<close> it returns, \<open>errno\<close>, and the bytes it put at the front of the
  buffer. \<open>SystemCall\<close> takes and gives an \<open>int\<close>, so the value is cut to 32 bits and extended again.
\<close>

type_synonym read_answer = "size_t \<times> cint \<times> bytes"

definition FileDescriptor_read :: "FDWrapper \<Rightarrow> size_t \<Rightarrow> read_answer \<Rightarrow> (bytes \<times> FDWrapper) result" where
  "FileDescriptor_read w limit answer =
     (let (ret, errno, data) = answer; size_to_read = min BUFFER_SIZE limit
      in if unat size_to_read < length data then Inl (Undefined ''read past the end of the buffer'')
         else andthen (SystemCall ''read'' (size_to_int ret) errno 0) (\<lambda>r.
           let bytes_read = int_to_size r;
               w1 = (if 0 < limit \<and> bytes_read = 0 then w\<lparr>fd_eof := True\<rparr> else w);
               str = data @ replicate (unat size_to_read - length data) 0
           in if sint size_to_read < sint bytes_read then Inl (RuntimeError ''read() read more than requested'')
              else Inr (take (unat bytes_read) str, FileDescriptor_register_read w1)))"

text \<open>\<open>writev\<close> of a kernel in state \<open>k\<close>, given the descriptor and the pieces.\<close>

type_synonym 'k writev = "cint \<Rightarrow> (bytes \<times> size_t) list \<Rightarrow> 'k \<Rightarrow> size_t \<times> cint \<times> 'k"

text \<open>One round of the loop of \<open>write\<close>, on the buffer, the total so far, the wrapper and the kernel.\<close>

definition FileDescriptor_write_round ::
  "'k writev \<Rightarrow> BufferViewList \<times> size_t \<times> FDWrapper \<times> 'k \<Rightarrow> (BufferViewList \<times> size_t \<times> FDWrapper \<times> 'k) result" where
  "FileDescriptor_write_round writev = (\<lambda>(buffer, total, w, k).
     let iovecs = BufferViewList_as_iovecs buffer; (ret, errno, k') = writev (fd_fd w) iovecs k
     in andthen (SystemCall ''writev'' (size_to_int ret) errno 0) (\<lambda>r.
          let bytes_written = int_to_size r
          in if bytes_written = 0 \<and> BufferViewList_size buffer \<noteq> 0
             then Inl (RuntimeError ''write returned 0 given non-empty input buffer'')
             else if sint (BufferViewList_size buffer) < sint bytes_written
             then Inl (RuntimeError ''write wrote more than length of input buffer'')
             else let w' = FileDescriptor_register_write w
                  in andthen (BufferViewList_remove_prefix buffer bytes_written) (\<lambda>buffer'.
                     Inr (buffer', total + bytes_written, w', k'))))"

definition FileDescriptor_write ::
  "'k writev \<Rightarrow> FDWrapper \<Rightarrow> BufferViewList \<Rightarrow> bool \<Rightarrow> 'k \<Rightarrow> (size_t \<times> FDWrapper \<times> 'k) result" where
  "FileDescriptor_write writev w buffer write_all k =
     andthen (FileDescriptor_write_round writev (buffer, 0, w, k)) (\<lambda>s.
     andthen (while_loop (\<lambda>(buffer, total, w, k). write_all \<and> BufferViewList_size buffer \<noteq> 0)
                (FileDescriptor_write_round writev) s) (\<lambda>(buffer, total, w, k).
     Inr (total, w, k)))"

text \<open>\<open>set_blocking\<close>: the answers to the two calls of \<open>fcntl\<close>, and the flags that are set.\<close>

definition O_NONBLOCK :: cint where
  "O_NONBLOCK = 0x800"

definition FileDescriptor_set_blocking :: "bool \<Rightarrow> cint \<times> cint \<Rightarrow> (cint \<Rightarrow> cint \<times> cint) \<Rightarrow> cint result" where
  "FileDescriptor_set_blocking blocking_state getfl setfl =
     andthen (SystemCall ''fcntl'' (fst getfl) (snd getfl) 0) (\<lambda>flags.
       let flags' = (if blocking_state then xor flags (and flags O_NONBLOCK) else or flags O_NONBLOCK);
           (ret, errno) = setfl flags'
       in andthen (SystemCall ''fcntl'' ret errno 0) (\<lambda>_. Inr flags'))"

section \<open>Lemmas\<close>

lemma as_iovecs_eq: "BufferViewList_as_iovecs vl = map (\<lambda>x. (x, size_of x)) vl"
proof -
  have "foldl (\<lambda>ret x. ret @ [(x, size_of x)]) a vl = a @ map (\<lambda>x. (x, size_of x)) vl" for a
    by (induction vl arbitrary: a) simp_all
  then show ?thesis by (simp add: BufferViewList_as_iovecs_def)
qed

text \<open>Counts below \<open>2^31\<close> pass through \<open>SystemCall\<close>.\<close>

lemma count_through:
  assumes "n < 2 ^ 31"
  shows "SystemCall s (of_nat n) e m = Inr (of_nat n)" and "int_to_size (of_nat n) = of_nat n"
    and "sint (of_nat n :: size_t) = int n"
proof -
  have "sint (of_nat n :: cint) = int n" using assms by (simp add: signed_of_nat signed_take_bit_int_eq_self)
  then show "SystemCall s (of_nat n) e m = Inr (of_nat n)" by (simp add: SystemCall_def)
  have "unat (of_nat n :: cint) = n" using assms by (simp add: unat_of_nat)
  then show "int_to_size (of_nat n) = of_nat n" using assms by (simp add: word_unat_eq_iff unat_scast_int unat_of_nat)
  show "sint (of_nat n :: size_t) = int n" using assms by (simp add: signed_of_nat signed_take_bit_int_eq_self)
qed

text \<open>Reading at most what was asked for: the bytes come through, and the end of the file is noticed.\<close>

lemma read_delivers:
  assumes "length d \<le> unat limit"  and "length d \<le> 1024 * 1024"
  shows "FileDescriptor_read w limit (of_nat (length d), e, d) =
    Inr (d, w\<lparr>fd_eof := (fd_eof w \<or> 0 < limit \<and> d = []), fd_read_count := fd_read_count w + 1\<rparr>)"
proof -
  have n: "length d < 2 ^ 31" using assms(2) by simp
  note c = count_through[OF n]
  have sz: "length d \<le> unat (min BUFFER_SIZE limit)"
    using assms by (simp add: BUFFER_SIZE_def min_def)
  have "unat (min BUFFER_SIZE limit) \<le> 1024 * 1024"
    by (simp add: BUFFER_SIZE_def min_def word_le_nat_alt)
  then have m: "sint (min BUFFER_SIZE limit) = int (unat (min BUFFER_SIZE limit))"
    using count_through(3)[of "unat (min BUFFER_SIZE limit)"] by simp
  have le: "\<not> sint (min BUFFER_SIZE limit) < sint (of_nat (length d) :: size_t)"
    using sz by (simp only: c(3) m of_nat_less_iff not_less)
  have u: "unat (of_nat (length d) :: size_t) = length d" using n by (simp add: unat_of_nat)
  then have z: "(of_nat (length d) :: size_t) = 0 \<longleftrightarrow> d = []" by (metis length_0_conv unat_0 word_unat_eq_iff)
  have "FileDescriptor_read w limit (of_nat (length d), e, d) =
      Inr (d, FileDescriptor_register_read (if 0 < limit \<and> d = [] then w\<lparr>fd_eof := True\<rparr> else w))"
    using sz by (simp add: FileDescriptor_read_def Let_def c(1,2) le z u)
  then show ?thesis by (cases "0 < limit \<and> d = []") (auto simp: FileDescriptor_register_read_def)
qed

text \<open>The same function without the padding of the buffer, for evaluation.\<close>

lemma read_code [code]:
  "FileDescriptor_read w limit (ret, errno, data) =
     (let size_to_read = min BUFFER_SIZE limit
      in if uint size_to_read < int (length data) then Inl (Undefined ''read past the end of the buffer'')
         else andthen (SystemCall ''read'' (size_to_int ret) errno 0) (\<lambda>r.
           let bytes_read = int_to_size r;
               w1 = (if 0 < limit \<and> bytes_read = 0 then w\<lparr>fd_eof := True\<rparr> else w)
           in if sint size_to_read < sint bytes_read then Inl (RuntimeError ''read() read more than requested'')
              else Inr (take (unat bytes_read) data @ replicate (nat (min (uint bytes_read) (uint size_to_read)) - length data) 0,
                        FileDescriptor_register_read w1)))"
proof -
  have lt: "unat n < length data \<longleftrightarrow> uint n < int (length data)" for n :: size_t
    unfolding uint_nat by (rule of_nat_less_iff[symmetric])
  have mn: "nat (min (uint a) (uint b)) = min (unat a) (unat b)" for a b :: size_t
    unfolding uint_nat of_nat_min[symmetric] by (rule nat_int)
  have pad: "take (unat r) (data @ replicate (unat n - length data) 0) =
      take (unat r) data @ replicate (nat (min (uint r) (uint n)) - length data) 0" for r n :: size_t
    unfolding mn by (simp add: min_def)
  show ?thesis unfolding FileDescriptor_read_def Let_def prod.case pad lt by (rule refl)
qed

text \<open>An answer that is an error, or a count of the bytes put into the buffer.\<close>

lemma read_outcome:
  assumes "length d \<le> unat (min BUFFER_SIZE limit)" and "sint (size_to_int ret) < 0 \<and> e \<noteq> 0 \<or> ret = of_nat (length d)"
  shows "FileDescriptor_read w limit (ret, e, d) =
    (if sint (size_to_int ret) < 0 \<and> e \<noteq> 0 then Inl (UnixError ''read'' e)
     else Inr (d, w\<lparr>fd_eof := (fd_eof w \<or> 0 < limit \<and> d = []), fd_read_count := fd_read_count w + 1\<rparr>))"
proof (cases "sint (size_to_int ret) < 0 \<and> e \<noteq> 0")
  case True
  then show ?thesis using assms(1) by (simp add: FileDescriptor_read_def SystemCall_def Let_def)
next
  case False
  have "unat (min BUFFER_SIZE limit) \<le> unat limit" "unat (min BUFFER_SIZE limit) \<le> 1024 * 1024"
    by (simp_all add: BUFFER_SIZE_def min_def word_le_nat_alt)
  then have d: "length d \<le> unat limit" "length d \<le> 1024 * 1024" using assms(1) by linarith+
  have "ret = of_nat (length d)" using False assms(2) by blast
  then show ?thesis unfolding if_not_P[OF False] using read_delivers[OF d, of w e] by blast
qed

lemma blocking_bit: 
  assumes "FileDescriptor_set_blocking b getfl setfl = Inr flags"
  shows "bit flags 11 \<longleftrightarrow> \<not> b"
proof -
  have O: "bit O_NONBLOCK 11" by (simp add: O_NONBLOCK_def)
  show ?thesis
    using assms O
    by (cases b) (auto simp: FileDescriptor_set_blocking_def andthen_Inr_iff Let_def bit_simps case_prod_beta split: if_splits)
qed

text \<open>
  What \<open>writev\<close> documents for a blocking descriptor: of a non-empty string it takes at least one byte and at most
  as many as one call can (less than \<open>2^31\<close>), from the front. \<open>taken\<close> is what the descriptor has taken so far.
\<close>

definition sink :: "'k writev \<Rightarrow> ('k \<Rightarrow> bytes) \<Rightarrow> bool" where
  "sink writev taken \<longleftrightarrow> (\<forall>fd iov k. \<exists>n errno k'. writev fd iov k = (of_nat n, errno, k') \<and>
     n \<le> length (concat (map fst iov)) \<and> n < 2 ^ 31 \<and> (concat (map fst iov) \<noteq> [] \<longrightarrow> 0 < n) \<and>
     taken k' = taken k @ take n (concat (map fst iov)))"

text \<open>One round, given the answer of \<open>writev\<close>.\<close>

lemma write_round_answer:
  assumes wr: "writev (fd_fd w) (BufferViewList_as_iovecs buffer) k = (of_nat n, e, k')" and len: "length (concat buffer) < 2 ^ 63"
    and n: "n \<le> length (concat buffer)" "n < 2 ^ 31" "concat buffer \<noteq> [] \<longrightarrow> 0 < n"
  shows "\<exists>buffer'. FileDescriptor_write_round writev (buffer, tot, w, k) =
      Inr (buffer', tot + of_nat n, w\<lparr>fd_write_count := fd_write_count w + 1\<rparr>, k') \<and> concat buffer' = drop n (concat buffer)"
proof -
  note c = count_through[OF n(2)]
  have u: "unat (of_nat n :: size_t) = n" using n(2) by (simp add: unat_of_nat)
  have size: "BufferViewList_size buffer = of_nat (length (concat buffer))" by (simp only: size_eq_concat size_of_def)
  have "sint (BufferViewList_size buffer) = int (length (concat buffer))"
    unfolding size using len by (simp add: signed_of_nat signed_take_bit_int_eq_self)
  then have le: "\<not> sint (BufferViewList_size buffer) < sint (of_nat n :: size_t)" using n(1) c(3) by simp
  have nz: "\<not> ((of_nat n :: size_t) = 0 \<and> BufferViewList_size buffer \<noteq> 0)"
    using n(3) u by (metis gr_implies_not0 length_0_conv of_nat_0 size unat_0)
  obtain buffer' where rm: "BufferViewList_remove_prefix buffer (of_nat n) = Inr buffer'" "concat buffer' = drop n (concat buffer)"
    using view_list_removal.remove_ok[of buffer "of_nat n"] len n(1) u by (auto simp: BufferViewList_wf_def)
  have "FileDescriptor_write_round writev (buffer, tot, w, k) =
      Inr (buffer', tot + of_nat n, w\<lparr>fd_write_count := fd_write_count w + 1\<rparr>, k')"
    by (simp add: FileDescriptor_write_round_def wr c(1,2) if_not_P[OF nz] if_not_P[OF le] rm(1) FileDescriptor_register_write_def)
  with rm(2) show ?thesis by blast
qed

lemma iovecs_pieces [simp]: "map fst (BufferViewList_as_iovecs buffer) = buffer"
  by (simp add: as_iovecs_eq comp_def)

lemma write_round:
  assumes sink: "sink writev taken" and len: "length (concat buffer) < 2 ^ 63"
  shows "\<exists>n buffer' k'. FileDescriptor_write_round writev (buffer, tot, w, k) =
      Inr (buffer', tot + of_nat n, w\<lparr>fd_write_count := fd_write_count w + 1\<rparr>, k') \<and>
    n \<le> length (concat buffer) \<and> (concat buffer \<noteq> [] \<longrightarrow> 0 < n) \<and> concat buffer' = drop n (concat buffer) \<and>
    taken k' = taken k @ take n (concat buffer)"
proof -
  obtain n e k' where wr: "writev (fd_fd w) (BufferViewList_as_iovecs buffer) k = (of_nat n, e, k')"
    and n: "n \<le> length (concat buffer)" "n < 2 ^ 31" "concat buffer \<noteq> [] \<longrightarrow> 0 < n" "taken k' = taken k @ take n (concat buffer)"
    using sink iovecs_pieces[of buffer] unfolding sink_def by metis
  from write_round_answer[where writev = writev and w = w and buffer = buffer and k = k, OF wr len n(1-3), of tot] n
  show ?thesis by blast
qed

lemma write_finishes:
  assumes sink: "sink writev taken" and len: "length (concat buffer) < 2 ^ 63"
  shows "\<exists>w' k'. FileDescriptor_write writev w buffer True k = Inr (size_of (concat buffer), w', k') \<and>
    taken k' = taken k @ concat buffer \<and> fd_eof w' = fd_eof w \<and> fd_closed w' = fd_closed w"
proof -
  define I where "I = (\<lambda>(b :: BufferViewList, tot :: size_t, w' :: FDWrapper, k'). length (concat b) \<le> length (concat buffer) \<and>
    tot = of_nat (length (concat buffer) - length (concat b)) \<and> taken k' @ concat b = taken k @ concat buffer \<and>
    fd_eof w' = fd_eof w \<and> fd_closed w' = fd_closed w)"
  have round: "\<exists>t. FileDescriptor_write_round writev s = Inr t \<and> I t \<and>
      (concat (fst s) \<noteq> [] \<longrightarrow> length (concat (fst t)) < length (concat (fst s)))" if I: "I s" for s
  proof -
    obtain b tot w1 k1 where s: "s = (b, tot, w1, k1)" by (cases s) auto
    have "length (concat b) < 2 ^ 63" using I len by (simp add: I_def s)
    from write_round[OF sink this, of tot w1 k1] obtain n b' k2 where r:
      "FileDescriptor_write_round writev s = Inr (b', tot + of_nat n, w1\<lparr>fd_write_count := fd_write_count w1 + 1\<rparr>, k2)"
      "n \<le> length (concat b)" "concat b \<noteq> [] \<longrightarrow> 0 < n" "concat b' = drop n (concat b)" "taken k2 = taken k1 @ take n (concat b)"
      unfolding s by blast
    then have "I (b', tot + of_nat n, w1\<lparr>fd_write_count := fd_write_count w1 + 1\<rparr>, k2)"
      using I by (auto simp: I_def s simp flip: of_nat_add intro!: arg_cong[of _ _ of_nat])
    with r show ?thesis by (auto simp: s)
  qed
  have "I (buffer, 0, w, k)" by (simp add: I_def)
  from round[OF this] obtain s1 where s1: "FileDescriptor_write_round writev (buffer, 0, w, k) = Inr s1" "I s1" by blast
  let ?b = "\<lambda>(b, tot, w, k). True \<and> BufferViewList_size b \<noteq> 0"
  have more: "?b s \<longrightarrow> concat (fst s) \<noteq> []" for s by (cases s) (auto simp: size_eq_concat simp del: concat_eq_Nil_conv)
  have "\<exists>s2. while_loop ?b (FileDescriptor_write_round writev) s1 = Inr s2 \<and> I s2 \<and> \<not> ?b s2"
    by (rule while_loop_total[where m = "\<lambda>s. length (concat (fst s))"]) (use s1(2) round more in blast)+
  then obtain b2 t2 w2 k2 where s2: "while_loop ?b (FileDescriptor_write_round writev) s1 = Inr (b2, t2, w2, k2)"
    "I (b2, t2, w2, k2)" "BufferViewList_size b2 = 0" by auto
  have "length (concat b2) < 2 ^ 63" using s2(2) len by (simp add: I_def)
  then have "concat b2 = []" using s2(3) unat_size_of[of "concat b2"] by (simp add: size_eq_concat)
  with s2(1,2) s1(1) show ?thesis by (auto simp: FileDescriptor_write_def I_def size_of_def)
qed

text \<open>Without \<open>write_all\<close> there is one round.\<close>

lemma write_once:
  assumes "writev (fd_fd w) [(s, size_of s)] k = (of_nat n, e, k')" and "length s < 2 ^ 63"
    and "n \<le> length s" "n < 2 ^ 31" "s \<noteq> [] \<longrightarrow> 0 < n"
  shows "FileDescriptor_write writev w [s] False k = Inr (of_nat n, w\<lparr>fd_write_count := fd_write_count w + 1\<rparr>, k')"
  using write_round_answer[of writev w "[s]" k n e k' 0] assms by (auto simp: FileDescriptor_write_def as_iovecs_eq)

lemma write_fails:
  assumes "writev (fd_fd w) [(s, size_of s)] k = (ret, e, k')" and "sint (size_to_int ret) < 0" and "e \<noteq> 0"
  shows "FileDescriptor_write writev w [s] False k = Inl (UnixError ''writev'' e)"
  using assms by (simp add: FileDescriptor_write_def FileDescriptor_write_round_def as_iovecs_eq SystemCall_def)

lemma write_outcome:
  assumes wr: "writev (fd_fd w) [(s, size_of s)] k = (ret, e, k')" and len: "length s < 2 ^ 63"
    and answer: "sint (size_to_int ret) < 0 \<and> e \<noteq> 0 \<or> (\<exists>n. ret = of_nat n \<and> n \<le> length s \<and> n < 2 ^ 31 \<and> (s \<noteq> [] \<longrightarrow> 0 < n) \<and> P n)"
  shows "FileDescriptor_write writev w [s] False k = Inl (UnixError ''writev'' e) \<or>
    (\<exists>n. FileDescriptor_write writev w [s] False k = Inr (of_nat n, w\<lparr>fd_write_count := fd_write_count w + 1\<rparr>, k') \<and>
      n \<le> length s \<and> n < 2 ^ 31 \<and> P n)"
  using answer
proof
  assume "sint (size_to_int ret) < 0 \<and> e \<noteq> 0"
  then show ?thesis using write_fails[where writev = writev and w = w and s = s and k = k, OF wr] by blast
next
  assume "\<exists>n. ret = of_nat n \<and> n \<le> length s \<and> n < 2 ^ 31 \<and> (s \<noteq> [] \<longrightarrow> 0 < n) \<and> P n"
  then obtain n where n: "ret = of_nat n" "n \<le> length s" "n < 2 ^ 31" "s \<noteq> [] \<longrightarrow> 0 < n" "P n" by blast
  from write_once[where writev = writev and w = w and s = s and k = k, OF wr[unfolded n(1)] len n(2-4)] n(2,3,5) show ?thesis by blast
qed

section \<open>Properties\<close>

text \<open>Writing everything ends and writes everything. On a descriptor that takes at least one byte of a
non-empty string in each call, \<open>write\<close> with \<open>write_all\<close> returns the size of its argument, and the
descriptor has taken exactly the bytes of all its pieces, in order, however small the portions were.\<close>

theorem write_all_writes:
  assumes "sink writev taken" and "length (concat buffer) < 2 ^ 63"
  shows "\<exists>w' k'. FileDescriptor_write writev w buffer True k = Inr (size_of (concat buffer), w', k') \<and>
    taken k' = taken k @ concat buffer"
  using write_finishes[OF assms, of w k] by blast

text \<open>A descriptor that takes two bytes at a time.\<close>

definition two_bytes :: "bytes writev" where
  "two_bytes fd iov k = (let s = concat (map fst iov); n = min 2 (length s) in (of_nat n, 0, k @ take n s))"

theorem write_all_writes_witness:
  "\<exists>w' k'. FileDescriptor_write two_bytes \<lparr>fd_fd = 3, fd_eof = False, fd_closed = False, fd_read_count = 0, fd_write_count = 0\<rparr>
      [[1], [2, 3], [4, 5]] True [9] = Inr (5, w', k') \<and> k' = [9, 1, 2, 3, 4, 5]"
proof -
  have "sink two_bytes (\<lambda>k. k)"
    unfolding sink_def two_bytes_def Let_def by (intro allI exI conjI refl) (auto simp del: concat_eq_Nil_conv)
  from write_all_writes[OF this, of "[[1], [2, 3], [4, 5]]"
      "\<lparr>fd_fd = 3, fd_eof = False, fd_closed = False, fd_read_count = 0, fd_write_count = 0\<rparr>" "[9]"] show ?thesis by (simp add: size_of_def)
qed

end
