(* ===== verification/Event_Loop.thy ===== *)
theory Event_Loop
  imports File_Descriptor
begin

text \<open>
  \<open>libsponge/util/eventloop.{hh,cc}\<close>. The state the callbacks work on is a type parameter, the world.
  Descriptors are shared: a rule names one by an address, and \<open>fdw\<close> finds the wrapper at an address in
  the world. \<open>poll\<close> is an argument; it gives its return value, \<open>errno\<close> and the returned events, and the
  world after the wait. Interest callbacks only look at the world, and no callback adds rules.
\<close>

section \<open>Rules\<close>

datatype Direction = In | Out

definition POLLIN :: u16 where
  "POLLIN = 0x001"

definition POLLOUT :: u16 where
  "POLLOUT = 0x004"

definition POLLERR :: u16 where
  "POLLERR = 0x008"

definition POLLHUP :: u16 where
  "POLLHUP = 0x010"

definition POLLNVAL :: u16 where
  "POLLNVAL = 0x020"

fun Direction_events :: "Direction \<Rightarrow> u16" where
  "Direction_events In = POLLIN"
| "Direction_events Out = POLLOUT"

record 'w Rule =
  ru_fd :: nat
  ru_direction :: Direction
  ru_callback :: "'w \<Rightarrow> 'w result"
  ru_interest :: "'w \<Rightarrow> bool"
  ru_cancel :: "'w \<Rightarrow> 'w result"

type_synonym 'w fdw = "'w \<Rightarrow> nat \<Rightarrow> FDWrapper"

definition Rule_service_count :: "'w fdw \<Rightarrow> 'w Rule \<Rightarrow> 'w \<Rightarrow> u32" where
  "Rule_service_count fdw r w =
     (if ru_direction r = In then fd_read_count (fdw w (ru_fd r)) else fd_write_count (fdw w (ru_fd r)))"

record 'w EventLoop =
  el_rules :: "'w Rule list"

definition EventLoop_new :: "'w EventLoop" where
  "EventLoop_new = \<lparr>el_rules = []\<rparr>"

datatype Result = Success | Timeout | Exit

definition EventLoop_add_rule ::
  "'w EventLoop \<Rightarrow> nat \<Rightarrow> Direction \<Rightarrow> ('w \<Rightarrow> 'w result) \<Rightarrow> ('w \<Rightarrow> bool) \<Rightarrow> ('w \<Rightarrow> 'w result) \<Rightarrow> 'w EventLoop" where
  "EventLoop_add_rule el fd direction callback interest cancel =
     el\<lparr>el_rules := el_rules el @
       [\<lparr>ru_fd = fd, ru_direction = direction, ru_callback = callback, ru_interest = interest, ru_cancel = cancel\<rparr>]\<rparr>"

section \<open>Waiting\<close>

record pollfd =
  pf_fd :: cint
  pf_events :: u16
  pf_revents :: u16

text \<open>The first loop: the rules that stay, what to poll for them, whether there is anything to poll.\<close>

fun el_setup :: "'w fdw \<Rightarrow> 'w Rule list \<Rightarrow> 'w \<Rightarrow> ('w Rule list \<times> pollfd list \<times> bool \<times> 'w) result" where
  "el_setup fdw [] w = Inr ([], [], False, w)"
| "el_setup fdw (r # rs) w =
     (if ru_direction r = In \<and> fd_eof (fdw w (ru_fd r)) then andthen (ru_cancel r w) (el_setup fdw rs)
      else if fd_closed (fdw w (ru_fd r)) then andthen (ru_cancel r w) (el_setup fdw rs)
      else let interested = ru_interest r w;
               pf = \<lparr>pf_fd = fd_fd (fdw w (ru_fd r)),
                     pf_events = (if interested then Direction_events (ru_direction r) else 0), pf_revents = 0\<rparr>
           in andthen (el_setup fdw rs w) (\<lambda>(rs', pfs, something_to_poll, w').
              Inr (r # rs', pf # pfs, interested \<or> something_to_poll, w')))"

definition pf_error :: "pollfd \<Rightarrow> bool" where
  "pf_error pf \<longleftrightarrow> and (pf_revents pf) (or POLLERR POLLNVAL) \<noteq> 0"

definition pf_ready :: "pollfd \<Rightarrow> bool" where
  "pf_ready pf \<longleftrightarrow> and (pf_revents pf) (pf_events pf) \<noteq> 0"

definition pf_defunct :: "pollfd \<Rightarrow> bool" where
  "pf_defunct pf \<longleftrightarrow> and (pf_revents pf) POLLHUP \<noteq> 0 \<and> pf_events pf \<noteq> 0 \<and> \<not> pf_ready pf"

text \<open>The second loop: hung-up rules are cancelled, ready ones called.\<close>

fun el_dispatch :: "'w fdw \<Rightarrow> 'w Rule list \<Rightarrow> pollfd list \<Rightarrow> 'w \<Rightarrow> ('w Rule list \<times> 'w) result" where
  "el_dispatch fdw [] pfs w = Inr ([], w)"
| "el_dispatch fdw (r # rs) [] w = Inl (Undefined ''pollfds[idx]'')"
| "el_dispatch fdw (r # rs) (pf # pfs) w =
     (if pf_error pf then Inl (RuntimeError ''EventLoop: error on polled file descriptor'')
      else if pf_defunct pf then andthen (ru_cancel r w) (el_dispatch fdw rs pfs)
      else andthen
        (if pf_ready pf
         then let count_before = Rule_service_count fdw r w
              in andthen (ru_callback r w) (\<lambda>w'.
                 if count_before = Rule_service_count fdw r w' \<and> ru_interest r w'
                 then Inl (RuntimeError ''EventLoop: busy wait detected: callback did not read/write fd and is still interested'')
                 else Inr w')
         else Inr w)
        (\<lambda>w'. andthen (el_dispatch fdw rs pfs w') (\<lambda>(rs', w''). Inr (r # rs', w''))))"

type_synonym 'w poll = "pollfd list \<Rightarrow> cint \<Rightarrow> 'w \<Rightarrow> (cint \<times> cint \<times> u16 list) \<times> 'w"

definition EINTR :: cint where
  "EINTR = 4"

definition EventLoop_wait_next_event ::
  "'w fdw \<Rightarrow> 'w poll \<Rightarrow> 'w EventLoop \<Rightarrow> cint \<Rightarrow> 'w \<Rightarrow> (Result \<times> 'w EventLoop \<times> 'w) result" where
  "EventLoop_wait_next_event fdw poll el timeout_ms w =
     andthen (el_setup fdw (el_rules el) w) (\<lambda>(rs, pfs, something_to_poll, w1).
       if \<not> something_to_poll then Inr (Exit, el\<lparr>el_rules := rs\<rparr>, w1)
       else
         let ((ret, errno, revents), w2) = poll pfs timeout_ms w1;
             answered = map2 (\<lambda>pf rev. pf\<lparr>pf_revents := rev\<rparr>) pfs revents;
             go_on = andthen (el_dispatch fdw rs answered w2) (\<lambda>(rs', w3). Inr (Success, el\<lparr>el_rules := rs'\<rparr>, w3))
         in case SystemCall ''poll'' ret errno 0 of
              Inl (UnixError _ e) \<Rightarrow> if e = EINTR then Inr (Exit, el\<lparr>el_rules := rs\<rparr>, w2) else go_on
            | Inl f \<Rightarrow> Inl f
            | Inr n \<Rightarrow> if n = 0 then Inr (Timeout, el\<lparr>el_rules := rs\<rparr>, w2) else go_on)"

section \<open>Lemmas\<close>

text \<open>One descriptor is polled for each rule that stays, and rules stay in order.\<close>

lemma setup_length:
  "el_setup fdw rs w = Inr (rs', pfs, b, w') \<Longrightarrow> length pfs = length rs' \<and> set rs' \<subseteq> set rs \<and> (\<forall>pf\<in>set pfs. pf_revents pf = 0)"
proof (induction rs arbitrary: w rs' pfs b)
  case (Cons r rs)
  then show ?case by (fastforce simp: andthen_Inr_iff Let_def split: if_splits)
qed simp

text \<open>
  What the calls keep is kept by the loops. A rule is cancelled by the first loop only if its descriptor is at its
  end or closed, and by the second only if its answer is a hangup and nothing else. The descriptors
  polled are those of the rules that stay.
\<close>

lemma setup_keeps:
  assumes "el_setup fdw rs w = Inr (rs', pfs, b, w')" and "I w"
    and "\<And>r w w'. r \<in> set rs \<Longrightarrow> I w \<Longrightarrow> ru_direction r = In \<and> fd_eof (fdw w (ru_fd r)) \<or> fd_closed (fdw w (ru_fd r)) \<Longrightarrow>
      ru_cancel r w = Inr w' \<Longrightarrow> I w'"
  shows "I w' \<and> list_all2 (\<lambda>r pf. (\<exists>v. I v \<and> pf_fd pf = fd_fd (fdw v (ru_fd r))) \<and>
    (pf_events pf = 0 \<or> pf_events pf = Direction_events (ru_direction r))) rs' pfs"
  using assms
proof (induction rs arbitrary: w rs' pfs b)
  case (Cons r rs)
  show ?case
  proof (cases "ru_direction r = In \<and> fd_eof (fdw w (ru_fd r)) \<or> fd_closed (fdw w (ru_fd r))")
    case True
    with Cons.prems(1) obtain w1 where w1: "ru_cancel r w = Inr w1" "el_setup fdw rs w1 = Inr (rs', pfs, b, w')"
      by (auto simp: andthen_Inr_iff split: if_splits)
    have "I w1" using Cons.prems(3)[OF _ Cons.prems(2) True w1(1)] by simp
    then show ?thesis by (rule Cons.IH[OF w1(2)]) (use Cons.prems(3) in auto)
  next
    case False
    with Cons.prems(1) obtain rs1 pfs1 b1 where s: "el_setup fdw rs w = Inr (rs1, pfs1, b1, w')" and
      r: "rs' = r # rs1" "\<exists>pf. pfs = pf # pfs1 \<and> pf_fd pf = fd_fd (fdw w (ru_fd r)) \<and>
        (pf_events pf = 0 \<or> pf_events pf = Direction_events (ru_direction r))"
      by (auto simp: andthen_Inr_iff Let_def split: if_splits)
    from Cons.IH[OF s Cons.prems(2)] Cons.prems(3) r Cons.prems(2) show ?thesis by auto
  qed
qed simp

lemma dispatch_keeps:
  assumes "el_dispatch fdw rs pfs w = Inr (rs', w')" and "I w"
    and "\<And>r pf w w'. (r, pf) \<in> set (zip rs pfs) \<Longrightarrow> pf_defunct pf \<Longrightarrow> I w \<Longrightarrow> ru_cancel r w = Inr w' \<Longrightarrow> I w'"
    and "\<And>r w w'. r \<in> set rs \<Longrightarrow> I w \<Longrightarrow> ru_callback r w = Inr w' \<Longrightarrow> I w'"
  shows "I w' \<and> set rs' \<subseteq> set rs"
  using assms
proof (induction fdw rs pfs w arbitrary: rs' rule: el_dispatch.induct)
  case (3 fdw r rs pf pfs w)
  have zipD: "(r', pf') \<in> set (zip (r # rs) (pf # pfs))" if "(r', pf') \<in> set (zip rs pfs)" for r' pf' using that by simp
  show ?case
  proof (cases "pf_defunct pf")
    case True
    with 3(3) obtain w1 where w1: "ru_cancel r w = Inr w1" "el_dispatch fdw rs pfs w1 = Inr (rs', w')" and e: "\<not> pf_error pf"
      by (auto simp: andthen_Inr_iff split: if_splits)
    have "I w1" using 3(5)[OF _ True 3(4) w1(1)] by simp
    then have "I w' \<and> set rs' \<subseteq> set rs" 
      by (rule 3(1)[OF e True w1(2)]) (meson 3(5,6) list.set_intros(2) zipD)+
    then show ?thesis by auto
  next
    case False
    with 3(3) obtain w1 rs1 where w1: "w1 = w \<or> ru_callback r w = Inr w1" "el_dispatch fdw rs pfs w1 = Inr (rs1, w')"
      and rs: "rs' = r # rs1" and e: "\<not> pf_error pf"
      by (auto simp: andthen_Inr_iff Let_def split: if_splits)
    have "I w1" using 3(6)[OF _ 3(4)] w1(1) 3(4) by auto
    then have "I w' \<and> set rs1 \<subseteq> set rs" 
      by (rule 3(2)[OF e False w1(2)]) (meson 3(5,6) list.set_intros(2) zipD)+
    then show ?thesis using rs by auto
  qed
qed auto

text \<open>
  The first loop exactly, when cancelling does not touch the descriptors: the rules whose descriptor is at its end or
  closed go, and when there is nothing to poll every other rule said that it is not interested.
\<close>

abbreviation gone :: "'w fdw \<Rightarrow> 'w \<Rightarrow> 'w Rule \<Rightarrow> bool" where
  "gone fdw w r \<equiv> ru_direction r = In \<and> fd_eof (fdw w (ru_fd r)) \<or> fd_closed (fdw w (ru_fd r))"

lemma setup_spec:
  assumes "el_setup fdw rs w = Inr (rs', pfs, b, w')" and "Q w"
    and "\<And>r w w'. r \<in> set rs \<Longrightarrow> Q w \<Longrightarrow> gone fdw w r \<Longrightarrow> ru_cancel r w = Inr w' \<Longrightarrow> Q w' \<and> fdw w' = fdw w"
  shows "Q w' \<and> fdw w' = fdw w \<and> rs' = filter (\<lambda>r. \<not> gone fdw w r) rs \<and> (\<not> b \<longrightarrow> (\<forall>r\<in>set rs'. \<exists>v. Q v \<and> \<not> ru_interest r v))"
  using assms
proof (induction rs arbitrary: w rs' pfs b)
  case (Cons r rs)
  show ?case
  proof (cases "gone fdw w r")
    case True
    with Cons.prems(1) obtain w1 where w1: "ru_cancel r w = Inr w1" "el_setup fdw rs w1 = Inr (rs', pfs, b, w')"
      by (auto simp: andthen_Inr_iff split: if_splits)
    have Q1: "Q w1" "fdw w1 = fdw w" using Cons.prems(3)[OF _ Cons.prems(2) True w1(1)] by simp_all
    have "Q w' \<and> fdw w' = fdw w1 \<and> rs' = filter (\<lambda>r. \<not> gone fdw w1 r) rs \<and> (\<not> b \<longrightarrow> (\<forall>r\<in>set rs'. \<exists>v. Q v \<and> \<not> ru_interest r v))"
      by (rule Cons.IH[OF w1(2) Q1(1)]) (use Cons.prems(3) in auto)
    then show ?thesis using True Q1(2) by simp
  next
    case False
    with Cons.prems(1) obtain rs1 pfs1 b1 where s: "el_setup fdw rs w = Inr (rs1, pfs1, b1, w')" and
      r: "rs' = r # rs1" "b = (ru_interest r w \<or> b1)"
      by (auto simp: andthen_Inr_iff Let_def split: if_splits)
    have "Q w' \<and> fdw w' = fdw w \<and> rs1 = filter (\<lambda>r. \<not> gone fdw w r) rs \<and> (\<not> b1 \<longrightarrow> (\<forall>r\<in>set rs1. \<exists>v. Q v \<and> \<not> ru_interest r v))"
      by (rule Cons.IH[OF s Cons.prems(2)]) (use Cons.prems(3) in auto)
    then show ?thesis using False r Cons.prems(2) by auto
  qed
qed simp

lemma dispatch_rules:
  assumes "el_dispatch fdw rs pfs w = Inr (rs', w')" and "\<forall>pf\<in>set pfs. \<not> pf_defunct pf"
  shows "rs' = rs"
  using assms
proof (induction fdw rs pfs w arbitrary: rs' rule: el_dispatch.induct)
  case (3 fdw r rs pf pfs w)
  then show ?case by (auto simp: andthen_Inr_iff Let_def split: if_splits)
qed auto

text \<open>\<open>D\<close> is what is known in the second loop, from the answer of \<open>poll\<close>.\<close>

lemma wait_keeps:
  assumes run: "EventLoop_wait_next_event fdw poll el timeout_ms w = Inr (res, el', w')" and I: "I w"
    and cancel: "\<And>r w w'. r \<in> set (el_rules el) \<Longrightarrow> I w \<Longrightarrow>
      ru_direction r = In \<and> fd_eof (fdw w (ru_fd r)) \<or> fd_closed (fdw w (ru_fd r)) \<Longrightarrow> ru_cancel r w = Inr w' \<Longrightarrow> I w'"
    and poll: "\<And>pfs w ret e revs w'. I w \<Longrightarrow> poll pfs timeout_ms w = ((ret, e, revs), w') \<Longrightarrow> D (zip pfs revs) w'"
    and hangup: "\<And>r pf rev ps w w'. r \<in> set (el_rules el) \<Longrightarrow> (pf, rev) \<in> set ps \<Longrightarrow> pf_defunct (pf\<lparr>pf_revents := rev\<rparr>) \<Longrightarrow>
      \<exists>v. I v \<and> pf_fd pf = fd_fd (fdw v (ru_fd r)) \<Longrightarrow> pf_events pf = Direction_events (ru_direction r) \<Longrightarrow>
      D ps w \<Longrightarrow> ru_cancel r w = Inr w' \<Longrightarrow> D ps w'"
    and call: "\<And>r ps w w'. r \<in> set (el_rules el) \<Longrightarrow> D ps w \<Longrightarrow> ru_callback r w = Inr w' \<Longrightarrow> D ps w'"
    and fall: "\<And>ps w. D ps w \<Longrightarrow> I w"
  shows "I w' \<and> set (el_rules el') \<subseteq> set (el_rules el)"
proof -
  obtain rs pfs b w1 where s: "el_setup fdw (el_rules el) w = Inr (rs, pfs, b, w1)"
    using run by (auto simp: EventLoop_wait_next_event_def andthen_Inr_iff)
  have sub: "set rs \<subseteq> set (el_rules el)" using setup_length[OF s] by simp
  have I1: "I w1" and pair: "list_all2 (\<lambda>r pf. (\<exists>v. I v \<and> pf_fd pf = fd_fd (fdw v (ru_fd r))) \<and>
      (pf_events pf = 0 \<or> pf_events pf = Direction_events (ru_direction r))) rs pfs"
    using setup_keeps[where I = I, OF s I cancel] by auto
  obtain ret e revs w2 where p: "poll pfs timeout_ms w1 = ((ret, e, revs), w2)" by (metis surj_pair)
  have D2: "D (zip pfs revs) w2" by (rule poll[OF I1 p])
  let ?ans = "map2 (\<lambda>pf rev. pf\<lparr>pf_revents := rev\<rparr>) pfs revs"
  consider "w' = w1" "el_rules el' = rs" | "w' = w2" "el_rules el' = rs"
    | rs' where "el_dispatch fdw rs ?ans w2 = Inr (rs', w')" "el_rules el' = rs'"
    using run
    by (auto simp: EventLoop_wait_next_event_def s p andthen_Inr_iff Let_def split: if_splits sum.splits failure.splits)
  then show ?thesis
  proof cases
    case 3
    have "D (zip pfs revs) w' \<and> set rs' \<subseteq> set rs"
    proof (rule dispatch_keeps[where I = "D (zip pfs revs)", OF 3(1) D2])
      fix r pf v v' assume "(r, pf) \<in> set (zip rs ?ans)" and def: "pf_defunct pf" and D: "D (zip pfs revs) v" and c: "ru_cancel r v = Inr v'"
      then obtain i where i: "i < length rs" "i < length pfs" "i < length revs" "r = rs ! i" "pf = (pfs ! i)\<lparr>pf_revents := revs ! i\<rparr>"
        by (auto simp: in_set_zip)
      have "pf_events (pfs ! i) \<noteq> 0" using def i(5) by (simp add: pf_defunct_def)
      with list_all2_nthD[OF pair i(1)] i(4) have *: "\<exists>v. I v \<and> pf_fd (pfs ! i) = fd_fd (fdw v (ru_fd r))"
        "pf_events (pfs ! i) = Direction_events (ru_direction r)" by auto
      have "(pfs ! i, revs ! i) \<in> set (zip pfs revs)" using i(2,3) by (auto simp: in_set_zip)
      from hangup[OF _ this _ * D c] show "D (zip pfs revs) v'" using nth_mem[OF i(1)] sub i(4,5) def by blast
    qed (use call sub in blast)
    then show ?thesis using fall 3(2) sub by auto
  qed (use I1 fall[OF D2] sub in auto)
qed

section \<open>Properties\<close>

text \<open>What a round does to a rule, read off the answer of \<open>poll\<close>: cancelled, called, or nothing.\<close>

fun served :: "('w Rule \<Rightarrow> 'n) \<Rightarrow> 'w Rule list \<Rightarrow> pollfd list \<Rightarrow> ('n \<times> bool) list" where
  "served name (r # rs) (pf # pfs) =
     (if pf_defunct pf then [(name r, False)] else if pf_ready pf then [(name r, True)] else []) @ served name rs pfs"
| "served name rs pfs = []"

fun kept :: "'w Rule list \<Rightarrow> pollfd list \<Rightarrow> 'w Rule list" where
  "kept (r # rs) (pf # pfs) = (if pf_defunct pf then kept rs pfs else r # kept rs pfs)"
| "kept rs pfs = []"

text \<open>
  What the documentation asks of a rule: its callback reads or writes the descriptor or gives up its interest.
  \<open>log\<close> lists the calls that were made, by the name of the rule, with True for the callback.
\<close>

definition well_behaved :: "'w fdw \<Rightarrow> ('w Rule \<Rightarrow> 'n) \<Rightarrow> ('w \<Rightarrow> ('n \<times> bool) list) \<Rightarrow> 'w Rule \<Rightarrow> bool" where
  "well_behaved fdw name log r \<longleftrightarrow>
     (\<forall>w. \<exists>w'. ru_callback r w = Inr w' \<and> log w' = log w @ [(name r, True)] \<and>
        (Rule_service_count fdw r w' \<noteq> Rule_service_count fdw r w \<or> \<not> ru_interest r w')) \<and>
     (\<forall>w. \<exists>w'. ru_cancel r w = Inr w' \<and> log w' = log w @ [(name r, False)])"

lemma dispatch_serves:
  assumes "length pfs = length rs" and "\<forall>r\<in>set rs. well_behaved fdw name log r" and "\<forall>pf\<in>set pfs. \<not> pf_error pf"
  shows "\<exists>w'. el_dispatch fdw rs pfs w = Inr (kept rs pfs, w') \<and> log w' = log w @ served name rs pfs"
  using assms
proof (induction rs pfs arbitrary: w rule: list_induct2')
  case (4 r rs pf pfs)
  then have IH: "\<exists>w'. el_dispatch fdw rs pfs w = Inr (kept rs pfs, w') \<and> log w' = log w @ served name rs pfs" for w by simp
  have r: "well_behaved fdw name log r" and e: "\<not> pf_error pf" using 4(3,4) by auto
  obtain wc wn where c: "ru_callback r w = Inr wc" "log wc = log w @ [(name r, True)]"
      "Rule_service_count fdw r wc \<noteq> Rule_service_count fdw r w \<or> \<not> ru_interest r wc"
    and n: "ru_cancel r w = Inr wn" "log wn = log w @ [(name r, False)]"
    using r unfolding well_behaved_def by blast
  have busy: "\<not> (Rule_service_count fdw r w = Rule_service_count fdw r wc \<and> ru_interest r wc)" using c(3) by auto
  show ?case
    using IH[of w] IH[of wc] IH[of wn] c(1,2) n e by (auto simp: if_not_P[OF busy])
qed simp_all


text \<open>
  A world that is a list of the calls made; the counts of a descriptor go up with each of its calls. Two rules, one
  for reading descriptor 0 and one for writing descriptor 1; the first is ready, the second hung up.
\<close>

definition toy_fdw :: "(nat \<times> bool) list fdw" where
  "toy_fdw w fd = \<lparr>fd_fd = of_nat fd, fd_eof = False, fd_closed = False, fd_read_count = of_nat (length w),
     fd_write_count = of_nat (length w)\<rparr>"

definition toy_rule :: "nat \<Rightarrow> Direction \<Rightarrow> (nat \<times> bool) list Rule" where
  "toy_rule fd d = \<lparr>ru_fd = fd, ru_direction = d, ru_callback = (\<lambda>w. Inr (w @ [(fd, True)])), ru_interest = (\<lambda>w. True),
     ru_cancel = (\<lambda>w. Inr (w @ [(fd, False)]))\<rparr>"

lemma toy_rule_behaves: "well_behaved toy_fdw ru_fd (\<lambda>w. w) (toy_rule fd d)"
  by (simp add: well_behaved_def toy_rule_def Rule_service_count_def toy_fdw_def)


text \<open>A failing \<open>poll\<close> goes unnoticed. If \<open>poll\<close> fails for any reason but a signal and so reports no events,
\<open>wait_next_event\<close> returns \<open>Success\<close> although nothing was triggered and no exception is thrown.\<close>

theorem poll_failure_ignored:
  assumes "el_setup fdw (el_rules el) w = Inr (rs, pfs, True, w1)"
    and "poll pfs timeout_ms w1 = ((-1, errno, map (\<lambda>_. 0) pfs), w2)" and "errno \<noteq> EINTR" and "errno \<noteq> 0"
  shows "EventLoop_wait_next_event fdw poll el timeout_ms w = Inr (Success, el\<lparr>el_rules := rs\<rparr>, w2)"
proof -
  have quiet: "el_dispatch fdw rs pfs w = Inr (rs, w)" if "length pfs = length rs" "\<forall>pf\<in>set pfs. pf_revents pf = 0" for rs pfs w
    using that by (induction rs pfs rule: list_induct2') (simp_all add: pf_error_def pf_defunct_def pf_ready_def)
  have "length pfs = length rs" "\<forall>pf\<in>set pfs. pf_revents pf = 0" using setup_length[OF assms(1)] by auto
  moreover from this(2) have "map2 (\<lambda>pf rev. pf\<lparr>pf_revents := rev\<rparr>) pfs (map (\<lambda>_. 0) pfs) = pfs"
    by (induction pfs) simp_all
  ultimately show ?thesis
    using assms(3,4) quiet by (simp add: EventLoop_wait_next_event_def assms(1,2) SystemCall_def Let_def)
qed

theorem poll_failure_ignored_witness:
  "EventLoop_wait_next_event toy_fdw (\<lambda>pfs t w. ((-1, 12, map (\<lambda>_. 0) pfs), w)) \<lparr>el_rules = [toy_rule 0 In]\<rparr> 10 [] =
     Inr (Success, \<lparr>el_rules = [toy_rule 0 In]\<rparr>, [])"
proof -
  have "el_setup toy_fdw (el_rules \<lparr>el_rules = [toy_rule 0 In]\<rparr>) [] =
      Inr ([toy_rule 0 In], [\<lparr>pf_fd = 0, pf_events = POLLIN, pf_revents = 0\<rparr>], True, [])"
    by (simp add: toy_fdw_def toy_rule_def)
  then show ?thesis
    using poll_failure_ignored[of toy_fdw "\<lparr>el_rules = [toy_rule 0 In]\<rparr>" "[]" _ _ "[]" "\<lambda>pfs t w. ((-1, 12, map (\<lambda>_. 0) pfs), w)" 10 12 "[]"]
    by (simp add: EINTR_def)
qed

end
