(* ===== verification/Sockets.thy ===== *)
theory Sockets
  imports File_Descriptor
begin

text \<open>
  \<open>libsponge/util/socket.{hh,cc}\<close> and \<open>tun.{hh,cc}\<close>: sockets and TUN/TAP devices as descriptors. The answer of the
  kernel to each system call (its return value, \<open>errno\<close>, and what it writes through pointers) is an argument.
\<close>

type_synonym sys_answer = "cint \<times> cint"

section \<open>Sockets\<close>

abbreviation (input) AF_UNIX :: cint where
  "AF_UNIX \<equiv> 1"

abbreviation (input) AF_INET_domain :: cint where
  "AF_INET_domain \<equiv> 2"

abbreviation (input) SOCK_STREAM :: cint where
  "SOCK_STREAM \<equiv> 1"

abbreviation (input) SOCK_DGRAM :: cint where
  "SOCK_DGRAM \<equiv> 2"

text \<open>\<open>socket\<close> is asked for a descriptor of the given domain and type.\<close>

definition Socket_new :: "(cint \<Rightarrow> cint \<Rightarrow> sys_answer) \<Rightarrow> cint \<Rightarrow> cint \<Rightarrow> FDWrapper result" where
  "Socket_new socket domain type =
     (let (ret, errno) = socket domain type in andthen (SystemCall ''socket'' ret errno 0) FDWrapper_new)"

text \<open>The answers of \<open>getsockopt\<close>: return value, \<open>errno\<close>, the option's value and its length.\<close>

type_synonym getsockopt_answer = "cint \<times> cint \<times> cint \<times> u32"

definition Socket_from_fd ::
  "FDWrapper \<Rightarrow> cint \<Rightarrow> cint \<Rightarrow> getsockopt_answer \<Rightarrow> getsockopt_answer \<Rightarrow> FDWrapper result" where
  "Socket_from_fd w domain type dom_answer type_answer =
     (let (ret1, errno1, value1, len1) = dom_answer; (ret2, errno2, value2, len2) = type_answer
      in andthen (SystemCall ''getsockopt'' ret1 errno1 0) (\<lambda>_.
         if len1 \<noteq> 4 \<or> value1 \<noteq> domain then Inl (RuntimeError ''socket domain mismatch'')
         else andthen (SystemCall ''getsockopt'' ret2 errno2 0) (\<lambda>_.
              if len2 \<noteq> 4 \<or> value2 \<noteq> type then Inl (RuntimeError ''socket type mismatch'')
              else Inr w)))"

text \<open>The answer of \<open>getsockname\<close> and \<open>getpeername\<close>: the storage and the size of the address.\<close>

definition Socket_get_address :: "string \<Rightarrow> cint \<times> cint \<times> bytes \<times> u32 \<Rightarrow> Address result" where
  "Socket_get_address name_of_function answer =
     (let (ret, errno, address, sz) = answer
      in andthen (SystemCall name_of_function ret errno 0) (\<lambda>_. Address_raw address (ucast sz)))"

definition Socket_local_address :: "cint \<times> cint \<times> bytes \<times> u32 \<Rightarrow> Address result" where
  "Socket_local_address = Socket_get_address ''getsockname''"

definition Socket_peer_address :: "cint \<times> cint \<times> bytes \<times> u32 \<Rightarrow> Address result" where
  "Socket_peer_address = Socket_get_address ''getpeername''"

definition Socket_bind :: "(bytes \<Rightarrow> u32 \<Rightarrow> sys_answer) \<Rightarrow> Address \<Rightarrow> cint result" where
  "Socket_bind bind address = (let (ret, errno) = bind (ad_storage address) (ad_size address) in SystemCall ''bind'' ret errno 0)"

definition Socket_connect :: "(bytes \<Rightarrow> u32 \<Rightarrow> sys_answer) \<Rightarrow> Address \<Rightarrow> cint result" where
  "Socket_connect connect address =
     (let (ret, errno) = connect (ad_storage address) (ad_size address) in SystemCall ''connect'' ret errno 0)"

abbreviation (input) SHUT_RD :: cint where
  "SHUT_RD \<equiv> 0"

abbreviation (input) SHUT_WR :: cint where
  "SHUT_WR \<equiv> 1"

abbreviation (input) SHUT_RDWR :: cint where
  "SHUT_RDWR \<equiv> 2"

definition Socket_shutdown :: "FDWrapper \<Rightarrow> cint \<Rightarrow> sys_answer \<Rightarrow> FDWrapper result" where
  "Socket_shutdown w how answer =
     andthen (SystemCall ''shutdown'' (fst answer) (snd answer) 0) (\<lambda>_.
       if how = SHUT_RD then Inr (FileDescriptor_register_read w)
       else if how = SHUT_WR then Inr (FileDescriptor_register_write w)
       else if how = SHUT_RDWR then Inr (FileDescriptor_register_write (FileDescriptor_register_read w))
       else Inl (RuntimeError ''Socket::shutdown() called with invalid `how`''))"

definition Socket_setsockopt :: "sys_answer \<Rightarrow> cint result" where
  "Socket_setsockopt answer = SystemCall ''setsockopt'' (fst answer) (snd answer) 0"

text \<open>\<open>SOL_SOCKET\<close> is 1 and \<open>SO_REUSEADDR\<close> is 2.\<close>

definition Socket_set_reuseaddr :: "(cint \<Rightarrow> cint \<Rightarrow> cint \<Rightarrow> sys_answer) \<Rightarrow> cint result" where
  "Socket_set_reuseaddr setsockopt = Socket_setsockopt (setsockopt 1 2 1)"

section \<open>UDP sockets\<close>

record received_datagram =
  rd_source_address :: Address
  rd_payload :: bytes

text \<open>
  The answer of \<open>recvfrom\<close> with \<open>MSG_TRUNC\<close>: the length of the datagram, \<open>errno\<close>, the bytes that were put into the
  buffer, the storage of the source address and its length.
\<close>

definition UDPSocket_recv ::
  "FDWrapper \<Rightarrow> size_t \<Rightarrow> size_t \<times> cint \<times> bytes \<times> bytes \<times> u32 \<Rightarrow> (received_datagram \<times> FDWrapper) result" where
  "UDPSocket_recv w mtu answer =
     (let (ret, errno, data, source, fromlen) = answer
      in if unat mtu < length data then Inl (Undefined ''recvfrom past the end of the buffer'')
         else andthen (SystemCall ''recvfrom'' (size_to_int ret) errno 0) (\<lambda>r.
           let recv_len = int_to_size r; buffer = data @ replicate (unat mtu - length data) 0
           in if sint mtu < sint recv_len then Inl (RuntimeError ''recvfrom (oversized datagram)'')
              else let w' = FileDescriptor_register_read w
                   in andthen (Address_raw source (ucast fromlen)) (\<lambda>a.
                      Inr (\<lparr>rd_source_address = a,
                            rd_payload = take (unat recv_len) buffer @ replicate (unat recv_len - length buffer) 0\<rparr>, w'))))"

text \<open>\<open>sendmsg\<close> gets the destination, if there is one, and the pieces.\<close>

type_synonym 'k sendmsg = "cint \<Rightarrow> (bytes \<times> u32) option \<Rightarrow> (bytes \<times> size_t) list \<Rightarrow> 'k \<Rightarrow> size_t \<times> cint \<times> 'k"

definition sendmsg_helper ::
  "'k sendmsg \<Rightarrow> cint \<Rightarrow> (bytes \<times> u32) option \<Rightarrow> BufferViewList \<Rightarrow> 'k \<Rightarrow> 'k result" where
  "sendmsg_helper sendmsg fd_num destination payload k =
     (let iovecs = BufferViewList_as_iovecs payload; (ret, errno, k') = sendmsg fd_num destination iovecs k
      in andthen (SystemCall ''sendmsg'' (size_to_int ret) errno 0) (\<lambda>r.
         if int_to_size r \<noteq> BufferViewList_size payload then Inl (RuntimeError ''datagram payload too big for sendmsg()'')
         else Inr k'))"

definition UDPSocket_sendto ::
  "'k sendmsg \<Rightarrow> FDWrapper \<Rightarrow> Address \<Rightarrow> BufferViewList \<Rightarrow> 'k \<Rightarrow> (FDWrapper \<times> 'k) result" where
  "UDPSocket_sendto sendmsg w destination payload k =
     andthen (sendmsg_helper sendmsg (fd_fd w) (Some (ad_storage destination, ad_size destination)) payload k) (\<lambda>k'.
     Inr (FileDescriptor_register_write w, k'))"

definition UDPSocket_send :: "'k sendmsg \<Rightarrow> FDWrapper \<Rightarrow> BufferViewList \<Rightarrow> 'k \<Rightarrow> (FDWrapper \<times> 'k) result" where
  "UDPSocket_send sendmsg w payload k =
     andthen (sendmsg_helper sendmsg (fd_fd w) None payload k) (\<lambda>k'. Inr (FileDescriptor_register_write w, k'))"

section \<open>TCP sockets\<close>

definition TCPSocket_listen :: "(cint \<Rightarrow> sys_answer) \<Rightarrow> cint \<Rightarrow> cint result" where
  "TCPSocket_listen listen backlog = (let (ret, errno) = listen backlog in SystemCall ''listen'' ret errno 0)"

text \<open>The new socket and the listening one, whose read count goes up before the call.\<close>

definition TCPSocket_accept ::
  "FDWrapper \<Rightarrow> sys_answer \<Rightarrow> getsockopt_answer \<Rightarrow> getsockopt_answer \<Rightarrow> (FDWrapper \<times> FDWrapper) result" where
  "TCPSocket_accept w answer dom_answer type_answer =
     (let w' = FileDescriptor_register_read w
      in andthen (SystemCall ''accept'' (fst answer) (snd answer) 0) (\<lambda>fd.
         andthen (FDWrapper_new fd) (\<lambda>new.
         andthen (Socket_from_fd new AF_INET_domain SOCK_STREAM dom_answer type_answer) (\<lambda>new'. Inr (new', w')))))"

section \<open>TUN and TAP devices\<close>

record ifreq =
  ifr_name :: bytes
  ifr_flags :: u16

definition IFNAMSIZ :: nat where
  "IFNAMSIZ = 16"

text \<open>\<open>strncpy\<close> of at most \<open>n\<close> bytes into a zeroed array: it stops at the first zero byte.\<close>

definition strncpy_zeroed :: "bytes \<Rightarrow> nat \<Rightarrow> bytes" where
  "strncpy_zeroed src n = (let s = takeWhile (\<lambda>b. b \<noteq> 0) (take n src) in s @ replicate (n - length s) 0)"

text \<open>The request a device is attached with; \<open>IFF_TUN\<close>, \<open>IFF_TAP\<close> and \<open>IFF_NO_PI\<close> are 1, 2 and \<open>0x1000\<close>.\<close>

definition TunTapFD_request :: "bytes \<Rightarrow> bool \<Rightarrow> ifreq" where
  "TunTapFD_request devname is_tun =
     \<lparr>ifr_name = (strncpy_zeroed devname (IFNAMSIZ - 1) @ [0])[IFNAMSIZ - 1 := 0],
      ifr_flags = or (if is_tun then 1 else 2) 0x1000\<rparr>"

definition TunTapFD_new :: "sys_answer \<Rightarrow> (cint \<Rightarrow> ifreq \<Rightarrow> sys_answer) \<Rightarrow> bytes \<Rightarrow> bool \<Rightarrow> FDWrapper result" where
  "TunTapFD_new open_answer ioctl devname is_tun =
     andthen (SystemCall ''open'' (fst open_answer) (snd open_answer) 0) (\<lambda>fd.
     andthen (FDWrapper_new fd) (\<lambda>w.
       let (ret, errno) = ioctl (fd_fd w) (TunTapFD_request devname is_tun)
       in andthen (SystemCall ''ioctl'' ret errno 0) (\<lambda>_. Inr w)))"

definition TunFD_new :: "sys_answer \<Rightarrow> (cint \<Rightarrow> ifreq \<Rightarrow> sys_answer) \<Rightarrow> bytes \<Rightarrow> FDWrapper result" where
  "TunFD_new open_answer ioctl devname = TunTapFD_new open_answer ioctl devname True"

definition TapFD_new :: "sys_answer \<Rightarrow> (cint \<Rightarrow> ifreq \<Rightarrow> sys_answer) \<Rightarrow> bytes \<Rightarrow> FDWrapper result" where
  "TapFD_new open_answer ioctl devname = TunTapFD_new open_answer ioctl devname False"

section \<open>Lemmas\<close>

text \<open>The device name fills its field and ends in a zero byte, whatever its length.\<close>

lemma request_name: "length (ifr_name (TunTapFD_request devname is_tun)) = 16" "last (ifr_name (TunTapFD_request devname is_tun)) = 0"
proof -
  have "length (takeWhile (\<lambda>b. b \<noteq> 0) (take 15 devname)) \<le> 15"
    using length_takeWhile_le[of "\<lambda>b. b \<noteq> 0" "take 15 devname"] by simp
  then have len: "length (strncpy_zeroed devname 15) = 15" by (simp add: strncpy_zeroed_def Let_def)
  then show "length (ifr_name (TunTapFD_request devname is_tun)) = 16" by (simp add: TunTapFD_request_def IFNAMSIZ_def)
  show "last (ifr_name (TunTapFD_request devname is_tun)) = 0"
    using len by (simp add: TunTapFD_request_def IFNAMSIZ_def list_update_append)
qed

text \<open>A datagram that fits is received whole, with its sender; a larger one is an error.\<close>

lemma recv_datagram:
  assumes "length d < 2 ^ 31" and "unat mtu < 2 ^ 31"
  shows "UDPSocket_recv w mtu (of_nat (length d), e, take (unat mtu) d, sockaddr_in ip port, 16) =
    (if length d \<le> unat mtu
     then Inr (\<lparr>rd_source_address = ipv4_address ip port, rd_payload = d\<rparr>, FileDescriptor_register_read w)
     else Inl (RuntimeError ''recvfrom (oversized datagram)''))"
proof -
  note c = count_through[OF assms(1)]
  have "sint mtu = int (unat mtu)" using count_through(3)[OF assms(2)] by (simp add: of_nat_unat_id)
  then have lt: "sint mtu < sint (of_nat (length d) :: size_t) \<longleftrightarrow> unat mtu < length d" by (simp only: c(3) of_nat_less_iff)
  have u: "unat (of_nat (length d) :: size_t) = length d" using assms(1) by (simp add: unat_of_nat)
  show ?thesis by (simp add: UDPSocket_recv_def Let_def c(1,2) lt u not_less)
qed

text \<open>A datagram is sent whole or the call fails.\<close>

lemma sendto_whole:
  assumes "UDPSocket_sendto sendmsg w a payload k = Inr (w', k')" 
  shows "\<exists>ret errno. sendmsg (fd_fd w) (Some (ad_storage a, ad_size a)) (BufferViewList_as_iovecs payload) k = (ret, errno, k') \<and>
    int_to_size (size_to_int ret) = BufferViewList_size payload \<and> w' = FileDescriptor_register_write w"
  using assms
  by (auto simp: UDPSocket_sendto_def sendmsg_helper_def SystemCall_def andthen_Inr_iff Let_def split: prod.splits if_splits)

end
