(* ===== verification/Sponge_Socket.thy ===== *)
theory Sponge_Socket
  imports Tcp_Connection Tcp_Adapters Event_Loop Sockets
begin

text \<open>
  \<open>libsponge/tcp_helpers/tcp_sponge_socket.{hh,cc}\<close>: a connection that is driven by an event loop between a datagram
  adapter and a local stream socket (the pipe) to the owner. The adapter is a template parameter of the class
  and a type parameter here; its operations, the system calls on the pipe, the clock and the flag by
  which the owner aborts are a record of functions on the adapter and on the state of everything outside
  the object. Debugging output is left out, as are starting and joining the thread.
\<close>

section \<open>What the socket uses\<close>

record ('a, 'k) sock_env =
  en_fd :: "'a \<Rightarrow> FDWrapper"
  en_set_config :: "'a \<Rightarrow> FdAdapterConfig \<Rightarrow> 'a"
  en_set_listening :: "'a \<Rightarrow> bool \<Rightarrow> 'a"
  en_adapter_read :: "'a \<Rightarrow> 'k \<Rightarrow> (TCPSegment option \<times> 'a \<times> 'k) result"
  en_adapter_write :: "'a \<Rightarrow> TCPSegment \<Rightarrow> 'k \<Rightarrow> ('a \<times> 'k) result"
  en_adapter_tick :: "'a \<Rightarrow> size_t \<Rightarrow> 'k \<Rightarrow> ('a \<times> 'k) result"
  en_read :: "cint \<Rightarrow> size_t \<Rightarrow> 'k \<Rightarrow> read_answer \<times> 'k"
  en_writev :: "'k writev"
  en_shutdown :: "cint \<Rightarrow> cint \<Rightarrow> 'k \<Rightarrow> sys_answer \<times> 'k"
  en_poll :: "pollfd list \<Rightarrow> cint \<Rightarrow> 'k \<Rightarrow> (cint \<times> cint \<times> u16 list) \<times> 'k"
  en_now :: "'k \<Rightarrow> u64 \<times> 'k"
  en_abort :: "'k \<Rightarrow> bool"

section \<open>State\<close>

text \<open>\<open>so_fd\<close> is the end of the pipe the owner uses, \<open>so_thread_data\<close> the other one.\<close>

record 'a TCPSpongeSocket =
  so_fd :: FDWrapper
  so_thread_data :: FDWrapper
  so_adapter :: 'a
  so_tcp :: "TCPConnection option"
  so_inbound_shutdown :: bool
  so_outbound_shutdown :: bool
  so_fully_acked :: bool

type_synonym ('a, 'k) sock_world = "'a TCPSpongeSocket \<times> 'k"

text \<open>\<open>socketpair\<close> gives its return value, \<open>errno\<close> and the two descriptors.\<close>

definition socket_pair_helper :: "cint \<times> cint \<times> cint \<times> cint \<Rightarrow> (FDWrapper \<times> FDWrapper) result" where
  "socket_pair_helper answer =
     (let (ret, errno, fd0, fd1) = answer
      in andthen (SystemCall ''socketpair'' ret errno 0) (\<lambda>_.
         andthen (FDWrapper_new fd0) (\<lambda>w0. andthen (FDWrapper_new fd1) (\<lambda>w1. Inr (w0, w1)))))"

text \<open>
  Both ends are checked to be local stream sockets, and the inner one is made non-blocking; the
  arguments are the kernel's answers to \<open>getsockopt\<close> and \<open>fcntl\<close>.
\<close>

definition TCPSpongeSocket_new ::
  "FDWrapper \<times> FDWrapper \<Rightarrow> 'a \<Rightarrow> getsockopt_answer \<times> getsockopt_answer \<Rightarrow> getsockopt_answer \<times> getsockopt_answer \<Rightarrow>
    cint \<times> cint \<Rightarrow> (cint \<Rightarrow> cint \<times> cint) \<Rightarrow> 'a TCPSpongeSocket result" where
  "TCPSpongeSocket_new data_socket_pair datagram_interface opts0 opts1 getfl setfl =
     andthen (Socket_from_fd (fst data_socket_pair) AF_UNIX SOCK_STREAM (fst opts0) (snd opts0)) (\<lambda>fd.
     andthen (Socket_from_fd (snd data_socket_pair) AF_UNIX SOCK_STREAM (fst opts1) (snd opts1)) (\<lambda>td.
     andthen (FileDescriptor_set_blocking False getfl setfl) (\<lambda>_.
     Inr \<lparr>so_fd = fd, so_thread_data = td, so_adapter = datagram_interface, so_tcp = None,
          so_inbound_shutdown = False, so_outbound_shutdown = False, so_fully_acked = False\<rparr>)))"

text \<open>The constructor the users of the class call, with the answer of \<open>socketpair\<close>.\<close>

definition TCPSpongeSocket_on_pair ::
  "cint \<times> cint \<times> cint \<times> cint \<Rightarrow> 'a \<Rightarrow> getsockopt_answer \<times> getsockopt_answer \<Rightarrow> getsockopt_answer \<times> getsockopt_answer \<Rightarrow>
    cint \<times> cint \<Rightarrow> (cint \<Rightarrow> cint \<times> cint) \<Rightarrow> 'a TCPSpongeSocket result" where
  "TCPSpongeSocket_on_pair answer datagram_interface opts0 opts1 getfl setfl =
     andthen (socket_pair_helper answer) (\<lambda>pair. TCPSpongeSocket_new pair datagram_interface opts0 opts1 getfl setfl)"

text \<open>The owner's call before joining the thread.\<close>

definition TCPSpongeSocket_wait_until_closed :: "'a TCPSpongeSocket \<Rightarrow> sys_answer \<Rightarrow> 'a TCPSpongeSocket result" where
  "TCPSpongeSocket_wait_until_closed s answer =
     andthen (Socket_shutdown (so_fd s) SHUT_RDWR answer) (\<lambda>fd1. Inr (s\<lparr>so_fd := fd1\<rparr>))"

text \<open>The connection, which is there whenever a rule runs; using an empty \<open>optional\<close> is undefined.\<close>

definition with_tcp :: "'a TCPSpongeSocket \<Rightarrow> (TCPConnection \<Rightarrow> 'b result) \<Rightarrow> 'b result" where
  "with_tcp s f = (case so_tcp s of None \<Rightarrow> Inl (Undefined ''empty optional'') | Some c \<Rightarrow> f c)"

section \<open>The four rules\<close>

text \<open>Rule 1: read from filtered packet stream and dump into TCPConnection.\<close>

fun rule1_callback :: "('a, 'k) sock_env \<Rightarrow> ('a, 'k) sock_world \<Rightarrow> ('a, 'k) sock_world result" where
  "rule1_callback env (s, k) =
     andthen (en_adapter_read env (so_adapter s) k) (\<lambda>(seg, a, k1).
     with_tcp s (\<lambda>c.
     andthen (case seg of None \<Rightarrow> Inr c | Some g \<Rightarrow> TCPConnection_segment_received c g) (\<lambda>c1.
       let acked = fd_eof (so_thread_data s) \<and> TCPConnection_bytes_in_flight c1 = 0 \<and> \<not> so_fully_acked s
       in Inr (s\<lparr>so_adapter := a, so_tcp := Some c1,
                 so_fully_acked := (if acked then True else so_fully_acked s)\<rparr>, k1))))"

fun rule1_interest :: "('a, 'k) sock_world \<Rightarrow> bool" where
  "rule1_interest (s, k) = (case so_tcp s of None \<Rightarrow> False | Some c \<Rightarrow> TCPConnection_active c)"

text \<open>Rule 2: read from pipe into outbound buffer.\<close>

fun rule2_callback :: "('a, 'k) sock_env \<Rightarrow> ('a, 'k) sock_world \<Rightarrow> ('a, 'k) sock_world result" where
  "rule2_callback env (s, k) =
     with_tcp s (\<lambda>c.
     let limit = TCPConnection_remaining_outbound_capacity c;
         (answer, k1) = en_read env (fd_fd (so_thread_data s)) (min BUFFER_SIZE limit) k
     in andthen (FileDescriptor_read (so_thread_data s) limit answer) (\<lambda>(data, td).
        andthen (TCPConnection_write c data) (\<lambda>(amount_written, c1).
        if amount_written \<noteq> size_of data
        then Inl (RuntimeError ''TCPConnection::write() accepted less than advertised length'')
        else if fd_eof td
        then andthen (TCPConnection_end_input_stream c1) (\<lambda>c2.
             Inr (s\<lparr>so_thread_data := td, so_tcp := Some c2, so_outbound_shutdown := True\<rparr>, k1))
        else Inr (s\<lparr>so_thread_data := td, so_tcp := Some c1\<rparr>, k1))))"

fun rule2_interest :: "('a, 'k) sock_world \<Rightarrow> bool" where
  "rule2_interest (s, k) = (case so_tcp s of None \<Rightarrow> False
     | Some c \<Rightarrow> TCPConnection_active c \<and> \<not> so_outbound_shutdown s \<and> 0 < TCPConnection_remaining_outbound_capacity c)"

fun rule2_cancel :: "('a, 'k) sock_world \<Rightarrow> ('a, 'k) sock_world result" where
  "rule2_cancel (s, k) =
     with_tcp s (\<lambda>c.
     andthen (TCPConnection_end_input_stream c) (\<lambda>c1. Inr (s\<lparr>so_tcp := Some c1, so_outbound_shutdown := True\<rparr>, k)))"

text \<open>Rule 3: read from inbound buffer into pipe, handling the possibility of a partial write.\<close>

definition set_inbound :: "TCPConnection \<Rightarrow> ByteStream \<Rightarrow> TCPConnection" where
  "set_inbound c st = c\<lparr>cn_receiver := (cn_receiver c)\<lparr>rc_reassembler := (rc_reassembler (cn_receiver c))\<lparr>sr_output := st\<rparr>\<rparr>\<rparr>"

fun rule3_callback :: "('a, 'k) sock_env \<Rightarrow> ('a, 'k) sock_world \<Rightarrow> ('a, 'k) sock_world result" where
  "rule3_callback env (s, k) =
     with_tcp s (\<lambda>c.
     let inbound = TCPConnection_inbound_stream c;
         amount_to_write = min 65536 (ByteStream_buffer_size inbound);
         buffer = ByteStream_peek_output inbound amount_to_write
     in andthen (FileDescriptor_write (en_writev env) (so_thread_data s) [buffer] False k) (\<lambda>(bytes_written, td, k1).
        andthen (ByteStream_pop_output inbound bytes_written) (\<lambda>inbound1.
        let s1 = s\<lparr>so_thread_data := td, so_tcp := Some (set_inbound c inbound1)\<rparr>
        in if ByteStream_eof inbound1 \<or> ByteStream_error inbound1
           then let (answer, k2) = en_shutdown env (fd_fd td) SHUT_WR k1
                in andthen (Socket_shutdown td SHUT_WR answer) (\<lambda>td1.
                   Inr (s1\<lparr>so_thread_data := td1, so_inbound_shutdown := True\<rparr>, k2))
           else Inr (s1, k1))))"

fun rule3_interest :: "('a, 'k) sock_world \<Rightarrow> bool" where
  "rule3_interest (s, k) = (case so_tcp s of None \<Rightarrow> False
     | Some c \<Rightarrow> let inbound = TCPConnection_inbound_stream c
         in \<not> ByteStream_buffer_empty inbound \<or>
            ((ByteStream_eof inbound \<or> ByteStream_error inbound) \<and> \<not> so_inbound_shutdown s))"

text \<open>Rule 4: read outbound segments from TCPConnection and send as datagrams.\<close>

fun rule4_loop :: "('a, 'k) sock_env \<Rightarrow> TCPSegment list \<Rightarrow> 'a \<Rightarrow> 'k \<Rightarrow> ('a \<times> 'k) result" where
  "rule4_loop env [] a k = Inr (a, k)"
| "rule4_loop env (seg # segs) a k = andthen (en_adapter_write env a seg k) (\<lambda>(a1, k1). rule4_loop env segs a1 k1)"

fun rule4_callback :: "('a, 'k) sock_env \<Rightarrow> ('a, 'k) sock_world \<Rightarrow> ('a, 'k) sock_world result" where
  "rule4_callback env (s, k) =
     with_tcp s (\<lambda>c.
     andthen (rule4_loop env (cn_segments_out c) (so_adapter s) k) (\<lambda>(a, k1).
     Inr (s\<lparr>so_adapter := a, so_tcp := Some (c\<lparr>cn_segments_out := []\<rparr>)\<rparr>, k1)))"

fun rule4_interest :: "('a, 'k) sock_world \<Rightarrow> bool" where
  "rule4_interest (s, k) = (case so_tcp s of None \<Rightarrow> False | Some c \<Rightarrow> cn_segments_out c \<noteq> [])"

section \<open>Setting up and running\<close>

text \<open>Descriptor 0 is the adapter's, descriptor 1 the inner end of the pipe.\<close>

fun sock_fdw :: "('a, 'k) sock_env \<Rightarrow> ('a, 'k) sock_world fdw" where
  "sock_fdw env (s, k) fd = (if fd = 0 then en_fd env (so_adapter s) else so_thread_data s)"

definition sock_rules :: "('a, 'k) sock_env \<Rightarrow> ('a, 'k) sock_world EventLoop" where
  "sock_rules env =
     EventLoop_add_rule (EventLoop_add_rule (EventLoop_add_rule (EventLoop_add_rule EventLoop_new
       0 In (rule1_callback env) rule1_interest Inr)
       1 In (rule2_callback env) rule2_interest rule2_cancel)
       1 Out (rule3_callback env) rule3_interest Inr)
       0 Out (rule4_callback env) rule4_interest Inr"

text \<open>The random number is for the sender's initial sequence number.\<close>

definition TCPSpongeSocket_initialize_TCP ::
  "('a, 'k) sock_env \<Rightarrow> TCPConfig \<Rightarrow> u32 \<Rightarrow> 'a TCPSpongeSocket \<Rightarrow> 'a TCPSpongeSocket \<times> ('a, 'k) sock_world EventLoop" where
  "TCPSpongeSocket_initialize_TCP env config random s =
     (s\<lparr>so_tcp := Some (TCPConnection_new config random)\<rparr>, sock_rules env)"

definition TCP_TICK_MS :: cint where
  "TCP_TICK_MS = 10"

fun sock_poll :: "('a, 'k) sock_env \<Rightarrow> ('a, 'k) sock_world poll" where
  "sock_poll env pfs timeout (s, k) = (let (answer, k1) = en_poll env pfs timeout k in (answer, s, k1))"

text \<open>One round of \<open>_tcp_loop\<close>, on the world, the event loop, the base time and whether to break.\<close>

type_synonym ('a, 'k) loop_state = "('a, 'k) sock_world \<times> ('a, 'k) sock_world EventLoop \<times> u64 \<times> bool"

fun tcp_loop_round :: "('a, 'k) sock_env \<Rightarrow> ('a, 'k) loop_state \<Rightarrow> ('a, 'k) loop_state result" where
  "tcp_loop_round env (w, el, base_time, brk) =
     andthen (EventLoop_wait_next_event (sock_fdw env) (sock_poll env) el TCP_TICK_MS w) (\<lambda>(ret, el1, (s1, k1)).
       if ret = Exit \<or> en_abort env k1 then Inr ((s1, k1), el1, base_time, True)
       else with_tcp s1 (\<lambda>c.
         if TCPConnection_active c
         then let (next_time, k2) = en_now env k1;
                  c1 = TCPConnection_tick c (next_time - base_time)
              in andthen (en_adapter_tick env (so_adapter s1) (next_time - base_time) k2) (\<lambda>(a, k3).
                 Inr ((s1\<lparr>so_tcp := Some c1, so_adapter := a\<rparr>, k3), el1, next_time, False))
         else Inr ((s1, k1), el1, base_time, False)))"

definition TCPSpongeSocket_tcp_loop ::
  "('a, 'k) sock_env \<Rightarrow> (('a, 'k) sock_world \<Rightarrow> bool) \<Rightarrow> ('a, 'k) sock_world EventLoop \<Rightarrow> ('a, 'k) sock_world \<Rightarrow>
    (('a, 'k) sock_world \<times> ('a, 'k) sock_world EventLoop) result" where
  "TCPSpongeSocket_tcp_loop env condition el = (\<lambda>(s, k).
     let (base_time, k1) = en_now env k
     in andthen (while_loop (\<lambda>(w, el, base_time, brk). \<not> brk \<and> condition w) (tcp_loop_round env) ((s, k1), el, base_time, False))
          (\<lambda>(w, el1, base_time, brk). Inr (w, el1)))"

fun in_state :: "State list \<Rightarrow> ('a, 'k) sock_world \<Rightarrow> bool" where
  "in_state sts (s, k) = (case so_tcp s of None \<Rightarrow> False
     | Some c \<Rightarrow> list_ex (\<lambda>st. TCPState_eq (TCPConnection_state c) (TCPState_official st)) sts)"

definition TCPSpongeSocket_connect ::
  "('a, 'k) sock_env \<Rightarrow> TCPConfig \<Rightarrow> FdAdapterConfig \<Rightarrow> u32 \<Rightarrow> ('a, 'k) sock_world \<Rightarrow>
    (('a, 'k) sock_world \<times> ('a, 'k) sock_world EventLoop) result" where
  "TCPSpongeSocket_connect env c_tcp c_ad random = (\<lambda>(s, k).
     if so_tcp s \<noteq> None then Inl (RuntimeError ''connect() with TCPConnection already initialized'')
     else let (s1, el) = TCPSpongeSocket_initialize_TCP env c_tcp random s;
              s2 = s1\<lparr>so_adapter := en_set_config env (so_adapter s1) c_ad\<rparr>
          in with_tcp s2 (\<lambda>c. andthen (TCPConnection_connect c) (\<lambda>c1.
             let expected_state = TCPState_official SYN_SENT
             in if TCPState_neq (TCPConnection_state c1) expected_state
                then Inl (RuntimeError (''After TCPConnection::connect(), state was '' @ TCPState_name (TCPConnection_state c1) @
                  '' but expected '' @ TCPState_name expected_state))
                else TCPSpongeSocket_tcp_loop env (in_state [SYN_SENT]) el (s2\<lparr>so_tcp := Some c1\<rparr>, k))))"

definition TCPSpongeSocket_listen_and_accept ::
  "('a, 'k) sock_env \<Rightarrow> TCPConfig \<Rightarrow> FdAdapterConfig \<Rightarrow> u32 \<Rightarrow> ('a, 'k) sock_world \<Rightarrow>
    (('a, 'k) sock_world \<times> ('a, 'k) sock_world EventLoop) result" where
  "TCPSpongeSocket_listen_and_accept env c_tcp c_ad random = (\<lambda>(s, k).
     if so_tcp s \<noteq> None then Inl (RuntimeError ''listen_and_accept() with TCPConnection already initialized'')
     else let (s1, el) = TCPSpongeSocket_initialize_TCP env c_tcp random s;
              s2 = s1\<lparr>so_adapter := en_set_listening env (en_set_config env (so_adapter s1) c_ad) True\<rparr>
          in TCPSpongeSocket_tcp_loop env (in_state [LISTEN, SYN_RCVD, SYN_SENT]) el (s2, k))"

text \<open>The body of the thread: run, shut the owner's end down, destroy the connection.\<close>

definition TCPSpongeSocket_tcp_main ::
  "('a, 'k) sock_env \<Rightarrow> ('a, 'k) sock_world EventLoop \<Rightarrow> ('a, 'k) sock_world \<Rightarrow> ('a, 'k) sock_world result" where
  "TCPSpongeSocket_tcp_main env el = (\<lambda>(s, k).
     if so_tcp s = None then Inl (RuntimeError ''no TCP'')
     else andthen (TCPSpongeSocket_tcp_loop env (\<lambda>_. True) el (s, k)) (\<lambda>((s1, k1), el1).
       let (answer, k2) = en_shutdown env (fd_fd (so_fd s1)) SHUT_RDWR k1
       in andthen (Socket_shutdown (so_fd s1) SHUT_RDWR answer) (\<lambda>fd1.
          Inr (s1\<lparr>so_fd := fd1, so_tcp := None\<rparr>, k2))))"

declare rule1_callback.simps [simp del] rule2_callback.simps [simp del] rule3_callback.simps [simp del] rule4_callback.simps [simp del]
  rule2_cancel.simps [simp del] tcp_loop_round.simps [simp del] in_state.simps [simp del] sock_poll.simps [simp del]

section \<open>The concrete sockets\<close>

text \<open>The configurations \<open>CS144TCPSocket\<close> and \<open>FullStackSocket\<close> connect with; the port is random.\<close>

definition fast_tcp_config :: TCPConfig where
  "fast_tcp_config = TCPConfig_default\<lparr>cfg_rt_timeout := 100\<rparr>"

definition multiplexer_config :: "getaddrinfo \<Rightarrow> string \<Rightarrow> u32 \<Rightarrow> Address \<Rightarrow> FdAdapterConfig result" where
  "multiplexer_config gai local_ip random address =
     andthen (FdAdapterBase_new gai) (\<lambda>b.
     andthen (Address_hostname gai local_ip (to_string_dec (unat (ucast random :: u16)))) (\<lambda>source.
     Inr ((fb_cfg b)\<lparr>fa_source := source, fa_destination := address\<rparr>)))"

definition CS144TCPSocket_connect ::
  "('a, 'k) sock_env \<Rightarrow> getaddrinfo \<Rightarrow> Address \<Rightarrow> u32 \<Rightarrow> u32 \<Rightarrow> ('a, 'k) sock_world \<Rightarrow>
    (('a, 'k) sock_world \<times> ('a, 'k) sock_world EventLoop) result" where
  "CS144TCPSocket_connect env gai address random_port random_isn w =
     andthen (multiplexer_config gai ''169.254.144.9'' random_port address) (\<lambda>c_ad.
     TCPSpongeSocket_connect env fast_tcp_config c_ad random_isn w)"

definition LOCAL_TAP_IP_ADDRESS :: string where
  "LOCAL_TAP_IP_ADDRESS = ''169.254.10.9''"

definition LOCAL_TAP_NEXT_HOP_ADDRESS :: string where
  "LOCAL_TAP_NEXT_HOP_ADDRESS = ''169.254.10.1''"

text \<open>Six random bytes with the local bit set and the group bit cleared.\<close>

definition random_private_ethernet_address :: "u8 \<Rightarrow> u8 \<Rightarrow> u8 \<Rightarrow> u8 \<Rightarrow> u8 \<Rightarrow> u8 \<Rightarrow> EthernetAddress" where
  "random_private_ethernet_address b0 b1 b2 b3 b4 b5 = EthernetAddress (and (or b0 0x02) 0xfe) b1 b2 b3 b4 b5"

definition FullStackSocket_adapter ::
  "getaddrinfo \<Rightarrow> u8 \<Rightarrow> u8 \<Rightarrow> u8 \<Rightarrow> u8 \<Rightarrow> u8 \<Rightarrow> u8 \<Rightarrow> TCPOverIPv4OverEthernetAdapter result" where
  "FullStackSocket_adapter gai b0 b1 b2 b3 b4 b5 =
     andthen (Address_hostname gai LOCAL_TAP_IP_ADDRESS ''0'') (\<lambda>ip.
     andthen (Address_hostname gai LOCAL_TAP_NEXT_HOP_ADDRESS ''0'') (\<lambda>hop.
     TCPOverIPv4OverEthernetAdapter_new gai (random_private_ethernet_address b0 b1 b2 b3 b4 b5) ip hop))"

definition FullStackSocket_connect ::
  "('a, 'k) sock_env \<Rightarrow> getaddrinfo \<Rightarrow> Address \<Rightarrow> u32 \<Rightarrow> u32 \<Rightarrow> ('a, 'k) sock_world \<Rightarrow>
    (('a, 'k) sock_world \<times> ('a, 'k) sock_world EventLoop) result" where
  "FullStackSocket_connect env gai address random_port random_isn w =
     andthen (multiplexer_config gai LOCAL_TAP_IP_ADDRESS random_port address) (\<lambda>c_ad.
     TCPSpongeSocket_connect env fast_tcp_config c_ad random_isn w)"

end
