(* ===== verification/Sender_Correct.thy ===== *)
theory Sender_Correct
  imports Tcp_Sender Tcp_Receiver
begin

text \<open>
  Correctness of the sender: the segments it creates follow one another in sequence space and
  carry the application's stream, they stay inside the peer's window, acknowledgments remove
  exactly what they cover, and every call returns. The invariant \<open>sd_inv\<close> is kept by every step
  of \<open>tx_step\<close>.
\<close>

section \<open>Segments in sequence space\<close>

definition seg_len :: "TCPSegment \<Rightarrow> nat" where
  "seg_len seg = length (seg_payload seg) + (if th_syn (seg_header seg) then 1 else 0)
     + (if th_fin (seg_header seg) then 1 else 0)"

lemma length_in_sequence_space_eq: "TCPSegment_length_in_sequence_space seg = of_nat (seg_len seg)"
  by (simp add: TCPSegment_length_in_sequence_space_def seg_len_def size_of_def)

text \<open>
  \<open>seg_at zs isn a seg\<close>: the segment occupies the absolute sequence numbers from \<open>a\<close> on, carries
  the part of the stream \<open>zs\<close> that belongs there, has SYN exactly at 0 and FIN only at the end, and
  is neither an acknowledgment nor a reset.
\<close>

definition seg_at :: "bytes \<Rightarrow> WrappingInt32 \<Rightarrow> nat \<Rightarrow> TCPSegment \<Rightarrow> bool" where
  "seg_at zs isn a seg \<longleftrightarrow>
     th_seqno (seg_header seg) = wrap (of_nat a) isn \<and> (th_syn (seg_header seg) \<longleftrightarrow> a = 0) \<and>
     \<not> th_ack (seg_header seg) \<and> \<not> th_rst (seg_header seg) \<and>
     0 < seg_len seg \<and> length (seg_payload seg) \<le> 1000 \<and>
     a - 1 + length (seg_payload seg) \<le> length zs \<and>
     seg_payload seg = slice zs (a - 1) (length (seg_payload seg)) \<and>
     (th_fin (seg_header seg) \<longrightarrow> a - 1 + length (seg_payload seg) = length zs)"

text \<open>Consecutive segments that cover the sequence numbers \<open>a..<b\<close>.\<close>

fun chain :: "bytes \<Rightarrow> WrappingInt32 \<Rightarrow> nat \<Rightarrow> TCPSegment list \<Rightarrow> nat \<Rightarrow> bool" where
  "chain zs isn a [] b \<longleftrightarrow> a = b"
| "chain zs isn a (seg # segs) b \<longleftrightarrow> seg_at zs isn a seg \<and> chain zs isn (a + seg_len seg) segs b"

lemma chain_append: "chain zs isn a (xs @ ys) c \<longleftrightarrow> (\<exists>b. chain zs isn a xs b \<and> chain zs isn b ys c)"
  by (induction xs arbitrary: a) auto

lemma chain_snoc: "chain zs isn a xs b \<Longrightarrow> seg_at zs isn b seg \<Longrightarrow> chain zs isn a (xs @ [seg]) (b + seg_len seg)"
  by (auto simp: chain_append)

lemma chain_le: "chain zs isn a xs b \<Longrightarrow> a \<le> b"
proof (induction xs arbitrary: a)
  case (Cons x xs)
  then show ?case by fastforce
qed simp

text \<open>A segment the receiver of the stream \<open>zs\<close> may get.\<close>

definition seg_fine :: "bytes \<Rightarrow> WrappingInt32 \<Rightarrow> TCPSegment \<Rightarrow> bool" where
  "seg_fine zs isn seg \<longleftrightarrow>
     (\<exists>i n. seg_payload seg = slice zs i n \<and> rx_legal zs isn (Deliver (seg_header seg) i n))"

text \<open>The same before the connection has filled in an acknowledgment.\<close>

definition seg_fresh :: "bytes \<Rightarrow> WrappingInt32 \<Rightarrow> TCPSegment \<Rightarrow> bool" where
  "seg_fresh zs isn seg \<longleftrightarrow> seg_fine zs isn seg \<and> \<not> th_ack (seg_header seg)"

lemma wrap_0 [simp]: "wrap 0 isn = isn"
proof -
  have "raw_value (wrap 0 isn) = raw_value isn" by (simp add: raw_wrap)
  then show ?thesis by (metis WrappingInt32.expand)
qed

lemma seg_at_fine: "seg_at zs isn a seg \<Longrightarrow> seg_fine zs isn seg"
  unfolding seg_at_def seg_fine_def
  by (rule exI[of _ "a - 1"], rule exI[of _ "length (seg_payload seg)"]) (auto simp: Suc_diff_1)

lemma seg_empty_fine:
  "seg_payload seg = [] \<Longrightarrow> \<not> th_syn (seg_header seg) \<Longrightarrow> \<not> th_fin (seg_header seg) \<Longrightarrow> seg_fine zs isn seg"
  unfolding seg_fine_def by (auto intro!: exI[of _ 0])

lemma seg_at_fresh: "seg_at zs isn a seg \<Longrightarrow> seg_fresh zs isn seg"
  using seg_at_fine[of zs isn a seg] by (simp add: seg_fresh_def seg_at_def)

lemma seg_empty_fresh:
  "seg_payload seg = [] \<Longrightarrow> \<not> th_syn (seg_header seg) \<Longrightarrow> \<not> th_fin (seg_header seg) \<Longrightarrow>
   \<not> th_ack (seg_header seg) \<Longrightarrow> seg_fresh zs isn seg"
  by (simp add: seg_fresh_def seg_empty_fine)

section \<open>The invariant\<close>

abbreviation sd_next :: "TCPSender \<Rightarrow> nat" where
  "sd_next s \<equiv> unat (sd_next_seqno s)"

abbreviation sd_written :: "TCPSender \<Rightarrow> nat" where
  "sd_written s \<equiv> unat (bs_written (sd_stream s))"

abbreviation sd_read :: "TCPSender \<Rightarrow> nat" where
  "sd_read s \<equiv> unat (bs_total_read (sd_stream s))"

text \<open>
  \<open>zs\<close> is the whole stream the application is going to write. The stream object holds the part
  that is written and not yet sent; the next sequence number is determined by how much was read
  and whether FIN was sent; the outstanding segments end where the next one will start.
\<close>

definition sd_stream_inv :: "bytes \<Rightarrow> ByteStream \<Rightarrow> bool" where
  "sd_stream_inv zs st \<longleftrightarrow> bs_linear st \<and> length zs + 2 < 2 ^ 31 \<and> unat (bs_written st) \<le> length zs \<and>
     bs_buffer st = slice zs (unat (bs_total_read st)) (unat (bs_written st) - unat (bs_total_read st)) \<and>
     (bs_end st \<longrightarrow> unat (bs_written st) = length zs)"

definition sd_phase :: "bytes \<Rightarrow> nat \<Rightarrow> ByteStream \<Rightarrow> bool" where
  "sd_phase zs N st \<longleftrightarrow> N = 0 \<and> unat (bs_total_read st) = 0 \<or> N = 1 + unat (bs_total_read st) \<or>
     N = 2 + unat (bs_total_read st) \<and> bs_end st \<and> unat (bs_total_read st) = length zs"

definition sd_inv :: "bytes \<Rightarrow> TCPSender \<Rightarrow> bool" where
  "sd_inv zs s \<longleftrightarrow> sd_stream_inv zs (sd_stream s) \<and> sd_phase zs (sd_next s) (sd_stream s) \<and>
     (sd_fin_sent s \<longrightarrow> sd_next s = 2 + sd_read s) \<and> (sd_window s = 0 \<longrightarrow> 0 < sd_next s) \<and>
     (\<exists>U. chain zs (sd_isn s) U (sd_outstandings s) (sd_next s) \<and> sd_in_flights s = of_nat (sd_next s - U)) \<and>
     list_all (seg_fresh zs (sd_isn s)) (sd_segments_out s)"

text \<open>Nothing is left that could be sent now.\<close>

definition sd_idle :: "TCPSender \<Rightarrow> bool" where
  "sd_idle s \<longleftrightarrow> 0 < sd_next s \<and> bs_buffer (sd_stream s) = [] \<and> (bs_end (sd_stream s) \<longrightarrow> sd_next s = 2 + sd_read s)"

lemma stream_inv_facts:
  assumes "sd_stream_inv zs st"
  shows "bs_wf st" and "unat (bs_total_read st) \<le> unat (bs_written st)"
    and "length (bs_buffer st) = unat (bs_written st) - unat (bs_total_read st)"
    and "ByteStream_buffer_empty st \<longleftrightarrow> unat (bs_total_read st) = unat (bs_written st)"
    and "ByteStream_eof st \<longleftrightarrow> bs_end st \<and> unat (bs_total_read st) = unat (bs_written st)"
    and "ByteStream_bytes_written st = of_nat (unat (bs_written st))"
    and "ByteStream_bytes_read st = of_nat (unat (bs_total_read st))"
proof -
  have lin: "bs_linear st" using assms by (simp add: sd_stream_inv_def)
  then show wf: "bs_wf st" and le: "unat (bs_total_read st) \<le> unat (bs_written st)" by (auto simp: bs_linear_def)
  show len: "length (bs_buffer st) = unat (bs_written st) - unat (bs_total_read st)"
    using lin unfolding bs_linear_def by linarith
  then have e: "bs_buffer st = [] \<longleftrightarrow> unat (bs_total_read st) = unat (bs_written st)"
    using le by (metis diff_is_0_eq diff_self_eq_0 le_antisym length_0_conv)
  show "ByteStream_buffer_empty st \<longleftrightarrow> unat (bs_total_read st) = unat (bs_written st)"
    "ByteStream_eof st \<longleftrightarrow> bs_end st \<and> unat (bs_total_read st) = unat (bs_written st)"
    using wf e by (simp_all add: eof_iff)
  show "ByteStream_bytes_written st = of_nat (unat (bs_written st))"
    "ByteStream_bytes_read st = of_nat (unat (bs_total_read st))"
    using lin by (rule bytes_written_nat bytes_read_nat)+
qed

text \<open>Reading from the stream.\<close>

lemma stream_read:
  fixes n :: size_t
  assumes inv: "sd_stream_inv zs st"
  defines "R \<equiv> unat (bs_total_read st)"
  defines "k \<equiv> min (unat n) (unat (bs_written st) - R)"
  shows "\<exists>st'. ByteStream_read st n = Inr (slice zs R k, st') \<and> sd_stream_inv zs st' \<and>
    unat (bs_total_read st') = R + k \<and> bs_written st' = bs_written st \<and> bs_end st' = bs_end st"
proof -
  note F = stream_inv_facts[OF inv]
  let ?W = "unat (bs_written st)"
  have lin: "bs_linear st" using inv by (simp add: sd_stream_inv_def)
  define st' where "st' = st\<lparr>bs_buffer := drop (unat n) (bs_buffer st),
      bs_total_read := bs_total_read st + of_nat k\<rparr>"
  have kk: "k = min (unat n) (length (bs_buffer st))" by (simp add: k_def F(3) R_def)
  have rd: "ByteStream_read st n = Inr (take (unat n) (bs_buffer st), st')"
    unfolding st'_def kk by (rule read_spec[OF F(1)])
  have buf: "bs_buffer st = slice zs R (?W - R)" using inv by (simp add: sd_stream_inv_def R_def)
  have out: "take (unat n) (bs_buffer st) = slice zs R k" "drop (unat n) (bs_buffer st) = slice zs (R + k) (?W - (R + k))"
    by (auto simp: buf take_slice drop_slice k_def min_def)
  have W: "?W < 2 ^ 31" using lin by (simp add: bs_linear_def)
  have small: "R + k < 2 ^ 31" using F(2) W by (simp add: k_def R_def)
  have R': "unat (bs_total_read st') = R + k"
    using small by (simp add: st'_def R_def unat_add_u32 unat_of_nat_u32)
  have "bs_linear st'"
    using read_wf[OF F(1) rd] lin F(2,3) R' unfolding bs_linear_def
    by (auto simp: st'_def k_def R_def)
  then have "sd_stream_inv zs st'"
    using inv out(2) R' by (simp add: sd_stream_inv_def st'_def)
  with rd out(1) R' show ?thesis by (intro exI[of _ st']) (simp add: st'_def)
qed


section \<open>Sending\<close>

lemma sd_phase_bound: "sd_phase zs N st \<Longrightarrow> sd_stream_inv zs st \<Longrightarrow> N \<le> length zs + 2 \<and> N < 2 ^ 31"
  using stream_inv_facts(2)[of zs st] by (auto simp: sd_phase_def sd_stream_inv_def)

lemma ready_to_fin_iff:
  assumes "sd_inv zs s"
  shows "TCPSender_ready_to_fin s \<longleftrightarrow> bs_end (sd_stream s) \<and> sd_read s = sd_written s \<and> sd_next s < sd_written s + 2"
proof -
  have st: "sd_stream_inv zs (sd_stream s)" using assms by (simp add: sd_inv_def)
  have W: "sd_written s < 2 ^ 31" using st by (simp add: sd_stream_inv_def)
  have "ByteStream_bytes_written (sd_stream s) + 2 = of_nat (sd_written s + 2)"
    by (simp only: stream_inv_facts(6)[OF st] of_nat_add of_nat_numeral)
  moreover have "unat (of_nat (sd_written s + 2) :: u64) = sd_written s + 2"
    using W by (intro unat_of_nat_u64) simp
  ultimately show ?thesis
    by (simp only: TCPSender_ready_to_fin_def TCPSender_next_seqno_absolute_def stream_inv_facts(5)[OF st]
        word_less_nat_alt conj_assoc)
qed

text \<open>Appending a segment to both queues.\<close>

lemma sd_emit:
  assumes inv: "sd_inv zs s" and seg: "seg_at zs (sd_isn s) (sd_next s) seg"
    and st: "sd_stream_inv zs st" and ph: "sd_phase zs (sd_next s + seg_len seg) st"
    and fin: "f \<longrightarrow> sd_next s + seg_len seg = 2 + unat (bs_total_read st)"
    and s': "s' = s\<lparr>sd_stream := st, sd_next_seqno := of_nat (sd_next s + seg_len seg), sd_fin_sent := f,
        sd_in_flights := sd_in_flights s + of_nat (seg_len seg),
        sd_outstandings := sd_outstandings s @ [seg], sd_segments_out := sd_segments_out s @ [seg], sd_probing := p\<rparr>"
  shows "sd_inv zs s'" and "sd_next s' = sd_next s + seg_len seg"
proof -
  have "sd_next s + seg_len seg < 2 ^ 64" using sd_phase_bound[OF ph st] by simp
  moreover have "sd_next_seqno s' = of_nat (sd_next s + seg_len seg)" unfolding s' by (simp del: of_nat_add)
  ultimately show N': "sd_next s' = sd_next s + seg_len seg" using unat_of_nat_u64 by metis
  obtain U where U: "chain zs (sd_isn s) U (sd_outstandings s) (sd_next s)" "sd_in_flights s = of_nat (sd_next s - U)"
    using inv by (auto simp: sd_inv_def)
  have "chain zs (sd_isn s) U (sd_outstandings s @ [seg]) (sd_next s + seg_len seg)"
    by (rule chain_snoc[OF U(1) seg])
  moreover have "sd_in_flights s + of_nat (seg_len seg) = of_nat (sd_next s + seg_len seg - U)"
    using chain_le[OF U(1)] by (simp add: U(2) of_nat_diff)
  moreover have "0 < seg_len seg" using seg by (simp add: seg_at_def)
  ultimately show "sd_inv zs s'"
    using inv st ph fin seg_at_fresh[OF seg] unfolding sd_inv_def N'
    by (auto simp: s' simp del: of_nat_add)
qed

lemma dlen_value:
  assumes "sd_next s \<le> unat (sd_window_right s)"
  shows "unat (min (sd_window_right s - (if sd_next_seqno s = 0 then 1 else 0) - sd_next_seqno s + 1) MAX_PAYLOAD_SIZE) =
    min (if sd_next s = 0 then unat (sd_window_right s) else unat (sd_window_right s) - sd_next s + 1) 1000"
proof -
  have "unat (sd_window_right s - sd_next_seqno s + 1) = unat (sd_window_right s) - sd_next s + 1" if "sd_next_seqno s \<noteq> 0"
  proof -
    have "unat (sd_window_right s - sd_next_seqno s) = unat (sd_window_right s) - sd_next s"
      using assms by (intro unat_sub_u64) (simp add: word_le_nat_alt)
    moreover have "0 < sd_next s" using that by (simp add: unat_gt_0)
    ultimately show ?thesis using unat_u64_less[of "sd_window_right s"] assms by (subst unat_add_u64) simp_all
  qed
  then show ?thesis
    by (auto simp: MAX_PAYLOAD_SIZE_def min_def word_le_nat_alt unat_eq_zero)
qed

lemma fill_window_round_sim:
  assumes inv: "sd_inv zs s" and win: "sd_next s \<le> unat (sd_window_right s)"
  shows "TCPSender_fill_window_round (s, False) = Inr (s, True) \<and> sd_idle s \<or>
    (\<exists>s' seg. TCPSender_fill_window_round (s, False) = Inr (s', False) \<and> sd_inv zs s' \<and>
      seg_at zs (sd_isn s) (sd_next s) seg \<and> sd_next s' = sd_next s + seg_len seg \<and>
      sd_next s' \<le> unat (sd_window_right s) + 1 \<and>
      s' = s\<lparr>sd_stream := sd_stream s', sd_next_seqno := sd_next_seqno s', sd_fin_sent := sd_fin_sent s',
        sd_in_flights := sd_in_flights s', sd_outstandings := sd_outstandings s @ [seg],
        sd_segments_out := sd_segments_out s @ [seg]\<rparr>)"
proof -
  let ?N = "sd_next s" and ?R = "sd_read s" and ?W = "sd_written s" and ?Wr = "unat (sd_window_right s)"
  have st: "sd_stream_inv zs (sd_stream s)" and ph: "sd_phase zs ?N (sd_stream s)"
    and fs: "sd_fin_sent s \<longrightarrow> ?N = 2 + ?R" using inv by (auto simp: sd_inv_def)
  note F = stream_inv_facts[OF st]
  note rtf = ready_to_fin_iff[OF inv]
  have ended: "bs_end (sd_stream s) \<longrightarrow> ?W = length zs" "?W \<le> length zs" using st by (auto simp: sd_stream_inv_def)
  have pos: "0 < TCPSender_next_seqno_absolute s \<longleftrightarrow> 0 < ?N"
    by (simp add: TCPSender_next_seqno_absolute_def unat_gt_0 word_greater_zero_iff)
  show ?thesis
  proof (cases "0 < ?N \<and> ?R = ?W \<and> \<not> TCPSender_ready_to_fin s")
    case True
    then have "sd_idle s" using rtf ph F(3) by (auto simp: sd_idle_def sd_phase_def)
    then show ?thesis using True pos F(4) by (simp add: TCPSender_fill_window_round_def)
  next
    case False
    have two: "?N = 0 \<and> ?R = 0 \<or> ?N = 1 + ?R"
      using ph False rtf ended F(2) by (auto simp: sd_phase_def)
    define dlen where "dlen = min (sd_window_right s - (if sd_next_seqno s = 0 then 1 else 0) - sd_next_seqno s + 1) MAX_PAYLOAD_SIZE"
    note dl = dlen_value[OF win, folded dlen_def]
    define k where "k = min (unat dlen) (?W - ?R)"
    obtain st' where rd: "ByteStream_read (sd_stream s) dlen = Inr (slice zs ?R k, st')" and st': "sd_stream_inv zs st'"
      and R': "unat (bs_total_read st') = ?R + k" and same: "bs_written st' = bs_written (sd_stream s)" "bs_end st' = bs_end (sd_stream s)"
      using stream_read[OF st, of dlen] unfolding k_def by blast
    define hd0 where "hd0 = TCPHeader_new\<lparr>th_seqno := TCPSender_next_seqno s, th_syn := (sd_next_seqno s = 0)\<rparr>"
    define N1 where "N1 = ?N + k + (if ?N = 0 then 1 else 0)"
    define fin where "fin = (bs_end (sd_stream s) \<and> ?R + k = ?W \<and> N1 \<le> ?Wr \<and> \<not> sd_fin_sent s)"
    define seg where "seg = \<lparr>seg_header = (if fin then hd0\<lparr>th_fin := True\<rparr> else hd0), seg_payload = slice zs ?R k\<rparr>"
    define s' where "s' = s\<lparr>sd_stream := st', sd_next_seqno := of_nat (?N + seg_len seg), sd_fin_sent := (fin \<or> sd_fin_sent s),
        sd_in_flights := sd_in_flights s + of_nat (seg_len seg),
        sd_outstandings := sd_outstandings s @ [seg], sd_segments_out := sd_segments_out s @ [seg], sd_probing := sd_probing s\<rparr>"
    have N1: "N1 = 1 + ?R + k" using two by (auto simp: N1_def)
    have kW: "?R + k \<le> ?W" using F(2) by (simp add: k_def)
    have klen: "length (slice zs ?R k) = k" using kW ended by simp
    have len: "seg_len seg = k + (if ?N = 0 then 1 else 0) + (if fin then 1 else 0)"
      by (simp add: seg_len_def seg_def hd0_def TCPHeader_new_def klen unat_eq_zero)
    have k1: "k \<le> 1000" by (simp add: k_def dl)
    have progress: "0 < seg_len seg"
    proof (cases "?N = 0 \<or> fin")
      case False
      then have "?N = 1 + ?R" using two by simp
      have "?R \<noteq> ?W"
      proof
        assume "?R = ?W"
        then have "k = 0" "TCPSender_ready_to_fin s" using False \<open>\<not> (0 < ?N \<and> _)\<close> by (auto simp: k_def)
        then show False using False fs \<open>?N = 1 + ?R\<close> win rtf \<open>?R = ?W\<close> by (auto simp: fin_def N1_def)
      qed
      then show ?thesis using F(2) dl False win by (auto simp: len k_def)
    qed (auto simp: len)
    have at: "seg_at zs (sd_isn s) ?N seg"
      using progress two kW ended k1 klen by (auto simp: seg_at_def seg_def hd0_def TCPHeader_new_def
          TCPSender_next_seqno_def fin_def unat_eq_zero)
    have ph': "sd_phase zs (?N + seg_len seg) st'"
      using two ended kW by (auto simp: sd_phase_def len R' same fin_def)
    have fs': "fin \<or> sd_fin_sent s \<longrightarrow> ?N + seg_len seg = 2 + unat (bs_total_read st')"
      using fs two len R' progress by auto
    note E = sd_emit[OF inv at st' ph' fs' s'_def]
    have "N1 < 2 ^ 64" using N1 kW ended st by (simp add: sd_stream_inv_def)
    have next1: "TCPSegment_length_in_sequence_space \<lparr>seg_header = hd0, seg_payload = slice zs ?R k\<rparr> + sd_next_seqno s = of_nat N1"
      unfolding length_in_sequence_space_eq
      by (simp add: N1_def seg_len_def hd0_def TCPHeader_new_def klen unat_eq_zero)
    have fit: "of_nat N1 \<le> sd_window_right s \<longleftrightarrow> N1 \<le> ?Wr"
      using \<open>N1 < 2 ^ 64\<close> by (simp only: word_le_nat_alt unat_of_nat_u64)
    have eof: "ByteStream_eof st' \<longleftrightarrow> bs_end (sd_stream s) \<and> ?R + k = ?W"
      using stream_inv_facts(5)[OF st'] R' same by simp
    have fin_eq: "(ByteStream_eof st' \<and> of_nat N1 \<le> sd_window_right s \<and> \<not> sd_fin_sent s) = fin"
      unfolding eof fit fin_def by blast
    have nxt: "(if fin then of_nat N1 + 1 else of_nat N1) = (of_nat (?N + seg_len seg) :: u64)"
      by (simp add: len N1_def)
    have round: "TCPSender_fill_window_round (s, False) = Inr (s', False)"
    proof -
      have guard: "(0 < sd_next_seqno s \<and> ByteStream_buffer_empty (sd_stream s) \<and> \<not> TCPSender_ready_to_fin s) = False"
        using False pos F(4) unfolding TCPSender_next_seqno_absolute_def by blast
      have segeq: "(if fin then \<lparr>seg_header = hd0\<lparr>th_fin := True\<rparr>, seg_payload = slice zs ?R k\<rparr>
          else \<lparr>seg_header = hd0, seg_payload = slice zs ?R k\<rparr>) = seg" by (simp add: seg_def)
      show ?thesis
        unfolding TCPSender_fill_window_round_def case_prod_conv TCPSender_next_seqno_absolute_def
        unfolding guard if_False Let_def hd0_def[symmetric] dlen_def[symmetric] rd andthen_simps case_prod_conv
        unfolding next1 fin_eq
        unfolding segeq nxt
        unfolding length_in_sequence_space_eq s'_def by (cases s) simp
    qed
    have "k \<le> unat dlen" by (simp add: k_def)
    also have "unat dlen \<le> (if ?N = 0 then ?Wr else ?Wr - ?N + 1)" unfolding dl by (rule min.cobounded1)
    finally have "?N + seg_len seg \<le> ?Wr + 1"
      using win by (auto simp: len fin_def N1_def split: if_splits)
    then show ?thesis using round E at by (intro disjI2 exI[of _ s'] exI[of _ seg]) (simp add: s'_def)
  qed
qed


lemma send_one_byte_segment_sim:
  assumes inv: "sd_inv zs s" and pos: "0 < sd_next s"
    and can: "if f then TCPSender_ready_to_fin s else \<not> ByteStream_buffer_empty (sd_stream s)"
  shows "\<exists>s' seg. TCPSender_send_one_byte_segment (s\<lparr>sd_probing := True\<rparr>) f = Inr s' \<and> sd_inv zs s' \<and>
    seg_at zs (sd_isn s) (sd_next s) seg \<and> seg_len seg = 1 \<and> sd_next s' = sd_next s + 1 \<and>
    s' = s\<lparr>sd_stream := sd_stream s', sd_next_seqno := sd_next_seqno s', sd_in_flights := sd_in_flights s',
      sd_outstandings := sd_outstandings s @ [seg], sd_segments_out := sd_segments_out s @ [seg], sd_probing := True\<rparr>"
proof -
  let ?N = "sd_next s" and ?R = "sd_read s" and ?W = "sd_written s"
  have st: "sd_stream_inv zs (sd_stream s)" and ph: "sd_phase zs ?N (sd_stream s)"
    and fs: "sd_fin_sent s \<longrightarrow> ?N = 2 + ?R" using inv by (auto simp: sd_inv_def)
  note F = stream_inv_facts[OF st]
  note rtf = ready_to_fin_iff[OF inv]
  have ended: "bs_end (sd_stream s) \<longrightarrow> ?W = length zs" "?W \<le> length zs" using st by (auto simp: sd_stream_inv_def)
  have one: "?N = 1 + ?R" using ph pos can rtf F(4) ended F(2) by (auto simp: sd_phase_def split: if_splits)
  have nofs: "\<not> sd_fin_sent s" using fs one by simp
  define hd0 where "hd0 = TCPHeader_new\<lparr>th_seqno := TCPSender_next_seqno s\<rparr>"
  have nofin: "TCPSender_next_seqno (s\<lparr>sd_probing := True\<rparr>) = TCPSender_next_seqno s"
    by (simp add: TCPSender_next_seqno_def)
  have seq: "TCPSender_next_seqno s = wrap (of_nat ?N) (sd_isn s)" by (simp add: TCPSender_next_seqno_def)
  have main: "\<exists>s'. TCPSender_send_one_byte_segment (s\<lparr>sd_probing := True\<rparr>) f = Inr s' \<and> sd_inv zs s' \<and>
      seg_at zs (sd_isn s) ?N seg \<and> seg_len seg = 1 \<and> sd_next s' = ?N + 1 \<and>
      s' = s\<lparr>sd_stream := sd_stream s', sd_next_seqno := sd_next_seqno s', sd_in_flights := sd_in_flights s',
        sd_outstandings := sd_outstandings s @ [seg], sd_segments_out := sd_segments_out s @ [seg], sd_probing := True\<rparr>"
    if seg: "seg_at zs (sd_isn s) ?N seg" "seg_len seg = 1" and st': "sd_stream_inv zs st'"
      and ph': "sd_phase zs (?N + seg_len seg) st'"
      and run: "TCPSender_send_one_byte_segment (s\<lparr>sd_probing := True\<rparr>) f =
        Inr (s\<lparr>sd_stream := st', sd_next_seqno := sd_next_seqno s + 1, sd_in_flights := sd_in_flights s + 1,
          sd_outstandings := sd_outstandings s @ [seg], sd_segments_out := sd_segments_out s @ [seg], sd_probing := True\<rparr>)"
    for seg st'
  proof -
    let ?s = "s\<lparr>sd_stream := st', sd_next_seqno := of_nat (?N + seg_len seg), sd_fin_sent := sd_fin_sent s,
        sd_in_flights := sd_in_flights s + of_nat (seg_len seg),
        sd_outstandings := sd_outstandings s @ [seg], sd_segments_out := sd_segments_out s @ [seg], sd_probing := True\<rparr>"
    have "sd_fin_sent s \<longrightarrow> ?N + seg_len seg = 2 + unat (bs_total_read st')" using nofs by simp
    note E = sd_emit[OF inv seg(1) st' ph' this refl, of True]
    have "TCPSender_send_one_byte_segment (s\<lparr>sd_probing := True\<rparr>) f = Inr ?s"
      unfolding run using seg(2) by (cases s) (simp add: add.commute)
    with E seg show ?thesis by (intro exI[of _ ?s]) simp
  qed
  show ?thesis
  proof (cases f)
    case True
    let ?seg = "TCPSegment_new\<lparr>seg_header := hd0\<lparr>th_fin := True\<rparr>\<rparr>"
    have e: "bs_end (sd_stream s)" "?R = ?W" "?W = length zs" using True can rtf ended by auto
    have "seg_at zs (sd_isn s) ?N ?seg" "seg_len ?seg = 1"
      using e one seq by (auto simp: seg_at_def seg_len_def hd0_def TCPHeader_new_def TCPSegment_new_def)
    moreover have "sd_phase zs (?N + seg_len ?seg) (sd_stream s)"
      using e one calculation(2) by (simp add: sd_phase_def)
    moreover have "TCPSender_send_one_byte_segment (s\<lparr>sd_probing := True\<rparr>) f =
        Inr (s\<lparr>sd_stream := sd_stream s, sd_next_seqno := sd_next_seqno s + 1, sd_in_flights := sd_in_flights s + 1,
          sd_outstandings := sd_outstandings s @ [?seg], sd_segments_out := sd_segments_out s @ [?seg], sd_probing := True\<rparr>)"
      unfolding TCPSender_send_one_byte_segment_def nofin hd0_def Let_def using True by simp
    ultimately show ?thesis using main[of ?seg "sd_stream s"] st by blast
  next
    case False
    then have lt: "?R < ?W" using can F(2,4) by auto
    have k: "min (unat (1 :: size_t)) (?W - ?R) = 1" using lt by simp
    obtain st' where rd: "ByteStream_read (sd_stream s) 1 = Inr (slice zs ?R 1, st')" and st': "sd_stream_inv zs st'"
      and R': "unat (bs_total_read st') = ?R + 1"
      using stream_read[OF st, of 1] unfolding k by blast
    let ?seg = "\<lparr>seg_header = hd0, seg_payload = slice zs ?R 1\<rparr>"
    have l1: "length (slice zs ?R 1) = 1" using lt ended by simp
    have "seg_at zs (sd_isn s) ?N ?seg" "seg_len ?seg = 1"
      using one lt ended l1 seq by (simp_all add: seg_at_def seg_len_def hd0_def TCPHeader_new_def)
    moreover have "sd_phase zs (?N + seg_len ?seg) st'"
      using one calculation(2) by (simp add: sd_phase_def R')
    moreover have "TCPSender_send_one_byte_segment (s\<lparr>sd_probing := True\<rparr>) f =
        Inr (s\<lparr>sd_stream := st', sd_next_seqno := sd_next_seqno s + 1, sd_in_flights := sd_in_flights s + 1,
          sd_outstandings := sd_outstandings s @ [?seg], sd_segments_out := sd_segments_out s @ [?seg], sd_probing := True\<rparr>)"
      unfolding TCPSender_send_one_byte_segment_def nofin hd0_def Let_def using False rd by simp
    ultimately show ?thesis using main[of ?seg st'] st' by blast
  qed
qed


text \<open>What \<open>fill_window\<close> may change, and how the new segments extend the sequence.\<close>

definition sd_extends :: "bytes \<Rightarrow> TCPSender \<Rightarrow> TCPSegment list \<Rightarrow> TCPSender \<Rightarrow> bool" where
  "sd_extends zs s new s' \<longleftrightarrow> sd_inv zs s' \<and> chain zs (sd_isn s) (sd_next s) new (sd_next s') \<and>
     s' = s\<lparr>sd_stream := sd_stream s', sd_next_seqno := sd_next_seqno s', sd_fin_sent := sd_fin_sent s',
       sd_in_flights := sd_in_flights s', sd_outstandings := sd_outstandings s @ new,
       sd_segments_out := sd_segments_out s @ new, sd_probing := sd_probing s'\<rparr>"

lemma sd_extends_fields:
  "sd_extends zs s new s' \<Longrightarrow> sd_isn s' = sd_isn s \<and> sd_window_right s' = sd_window_right s \<and>
     sd_window s' = sd_window s \<and> sd_outstandings s' = sd_outstandings s @ new \<and> sd_segments_out s' = sd_segments_out s @ new"
  unfolding sd_extends_def
  by (elim conjE) (auto dest: arg_cong[where f = sd_isn] arg_cong[where f = sd_window_right]
      arg_cong[where f = sd_window] arg_cong[where f = sd_outstandings] arg_cong[where f = sd_segments_out])

lemma sd_extends_refl: "sd_inv zs s \<Longrightarrow> sd_extends zs s [] s"
  by (simp add: sd_extends_def)

lemma sd_extends_snoc:
  assumes ext: "sd_extends zs s new t" and inv: "sd_inv zs t'" and seg: "seg_at zs (sd_isn t) (sd_next t) seg"
    and N': "sd_next t' = sd_next t + seg_len seg"
    and t': "t' = t\<lparr>sd_stream := sd_stream t', sd_next_seqno := sd_next_seqno t', sd_fin_sent := sd_fin_sent t',
        sd_in_flights := sd_in_flights t', sd_outstandings := sd_outstandings t @ [seg],
        sd_segments_out := sd_segments_out t @ [seg], sd_probing := sd_probing t'\<rparr>"
  shows "sd_extends zs s (new @ [seg]) t'"
proof -
  note f = sd_extends_fields[OF ext]
  have "chain zs (sd_isn s) (sd_next s) (new @ [seg]) (sd_next t')"
    unfolding N' using ext seg f by (intro chain_snoc) (simp_all add: sd_extends_def)
  moreover have "t' = s\<lparr>sd_stream := sd_stream t', sd_next_seqno := sd_next_seqno t', sd_fin_sent := sd_fin_sent t',
       sd_in_flights := sd_in_flights t', sd_outstandings := sd_outstandings s @ new @ [seg],
       sd_segments_out := sd_segments_out s @ new @ [seg], sd_probing := sd_probing t'\<rparr>"
  proof -
    have "t = s\<lparr>sd_stream := sd_stream t, sd_next_seqno := sd_next_seqno t, sd_fin_sent := sd_fin_sent t,
       sd_in_flights := sd_in_flights t, sd_outstandings := sd_outstandings s @ new,
       sd_segments_out := sd_segments_out s @ new, sd_probing := sd_probing t\<rparr>"
      using ext by (simp add: sd_extends_def)
    with t' f show ?thesis by (cases s; cases t; cases t') simp
  qed
  ultimately show ?thesis using inv by (simp add: sd_extends_def)
qed

lemma fill_window_loop:
  assumes inv: "sd_inv zs s"
  shows "\<exists>t brk new. while_loop (\<lambda>(s, brk). \<not> brk \<and> TCPSender_next_seqno_absolute s \<le> sd_window_right s)
      TCPSender_fill_window_round (s, False) = Inr (t, brk) \<and> sd_extends zs s new t \<and>
    sd_next t \<le> max (sd_next s) (unat (sd_window_right s) + 1) \<and> (unat (sd_window_right s) < sd_next t \<or> sd_idle t)"
proof -
  let ?Wr = "unat (sd_window_right s)"
  let ?b = "\<lambda>(s, brk). \<not> brk \<and> TCPSender_next_seqno_absolute s \<le> sd_window_right s"
  define J where "J = (\<lambda>(t, brk). (\<exists>new. sd_extends zs s new t) \<and> sd_next t \<le> max (sd_next s) (?Wr + 1) \<and> (brk \<longrightarrow> sd_idle t))"
  define m where "m = (\<lambda>(t :: TCPSender, brk). 2 * (length zs + 3 - sd_next t) + (if brk then 0 else (1 :: nat)))"
  have "\<exists>u. while_loop ?b TCPSender_fill_window_round (s, False) = Inr u \<and> J u \<and> \<not> ?b u"
  proof (rule while_loop_total[where m = m])
    show "J (s, False)" using sd_extends_refl[OF inv] by (auto simp: J_def)
  next
    fix tb assume "J tb" and "?b tb"
    then obtain t new where tb: "tb = (t, False)" and ext: "sd_extends zs s new t" and le: "TCPSender_next_seqno_absolute t \<le> sd_window_right t"
      by (cases tb) (auto simp: J_def)
    note f = sd_extends_fields[OF ext]
    have tinv: "sd_inv zs t" using ext by (simp add: sd_extends_def)
    have win: "sd_next t \<le> unat (sd_window_right t)" using le by (simp add: TCPSender_next_seqno_absolute_def word_le_nat_alt)
    from fill_window_round_sim[OF tinv win]
    show "\<exists>u. TCPSender_fill_window_round tb = Inr u \<and> J u \<and> m u < m tb"
    proof (elim disjE exE conjE)
      assume "TCPSender_fill_window_round (t, False) = Inr (t, True)" "sd_idle t"
      then show ?thesis using \<open>J tb\<close> by (auto simp: tb J_def m_def)
    next
      fix t' seg
      assume r: "TCPSender_fill_window_round (t, False) = Inr (t', False)" and t'inv: "sd_inv zs t'"
        and at: "seg_at zs (sd_isn t) (sd_next t) seg" and N': "sd_next t' = sd_next t + seg_len seg"
        and lim: "sd_next t' \<le> unat (sd_window_right t) + 1"
        and upd: "t' = t\<lparr>sd_stream := sd_stream t', sd_next_seqno := sd_next_seqno t', sd_fin_sent := sd_fin_sent t',
          sd_in_flights := sd_in_flights t', sd_outstandings := sd_outstandings t @ [seg],
          sd_segments_out := sd_segments_out t @ [seg]\<rparr>"
      have pr: "sd_probing t' = sd_probing t" using arg_cong[OF upd, of sd_probing] by simp
      have "sd_extends zs s (new @ [seg]) t'"
        by (rule sd_extends_snoc[OF ext t'inv at N']) (use upd pr in \<open>cases t; simp\<close>)
      moreover have "0 < seg_len seg" using at by (simp add: seg_at_def)
      moreover have "sd_next t' \<le> length zs + 2" using t'inv sd_phase_bound by (auto simp: sd_inv_def)
      ultimately show ?thesis using r N' lim f by (auto simp: tb J_def m_def)
    qed
  qed
  then obtain v where v: "while_loop ?b TCPSender_fill_window_round (s, False) = Inr v" "J v" "\<not> ?b v" by blast
  obtain t brk where "v = (t, brk)" by (cases v)
  note u = v[unfolded this]
  from u(2) obtain new where ext: "sd_extends zs s new t" by (auto simp: J_def)
  have "?Wr < sd_next t \<or> sd_idle t"
    using u(2,3) sd_extends_fields[OF ext] by (auto simp: J_def TCPSender_next_seqno_absolute_def word_le_nat_alt)
  with u(1,2) ext show ?thesis by (auto simp: J_def)
qed


lemma fill_window_sim:
  assumes inv: "sd_inv zs s"
  shows "\<exists>s' new. TCPSender_fill_window s = Inr s' \<and> sd_extends zs s new s' \<and>
    (if sd_window s = 0 \<and> \<not> sd_probing s \<and> (\<not> ByteStream_buffer_empty (sd_stream s) \<or> TCPSender_ready_to_fin s)
     then sd_next s' = sd_next s + 1 \<and> sd_probing s'
     else sd_next s' \<le> max (sd_next s) (unat (sd_window_right s) + 1) \<and>
          (unat (sd_window_right s) < sd_next s' \<or> sd_idle s'))"
proof -
  let ?probe = "sd_window s = 0 \<and> \<not> sd_probing s"
  show ?thesis
  proof (cases "?probe \<and> (\<not> ByteStream_buffer_empty (sd_stream s) \<or> TCPSender_ready_to_fin s)")
    case True
    define f where "f = ByteStream_buffer_empty (sd_stream s)"
    have can: "if f then TCPSender_ready_to_fin s else \<not> ByteStream_buffer_empty (sd_stream s)"
      using True by (simp add: f_def)
    have pos: "0 < sd_next s" using True inv by (simp add: sd_inv_def)
    obtain s' seg where S: "TCPSender_send_one_byte_segment (s\<lparr>sd_probing := True\<rparr>) f = Inr s'" "sd_inv zs s'"
      "seg_at zs (sd_isn s) (sd_next s) seg" "seg_len seg = 1" "sd_next s' = sd_next s + 1"
      "s' = s\<lparr>sd_stream := sd_stream s', sd_next_seqno := sd_next_seqno s', sd_in_flights := sd_in_flights s',
      sd_outstandings := sd_outstandings s @ [seg], sd_segments_out := sd_segments_out s @ [seg], sd_probing := True\<rparr>"
      using send_one_byte_segment_sim[OF inv pos can] by blast
    have fs: "sd_fin_sent s' = sd_fin_sent s" "sd_probing s'"
      using arg_cong[OF S(6), of sd_fin_sent] arg_cong[OF S(6), of sd_probing] by simp_all
    have "sd_extends zs s ([] @ [seg]) s'"
      by (rule sd_extends_snoc[OF sd_extends_refl[OF inv] S(2,3)]) (use S(4,5,6) fs in \<open>cases s; simp\<close>)+
    moreover have "TCPSender_fill_window s = Inr s'"
      using True S(1) by (auto simp: TCPSender_fill_window_def f_def)
    ultimately show ?thesis using S(5) fs True by auto
  next
    case False
    then show ?thesis using fill_window_loop[OF inv] by (auto simp: TCPSender_fill_window_def)
  qed
qed

section \<open>Acknowledgments\<close>

lemma ack_loop:
  assumes "chain zs (sd_isn s) U (sd_outstandings s) N" and "N < 2 ^ 31"
    and "sd_in_flights s = of_nat (N - U)" and "ByteStream_bytes_read (sd_stream s) = of_nat R" and "R < 2 ^ 31" and "k < 2 ^ 31"
  shows "\<exists>popped rest U' brk. while_loop (\<lambda>(s, rm, brk). \<not> brk \<and> sd_outstandings s \<noteq> [])
      (TCPSender_ack_round (of_nat k)) (s, rm, False) =
      Inr (s\<lparr>sd_in_flights := of_nat (N - U'), sd_outstandings := rest\<rparr>, rm \<or> popped \<noteq> [], brk) \<and>
    sd_outstandings s = popped @ rest \<and> chain zs (sd_isn s) U popped U' \<and> chain zs (sd_isn s) U' rest N \<and>
    (popped = [] \<or> U' \<le> k) \<and> (rest = [] \<or> k < U' + seg_len (hd rest))"
  using assms
proof (induction "sd_outstandings s" arbitrary: s U rm)
  case Nil
  then show ?case
    by (intro exI[of _ "[]"] exI[of _ U] exI[of _ False]) (cases s; simp)
next
  case (Cons seg segs)
  note out = Cons.hyps(2)[symmetric]
  have at: "seg_at zs (sd_isn s) U seg" and ch: "chain zs (sd_isn s) (U + seg_len seg) segs N"
    using Cons.prems(1) by (simp_all add: out)
  have le: "U + seg_len seg \<le> N" "0 < seg_len seg" using chain_le[OF ch] at by (simp_all add: seg_at_def)
  have R: "unat (of_nat R :: u64) = R" using Cons.prems by (intro unat_of_nat_u64) simp
  have uw: "unwrap (th_seqno (seg_header seg)) (sd_isn s) (ByteStream_bytes_read (sd_stream s)) = Inr (of_nat U)"
    using at Cons.prems le unfolding seg_at_def
    by (auto intro!: unwrap_wrap_near simp: R ndist_def)
  have last: "TCPSegment_length_in_sequence_space seg + of_nat U - 1 = of_nat (U + seg_len seg - 1)"
    using le by (simp add: length_in_sequence_space_eq of_nat_diff)
  have cmp: "(of_nat (U + seg_len seg - 1) :: u64) < of_nat k \<longleftrightarrow> U + seg_len seg \<le> k"
    using le Cons.prems by (subst of_nat_less_u64) auto
  let ?w = "while_loop (\<lambda>(s, rm, brk). \<not> brk \<and> sd_outstandings s \<noteq> []) (TCPSender_ack_round (of_nat k))"
  show ?case
  proof (cases "U + seg_len seg \<le> k")
    case True
    let ?s = "s\<lparr>sd_in_flights := sd_in_flights s - of_nat (seg_len seg), sd_outstandings := segs\<rparr>"
    have step: "?w (s, rm, False) = ?w (?s, True, False)"
      using True uw last cmp
      by (subst while_loop_unfold) (simp add: out TCPSender_ack_round_def length_in_sequence_space_eq del: of_nat_add of_nat_diff)
    have fl: "sd_in_flights s - of_nat (seg_len seg) = of_nat (N - (U + seg_len seg))"
      using Cons.prems(3) le by (simp add: of_nat_diff)
    have "chain zs (sd_isn ?s) (U + seg_len seg) (sd_outstandings ?s) N" using ch by simp
    from Cons.hyps(1)[of ?s "U + seg_len seg" True, OF _ this] Cons.prems fl
    obtain popped rest U' brk where IH: "?w (?s, True, False) =
        Inr (?s\<lparr>sd_in_flights := of_nat (N - U'), sd_outstandings := rest\<rparr>, True, brk)"
      "segs = popped @ rest" "chain zs (sd_isn s) (U + seg_len seg) popped U'" "chain zs (sd_isn s) U' rest N"
      "popped = [] \<or> U' \<le> k" "rest = [] \<or> k < U' + seg_len (hd rest)" by auto
    have "U' \<le> k" using IH(3,5) True by (cases popped) auto
    then show ?thesis using IH step at
      by (intro exI[of _ "seg # popped"] exI[of _ rest] exI[of _ U'] exI[of _ brk]) (simp add: out)
  next
    case False
    have "?w (s, rm, False) = Inr (s, rm, True)"
      using False uw last cmp
      by (subst while_loop_unfold) (simp add: out TCPSender_ack_round_def del: of_nat_add of_nat_diff)
    moreover have "s\<lparr>sd_in_flights := of_nat (N - U), sd_outstandings := seg # segs\<rparr> = s"
      using Cons.prems(3) out by (cases s) simp
    ultimately show ?thesis using False at ch
      by (intro exI[of _ "[]"] exI[of _ "seg # segs"] exI[of _ U] exI[of _ True]) (simp add: out)
  qed
qed


text \<open>What an acknowledgment of everything before \<open>k\<close> does.\<close>

definition sd_acked :: "bytes \<Rightarrow> nat \<Rightarrow> u16 \<Rightarrow> TCPSender \<Rightarrow> TCPSender \<Rightarrow> bool" where
  "sd_acked zs k win s s' \<longleftrightarrow>
     sd_window s' = ucast win \<and> unat (sd_window_right s') = max (unat (sd_window_right s)) (k + unat win - 1) \<and>
     (\<exists>popped U U'. sd_outstandings s = popped @ sd_outstandings s' \<and>
        chain zs (sd_isn s) U popped U' \<and> chain zs (sd_isn s) U' (sd_outstandings s') (sd_next s') \<and>
        (popped = [] \<or> U' \<le> k) \<and> (sd_outstandings s' = [] \<or> k < U' + seg_len (hd (sd_outstandings s'))) \<and>
        sd_in_flights s' = of_nat (sd_next s' - U') \<and>
        (popped \<noteq> [] \<longrightarrow> sd_RTO s' = sd_initial_retransmission_timeout s \<and> sd_recount s' = 0)) \<and>
     sd_isn s' = sd_isn s \<and> sd_stream s' = sd_stream s \<and> sd_next_seqno s' = sd_next_seqno s \<and>
     sd_fin_sent s' = sd_fin_sent s \<and> sd_segments_out s' = sd_segments_out s"

lemma ack_received_sim:
  assumes inv: "sd_inv zs s" and k: "0 < k" "k \<le> length zs + 2"
  shows "\<exists>s'. TCPSender_ack_received s (wrap (of_nat k) (sd_isn s)) win = Inr s' \<and> sd_inv zs s' \<and>
    (if sd_next s < k then s' = s else sd_acked zs k win s s')"
proof -
  let ?N = "sd_next s" and ?R = "sd_read s" and ?Wr = "unat (sd_window_right s)"
  have st: "sd_stream_inv zs (sd_stream s)" and ph: "sd_phase zs ?N (sd_stream s)" using inv by (auto simp: sd_inv_def)
  have len: "length zs + 2 < 2 ^ 31" using st by (simp add: sd_stream_inv_def)
  have N: "?N < 2 ^ 31" using sd_phase_bound[OF ph st] by simp
  have small: "?R < 2 ^ 31" "k < 2 ^ 31" using st stream_inv_facts(2)[OF st] k len by (auto simp: sd_stream_inv_def)
  note br = stream_inv_facts(7)[OF st]
  have R: "unat (of_nat ?R :: u64) = ?R" using small by (intro unat_of_nat_u64) simp
  have uw: "unwrap (wrap (of_nat k) (sd_isn s)) (sd_isn s) (ByteStream_bytes_read (sd_stream s)) = Inr (of_nat k)"
    unfolding br using small by (intro unwrap_wrap_near) (auto simp: R ndist_def)
  have uk: "unat (of_nat k :: u64) = k" using small by (intro unat_of_nat_u64) simp
  have lt: "TCPSender_next_seqno_absolute s < of_nat k \<longleftrightarrow> ?N < k"
    by (simp add: TCPSender_next_seqno_absolute_def word_less_nat_alt uk)
  show ?thesis
  proof (cases "?N < k")
    case True
    then show ?thesis using uw lt inv by (simp add: TCPSender_ack_received_def)
  next
    case False
    let ?e = "of_nat k + ucast win - 1 :: u64"
    have e: "unat ?e = k + unat win - 1"
    proof -
      have "unat (of_nat k + ucast win :: u64) = k + unat win"
        using small unat_u16_less[of win] by (subst unat_add_u64) (simp_all add: uk)
      then show ?thesis using k(1) by (subst unat_sub) (simp_all add: word_le_nat_alt)
    qed
    define wm where "wm = (sd_window_right s < ?e)"
    define s1 where "s1 = s\<lparr>sd_window := ucast win, sd_window_right := (if wm then ?e else sd_window_right s)\<rparr>"
    have wr: "unat (if wm then ?e else sd_window_right s) = max ?Wr (k + unat win - 1)"
      by (auto simp: wm_def word_less_nat_alt e max_def)
    obtain U where U: "chain zs (sd_isn s1) U (sd_outstandings s1) ?N" "sd_in_flights s1 = of_nat (?N - U)"
      using inv by (auto simp: sd_inv_def s1_def)
    have br1: "ByteStream_bytes_read (sd_stream s1) = of_nat ?R" using br by (simp add: s1_def)
    obtain popped rest U' brk where L: "while_loop (\<lambda>(s, rm, brk). \<not> brk \<and> sd_outstandings s \<noteq> [])
        (TCPSender_ack_round (of_nat k)) (s1, False, False) =
        Inr (s1\<lparr>sd_in_flights := of_nat (?N - U'), sd_outstandings := rest\<rparr>, popped \<noteq> [], brk)"
      "sd_outstandings s1 = popped @ rest" "chain zs (sd_isn s1) U popped U'" "chain zs (sd_isn s1) U' rest ?N"
      "popped = [] \<or> U' \<le> k" "rest = [] \<or> k < U' + seg_len (hd rest)"
      using ack_loop[OF U(1) N U(2) br1 small, of False] by auto
    define s2 where "s2 = s1\<lparr>sd_in_flights := of_nat (?N - U'), sd_outstandings := rest,
        sd_probing := (if wm then False else sd_probing s)\<rparr>"
    define s' where "s' = (if popped \<noteq> [] then s2\<lparr>sd_RTO := sd_initial_retransmission_timeout s,
        sd_timePassed := (if rest \<noteq> [] then 0 else sd_timePassed s), sd_recount := 0\<rparr> else s2)"
    have run: "TCPSender_ack_received s (wrap (of_nat k) (sd_isn s)) win = Inr s'"
    proof -
      have "(if wm then s1\<lparr>sd_in_flights := of_nat (?N - U'), sd_outstandings := rest, sd_probing := False\<rparr>
          else s1\<lparr>sd_in_flights := of_nat (?N - U'), sd_outstandings := rest\<rparr>) = s2"
        by (cases s) (simp add: s2_def s1_def)
      then show ?thesis
        unfolding TCPSender_ack_received_def uw andthen_simps Let_def wm_def[symmetric] s1_def[symmetric] L(1)
        using False lt by (auto simp: s'_def s2_def s1_def)
    qed
    have acked: "sd_acked zs k win s s'"
      unfolding sd_acked_def
    proof (intro conjI)
      show "\<exists>popped U U'. sd_outstandings s = popped @ sd_outstandings s' \<and>
        chain zs (sd_isn s) U popped U' \<and> chain zs (sd_isn s) U' (sd_outstandings s') (sd_next s') \<and>
        (popped = [] \<or> U' \<le> k) \<and> (sd_outstandings s' = [] \<or> k < U' + seg_len (hd (sd_outstandings s'))) \<and>
        sd_in_flights s' = of_nat (sd_next s' - U') \<and>
        (popped \<noteq> [] \<longrightarrow> sd_RTO s' = sd_initial_retransmission_timeout s \<and> sd_recount s' = 0)"
        using L(2-6) by (intro exI[of _ popped] exI[of _ U] exI[of _ U']) (simp add: s'_def s2_def s1_def)
    qed (use wr in \<open>auto simp: s'_def s2_def s1_def\<close>)
    moreover have "sd_inv zs s'"
      using inv acked False k unfolding sd_inv_def sd_acked_def by auto
    ultimately show ?thesis using run False by auto
  qed
qed

section \<open>The timer and the other calls\<close>

lemma sd_inv_cong:
  assumes "sd_inv zs s" and "sd_stream s' = sd_stream s" "sd_next_seqno s' = sd_next_seqno s" "sd_isn s' = sd_isn s"
    "sd_fin_sent s' = sd_fin_sent s" "sd_window s' = sd_window s" "sd_outstandings s' = sd_outstandings s"
    "sd_in_flights s' = sd_in_flights s" and "list_all (seg_fresh zs (sd_isn s)) (sd_segments_out s')"
  shows "sd_inv zs s'"
  using assms by (simp add: sd_inv_def)

lemma tick_inv:
  assumes "sd_inv zs s"
  shows "sd_inv zs (TCPSender_tick s ms)"
proof -
  have "seg_fresh zs (sd_isn s) (hd (sd_outstandings s))" if "sd_outstandings s \<noteq> []"
    using assms that by (cases "sd_outstandings s") (auto simp: sd_inv_def seg_at_fresh)
  then show ?thesis
    using assms by (intro sd_inv_cong[OF assms]) (auto simp: TCPSender_tick_def Let_def sd_inv_def)
qed

lemma send_empty_inv:
  assumes "sd_inv zs s"
  shows "sd_inv zs (TCPSender_send_empty_segment s)" "sd_inv zs (TCPSender_send_empty_segment_RST s)"
  using assms
  by (intro sd_inv_cong[OF assms];
      auto simp: TCPSender_send_empty_segment_def TCPSender_send_empty_segment_RST_def sd_inv_def
        TCPSegment_new_def TCPHeader_new_def intro!: seg_empty_fresh)+


text \<open>The application writes the next part of \<open>zs\<close> and ends the stream after the last one.\<close>

definition sd_write :: "bytes \<Rightarrow> nat \<Rightarrow> TCPSender \<Rightarrow> TCPSender" where
  "sd_write zs n s = s\<lparr>sd_stream := snd (ByteStream_write (sd_stream s) (slice zs (sd_written s) n))\<rparr>"

definition sd_end_input :: "TCPSender \<Rightarrow> TCPSender" where
  "sd_end_input s = s\<lparr>sd_stream := ByteStream_end_input (sd_stream s)\<rparr>"

lemma sd_write_inv:
  assumes inv: "sd_inv zs s"
  shows "sd_inv zs (sd_write zs n s)"
proof -
  let ?st = "sd_stream s" and ?W = "sd_written s" and ?R = "sd_read s"
  let ?d = "slice zs ?W n"
  have st: "sd_stream_inv zs ?st" using inv by (simp add: sd_inv_def)
  have lin: "bs_linear ?st" and W: "?W \<le> length zs" and len: "length zs + 2 < 2 ^ 31"
    and buf: "bs_buffer ?st = slice zs ?R (?W - ?R)" and ended: "bs_end ?st \<longrightarrow> ?W = length zs"
    using st by (simp_all add: sd_stream_inv_def)
  note wf = stream_inv_facts(1)[OF st]
  note RW = stream_inv_facts(2)[OF st]
  define k where "k = min (length ?d) (bs_room ?st)"
  have dlen: "length ?d \<le> length zs - ?W" by (simp add: slice_def)
  have k: "?W + k \<le> length zs" using dlen W unfolding k_def by linarith
  have acc: "take (bs_room ?st) ?d = slice zs ?W k"
    using W by (simp add: k_def slice_def min_def)
  have "length ?d < 2 ^ 63" using dlen len by simp
  note wr = write_spec[OF wf this, folded k_def, unfolded acc]
  have W': "unat (bs_written ?st + of_nat k) = ?W + k"
    using k len by (subst unat_add_u32) (simp_all add: unat_of_nat_u32)
  let ?st' = "?st\<lparr>bs_buffer := bs_buffer ?st @ slice zs ?W k, bs_written := bs_written ?st + of_nat k\<rparr>"
  have klen: "length (slice zs ?W k) = k" using k by simp
  have "bs_wf ?st'" using write_wf[OF wf \<open>length ?d < 2 ^ 63\<close>] by (simp add: wr)
  then have "bs_linear ?st'"
    using lin W' k len klen by (simp add: bs_linear_def)
  moreover have "bs_buffer ?st' = slice zs ?R (?W + k - ?R)"
    using slice_join[of ?R ?W "?W + k" zs] RW by (simp add: buf)
  moreover have "bs_end ?st \<longrightarrow> k = 0" using ended k by auto
  ultimately have "sd_stream_inv zs ?st'" using len k ended W' by (auto simp: sd_stream_inv_def)
  then show ?thesis
    using inv wr by (simp add: sd_write_def sd_inv_def sd_phase_def)
qed

lemma sd_end_input_inv:
  assumes "sd_inv zs s" and "sd_written s = length zs"
  shows "sd_inv zs (sd_end_input s)"
  using assms
  by (auto simp: sd_inv_def sd_end_input_def sd_stream_inv_def sd_phase_def ByteStream_end_input_def)

section \<open>Reachable senders\<close>

text \<open>
  The states a sender goes through while the application writes \<open>zs\<close> and acknowledgments of
  positive sequence numbers up to that of the FIN arrive, in any order and with any window.
\<close>

inductive tx_step :: "bytes \<Rightarrow> TCPSender \<Rightarrow> TCPSender \<Rightarrow> bool" for zs where
  app_write: "tx_step zs s (sd_write zs n s)"
| app_end: "sd_written s = length zs \<Longrightarrow> tx_step zs s (sd_end_input s)"
| fill: "TCPSender_fill_window s = Inr s' \<Longrightarrow> tx_step zs s s'"
| ack: "0 < k \<Longrightarrow> k \<le> length zs + 2 \<Longrightarrow> TCPSender_ack_received s (wrap (of_nat k) (sd_isn s)) w = Inr s' \<Longrightarrow> tx_step zs s s'"
| tick: "tx_step zs s (TCPSender_tick s ms)"
| empty: "tx_step zs s (TCPSender_send_empty_segment s)"
| rst: "tx_step zs s (TCPSender_send_empty_segment_RST s)"
| dequeue: "sd_segments_out s = seg # segs \<Longrightarrow> tx_step zs s (s\<lparr>sd_segments_out := segs\<rparr>)"

inductive tx_reach :: "bytes \<Rightarrow> TCPSender \<Rightarrow> TCPSender \<Rightarrow> bool" for zs s0 where
  init: "tx_reach zs s0 s0"
| step: "tx_reach zs s0 s \<Longrightarrow> tx_step zs s s' \<Longrightarrow> tx_reach zs s0 s'"

lemma tx_step_inv:
  assumes "tx_step zs s s'" and "sd_inv zs s"
  shows "sd_inv zs s'"
  using assms
proof cases
  case fill
  then show ?thesis using fill_window_sim[OF assms(2)] by (auto simp: sd_extends_def)
next
  case (ack k w)
  then show ?thesis using ack_received_sim[OF assms(2) ack(1,2), of w] by auto
next
  case (dequeue seg segs)
  show ?thesis unfolding dequeue(1)
    by (rule sd_inv_cong[OF assms(2)]) (use assms(2) dequeue(2) in \<open>auto simp: sd_inv_def\<close>)
qed (use assms(2) sd_write_inv sd_end_input_inv tick_inv send_empty_inv in auto)

lemma sender_new_inv:
  assumes "length zs + 2 < 2 ^ 31" and "unat cap < 2 ^ 31"
  shows "sd_inv zs (TCPSender_new cap rt isn rnd)"
  using assms bs_new_wf[OF assms(2)]
  by (simp add: sd_inv_def TCPSender_new_def sd_stream_inv_def sd_phase_def bs_linear_def)
    (simp add: ByteStream_new_def)

lemma tx_reach_inv:
  assumes "tx_reach zs (TCPSender_new cap rt isn rnd) s" and "length zs + 2 < 2 ^ 31" and "unat cap < 2 ^ 31"
  shows "sd_inv zs s"
  using assms(1)
  by induction (use sender_new_inv[OF assms(2,3)] tx_step_inv in auto)

lemma chain_total: "chain zs isn a segs b \<Longrightarrow> a + sum_list (map seg_len segs) = b"
proof (induction segs arbitrary: a)
  case (Cons seg segs)
  then show ?case by fastforce
qed simp


section \<open>Properties\<close>

text \<open>C17: \<open>fill_window\<close> returns in every reachable state, and the segments it appends to both queues
follow one another without a gap from the old next sequence number to the new one, carry the right
part of the application's stream, at most 1000 bytes each, with SYN on the very first sequence number
and FIN only after the last byte. With a zero window it sends one probe of one sequence number;
otherwise it never sends past the right edge of the window, and it stops only when the window is
full or there is nothing left to send.\<close>

theorem fill_window_fills:
  assumes "tx_reach zs (TCPSender_new cap rt isn rnd) s" and "length zs + 2 < 2 ^ 31" and "unat cap < 2 ^ 31"
  shows "\<exists>s' new. TCPSender_fill_window s = Inr s' \<and>
    sd_segments_out s' = sd_segments_out s @ new \<and> sd_outstandings s' = sd_outstandings s @ new \<and>
    chain zs (sd_isn s) (unat (sd_next_seqno s)) new (unat (sd_next_seqno s')) \<and>
    (if sd_window s = 0 \<and> \<not> sd_probing s \<and> (\<not> ByteStream_buffer_empty (sd_stream s) \<or> TCPSender_ready_to_fin s)
     then unat (sd_next_seqno s') = unat (sd_next_seqno s) + 1
     else unat (sd_next_seqno s') \<le> max (unat (sd_next_seqno s)) (unat (sd_window_right s) + 1) \<and>
       (unat (sd_window_right s) < unat (sd_next_seqno s') \<or> sd_idle s'))"
proof -
  obtain s' new where f: "TCPSender_fill_window s = Inr s'" "sd_extends zs s new s'"
    "if sd_window s = 0 \<and> \<not> sd_probing s \<and> (\<not> ByteStream_buffer_empty (sd_stream s) \<or> TCPSender_ready_to_fin s)
     then sd_next s' = sd_next s + 1 \<and> sd_probing s'
     else sd_next s' \<le> max (sd_next s) (unat (sd_window_right s) + 1) \<and>
          (unat (sd_window_right s) < sd_next s' \<or> sd_idle s')"
    using fill_window_sim[OF tx_reach_inv[OF assms]] by blast
  then show ?thesis
    using sd_extends_fields[OF f(2)]
    by (intro exI[of _ s'] exI[of _ new]) (auto simp: sd_extends_def split: if_splits)
qed

theorem fill_window_fills_witness:
  "(let s = sd_write [7, 8, 9] 3 (TCPSender_new 10 1000 (Some (WrappingInt32 5)) 0)
    in \<exists>s' new. TCPSender_fill_window s = Inr s' \<and>
    sd_segments_out s' = sd_segments_out s @ new \<and> sd_outstandings s' = sd_outstandings s @ new \<and>
    chain [7, 8, 9] (sd_isn s) (unat (sd_next_seqno s)) new (unat (sd_next_seqno s')) \<and>
    (if sd_window s = 0 \<and> \<not> sd_probing s \<and> (\<not> ByteStream_buffer_empty (sd_stream s) \<or> TCPSender_ready_to_fin s)
     then unat (sd_next_seqno s') = unat (sd_next_seqno s) + 1
     else unat (sd_next_seqno s') \<le> max (unat (sd_next_seqno s)) (unat (sd_window_right s) + 1) \<and>
       (unat (sd_window_right s) < unat (sd_next_seqno s') \<or> sd_idle s')))"
  unfolding Let_def
  by (rule fill_window_fills[where cap = 10 and rt = 1000 and isn = "Some (WrappingInt32 5)" and rnd = 0])
    (rule tx_reach.step[OF tx_reach.init tx_step.app_write], simp_all)

text \<open>C20: \<open>bytes_in_flight\<close> is the number of sequence numbers of the outstanding segments, which are
consecutive and end at the next sequence number to be sent; every segment waiting to be sent,
retransmissions and empty ones included, is one that a receiver of the same stream accepts.\<close>

theorem sender_accounting:
  assumes "tx_reach zs (TCPSender_new cap rt isn rnd) s" and "length zs + 2 < 2 ^ 31" and "unat cap < 2 ^ 31"
  shows "unat (TCPSender_bytes_in_flight s) = sum_list (map seg_len (sd_outstandings s)) \<and>
    chain zs (sd_isn s) (unat (sd_next_seqno s) - unat (TCPSender_bytes_in_flight s)) (sd_outstandings s) (unat (sd_next_seqno s)) \<and>
    list_all (seg_fresh zs (sd_isn s)) (sd_segments_out s)"
proof -
  note inv = tx_reach_inv[OF assms]
  then obtain U where U: "chain zs (sd_isn s) U (sd_outstandings s) (sd_next s)" "sd_in_flights s = of_nat (sd_next s - U)"
    by (auto simp: sd_inv_def)
  have "sd_next s < 2 ^ 31" using inv sd_phase_bound by (auto simp: sd_inv_def)
  then have fl: "unat (sd_in_flights s) = sd_next s - U" unfolding U(2) by (intro unat_of_nat_u64) simp
  note tot = chain_total[OF U(1)]
  have "sd_next s - (sd_next s - U) = U" using tot by linarith
  then show ?thesis using U(1) fl tot inv by (auto simp: TCPSender_bytes_in_flight_def sd_inv_def)
qed

theorem sender_accounting_witness:
  "(let s = sd_write [7, 8, 9] 3 (TCPSender_new 10 1000 (Some (WrappingInt32 5)) 0)
    in unat (TCPSender_bytes_in_flight s) = sum_list (map seg_len (sd_outstandings s)) \<and>
    chain [7, 8, 9] (sd_isn s) (unat (sd_next_seqno s) - unat (TCPSender_bytes_in_flight s)) (sd_outstandings s) (unat (sd_next_seqno s)) \<and>
    list_all (seg_fresh [7, 8, 9] (sd_isn s)) (sd_segments_out s))"
  unfolding Let_def
  by (rule sender_accounting[where cap = 10 and rt = 1000 and isn = "Some (WrappingInt32 5)" and rnd = 0])
    (rule tx_reach.step[OF tx_reach.init tx_step.app_write], simp_all)

text \<open>C18: \<open>ack_received\<close> returns in every reachable state. An acknowledgment of something not yet sent
changes nothing. Any other one sets the window, moves the right edge of the window forward or leaves
it, and removes from the outstanding queue exactly the segments that lie completely before the
acknowledged sequence number; if there were any, the timeout is back at its initial value and the
retransmission count is zero.\<close>

theorem ack_received_removes:
  assumes "tx_reach zs (TCPSender_new cap rt isn rnd) s" and "length zs + 2 < 2 ^ 31" and "unat cap < 2 ^ 31"
    and "0 < k" and "k \<le> length zs + 2"
  shows "\<exists>s'. TCPSender_ack_received s (wrap (of_nat k) (sd_isn s)) win = Inr s' \<and>
    (if unat (sd_next_seqno s) < k then s' = s else sd_acked zs k win s s')"
  using ack_received_sim[OF tx_reach_inv[OF assms(1-3)] assms(4,5), of win] by blast

theorem ack_received_removes_witness:
  "(let s = sd_write [7, 8, 9] 3 (TCPSender_new 10 1000 (Some (WrappingInt32 5)) 0)
    in \<exists>s'. TCPSender_ack_received s (wrap (of_nat 1) (sd_isn s)) 20 = Inr s' \<and>
    (if unat (sd_next_seqno s) < 1 then s' = s else sd_acked [7, 8, 9] 1 20 s s'))"
  unfolding Let_def
  by (rule ack_received_removes[where cap = 10 and rt = 1000 and isn = "Some (WrappingInt32 5)" and rnd = 0])
    (rule tx_reach.step[OF tx_reach.init tx_step.app_write], simp_all)

text \<open>The timer: one expiry with a segment outstanding.\<close>

lemma tick_expired:
  assumes "sd_outstandings s \<noteq> []" and "0 < sd_window s" and "sd_timePassed s = 0"
  shows "TCPSender_tick s (ucast (sd_RTO s)) =
    s\<lparr>sd_segments_out := sd_segments_out s @ [hd (sd_outstandings s)], sd_recount := sd_recount s + 1,
      sd_RTO := sd_RTO s * 2, sd_timePassed := 0\<rparr>"
  using assms by (simp add: TCPSender_tick_def)




text \<open>An acknowledgment of sequence number 0 with a zero window underflows the right edge of the
window: it becomes \<open>2^64 - 1\<close>, so that the window is unlimited although the peer advertised none.\<close>

theorem zero_ack_opens_window:
  "map_sum id (\<lambda>s. (sd_window s, sd_window_right s))
     (TCPSender_ack_received (TCPSender_new 10 1000 (Some (WrappingInt32 5)) 0) (WrappingInt32 5) 0) =
   Inr (0, 0xFFFFFFFFFFFFFFFF)"
  by code_simp

end
