(* ===== verification/Connection_Correct.thy ===== *)
theory Connection_Correct
  imports Sender_Correct Tcp_Connection
begin

text \<open>
  Correctness of one endpoint: the invariant \<open>conn_inv\<close> joins those of sender and receiver with the
  claim that every queued segment tells the truth, and every operation keeps it; how a connection
  answers, waits and gives up.
\<close>

section \<open>What the sender still waits for\<close>

text \<open>The first sequence number that is not acknowledged.\<close>

definition sd_una :: "TCPSender \<Rightarrow> nat" where
  "sd_una s = sd_next s - unat (sd_in_flights s)"

lemma sd_una_chain:
  assumes "sd_inv zs s"
  shows "chain zs (sd_isn s) (sd_una s) (sd_outstandings s) (sd_next s)"
proof -
  obtain U where U: "chain zs (sd_isn s) U (sd_outstandings s) (sd_next s)" "sd_in_flights s = of_nat (sd_next s - U)"
    using assms by (auto simp: sd_inv_def)
  have "sd_next s < 2 ^ 31" using assms sd_phase_bound by (auto simp: sd_inv_def)
  then have "unat (sd_in_flights s) = sd_next s - U" unfolding U(2) by (intro unat_of_nat_u64) simp
  then have "sd_una s = U" using chain_le[OF U(1)] by (simp add: sd_una_def)
  then show ?thesis using U(1) by simp
qed

lemma sd_una_eq:
  assumes "sd_inv zs s" and "chain zs' isn' U (sd_outstandings s) (sd_next s)"
  shows "sd_una s = U"
  using chain_total[OF sd_una_chain[OF assms(1)]] chain_total[OF assms(2)] by simp

lemma fill_window_una:
  assumes "sd_inv zs s"
  shows "\<exists>s'. TCPSender_fill_window s = Inr s' \<and> sd_inv zs s' \<and> sd_isn s' = sd_isn s \<and> sd_una s' = sd_una s"
proof -
  obtain s' new where f: "TCPSender_fill_window s = Inr s'" "sd_extends zs s new s'"
    using fill_window_sim[OF assms] by blast
  have inv: "sd_inv zs s'" and ch: "chain zs (sd_isn s) (sd_next s) new (sd_next s')"
    using f(2) by (auto simp: sd_extends_def)
  note fld = sd_extends_fields[OF f(2)]
  have "chain zs (sd_isn s) (sd_una s) (sd_outstandings s') (sd_next s')"
    using sd_una_chain[OF assms] ch fld by (auto simp: chain_append)
  then have "sd_una s' = sd_una s" by (rule sd_una_eq[OF inv])
  then show ?thesis using f(1) inv fld by blast
qed

lemma ack_received_una:
  assumes "sd_inv zs s" and "0 < k" "k \<le> length zs + 2"
  shows "\<exists>s'. TCPSender_ack_received s (wrap (of_nat k) (sd_isn s)) win = Inr s' \<and> sd_inv zs s' \<and>
    sd_isn s' = sd_isn s \<and> sd_una s' \<le> max (sd_una s) k"
proof -
  obtain s' where r: "TCPSender_ack_received s (wrap (of_nat k) (sd_isn s)) win = Inr s'" and inv: "sd_inv zs s'"
    and eff: "if sd_next s < k then s' = s else sd_acked zs k win s s'"
    using ack_received_sim[OF assms, of win] by blast
  have "sd_isn s' = sd_isn s \<and> sd_una s' \<le> max (sd_una s) k"
  proof (cases "sd_next s < k")
    case True
    then show ?thesis using eff by simp
  next
    case False
    then have "sd_acked zs k win s s'" using eff by simp
    then obtain popped U U' where A: "sd_outstandings s = popped @ sd_outstandings s'"
      "chain zs (sd_isn s) U popped U'" "chain zs (sd_isn s) U' (sd_outstandings s') (sd_next s')"
      "popped = [] \<or> U' \<le> k" and same: "sd_isn s' = sd_isn s" "sd_next_seqno s' = sd_next_seqno s"
      unfolding sd_acked_def by blast
    have "sd_una s' = U'" by (rule sd_una_eq[OF inv A(3)])
    moreover have "sd_una s = U" using A same by (intro sd_una_eq[OF assms(1)]) (auto simp: chain_append)
    ultimately show ?thesis using A(2,4) same by auto
  qed
  then show ?thesis using r inv by blast
qed

section \<open>How far the receiver has come\<close>

text \<open>The sequence number the receiver acknowledges; 0 before the SYN.\<close>

definition rx_pos :: "TCPReceiver \<Rightarrow> nat" where
  "rx_pos rc = (if rc_syned rc then 1 + prefix_len (sr_known (rc_reassembler rc)) +
       (if ByteStream_input_ended (TCPReceiver_stream_out rc) then 1 else 0) else 0)"

abbreviation rx_ok :: "bytes \<Rightarrow> WrappingInt32 \<Rightarrow> TCPReceiver \<Rightarrow> bool" where
  "rx_ok ys isn rc \<equiv> rx_inv ys isn (sr_capacity (rc_reassembler rc)) rc"

lemma rx_pos_le:
  assumes "rx_inv ys isn cap rc"
  shows "rx_pos rc \<le> length ys + 2"
  using sr_observe(2)[of ys "rc_reassembler rc"] assms by (auto simp: rx_pos_def rx_inv_def)

lemma rx_ackno:
  assumes "rx_inv ys isn cap rc"
  shows "TCPReceiver_ackno rc = (if rc_syned rc then Some (wrap (of_nat (rx_pos rc)) isn) else None)"
proof -
  have "sr_inv ys (rc_reassembler rc)" "rc_syned rc \<longrightarrow> rc_isn rc = isn" using assms by (auto simp: rx_inv_def)
  then show ?thesis
    by (auto simp: TCPReceiver_ackno_def rx_pos_def TCPReceiver_stream_out_def sr_inv_bytes_written algebra_simps)
qed

text \<open>The position as a function of the abstract state.\<close>

fun abs_pos :: "bytes \<Rightarrow> bool \<times> spec_state \<Rightarrow> nat" where
  "abs_pos ys (s, K, R, f) =
     (if s then 1 + prefix_len K + (if f \<and> prefix_len K = length ys then 1 else 0) else 0)"

lemma rx_pos_abs:
  assumes "rx_inv ys isn cap rc"
  shows "rx_pos rc = abs_pos ys (rx_abs rc)"
proof -
  have "sr_inv ys (rc_reassembler rc)" using assms by (simp add: rx_inv_def)
  then show ?thesis by (simp add: rx_pos_def rx_abs_def sr_abs_def TCPReceiver_stream_out_def sr_observe(6))
qed

lemma prefix_len_mono:
  assumes "K \<subseteq> K'" and "finite K'"
  shows "prefix_len K \<le> prefix_len K'"
proof -
  obtain k where k: "k \<notin> K'" using assms(2) ex_new_if_finite infinite_UNIV_nat by blast
  have "prefix_len K' \<notin> K'" unfolding prefix_len_def by (rule LeastI[of _ k]) (rule k)
  then show ?thesis using assms(1) unfolding prefix_len_def[of K] by (intro Least_le) auto
qed

lemma rx_known_finite: "rx_inv ys isn cap rc \<Longrightarrow> finite (sr_known (rc_reassembler rc))"
  using sr_observe(7)[of ys "rc_reassembler rc"] finite_subset by (auto simp: rx_inv_def)

lemma segment_received_ok:
  assumes inv: "rx_ok ys isn rc" and fine: "seg_fine ys isn seg"
  shows "\<exists>rc'. TCPReceiver_segment_received rc seg = Inr rc' \<and> rx_ok ys isn rc' \<and> rx_pos rc \<le> rx_pos rc' \<and>
    sr_read (rc_reassembler rc') = sr_read (rc_reassembler rc)"
proof -
  obtain i n where seg: "seg_payload seg = slice ys i n" "rx_legal ys isn (Deliver (seg_header seg) i n)"
    using fine by (auto simp: seg_fine_def)
  have "\<lparr>seg_header = seg_header seg, seg_payload = slice ys i n\<rparr> = seg" using seg(1) by (cases seg) simp
  then obtain rc' where r: "TCPReceiver_segment_received rc seg = Inr rc'"
    "rx_inv ys isn (sr_capacity (rc_reassembler rc)) rc'"
    "rx_spec ys (unat (sr_capacity (rc_reassembler rc))) (Deliver (seg_header seg) i n) (rx_abs rc) = ([], rx_abs rc')"
    using segment_received_sim[OF inv seg(2)] by auto
  have ok: "rx_ok ys isn rc'" using r(2) by (auto simp: rx_inv_def)
  have sp: "rc_syned rc \<longrightarrow> rc_syned rc'" "sr_known (rc_reassembler rc) \<subseteq> sr_known (rc_reassembler rc')"
    "sr_read (rc_reassembler rc') = sr_read (rc_reassembler rc)"
    "sr_endIdx (rc_reassembler rc) \<noteq> -1 \<longrightarrow> sr_endIdx (rc_reassembler rc') \<noteq> -1"
    using r(3) by (auto simp: rx_abs_def sr_abs_def split: if_splits)
  have le: "prefix_len (sr_known (rc_reassembler rc)) \<le> prefix_len (sr_known (rc_reassembler rc'))"
    by (rule prefix_len_mono[OF sp(2) rx_known_finite[OF ok]])
  moreover have "prefix_len (sr_known (rc_reassembler rc')) \<le> length ys"
    using ok by (intro sr_observe(2)) (simp add: rx_inv_def)
  ultimately have "rx_pos rc \<le> rx_pos rc'"
    unfolding rx_pos_abs[OF inv] rx_pos_abs[OF ok] using sp(1,4) by (auto simp: rx_abs_def sr_abs_def)
  then show ?thesis using r(1) ok sp(3) by blast
qed

text \<open>Reading from the inbound stream.\<close>

definition rx_read :: "TCPReceiver \<Rightarrow> size_t \<Rightarrow> (bytes \<times> TCPReceiver) result" where
  "rx_read rc n = andthen (ByteStream_read (TCPReceiver_stream_out rc) n) (\<lambda>(d, out).
     Inr (d, rc\<lparr>rc_reassembler := (rc_reassembler rc)\<lparr>sr_output := out\<rparr>\<rparr>))"

lemma rx_read_ok:
  assumes inv: "rx_ok ys isn rc"
  shows "\<exists>d rc'. rx_read rc n = Inr (d, rc') \<and> rx_ok ys isn rc' \<and> rx_pos rc' = rx_pos rc \<and>
    take (sr_read (rc_reassembler rc)) ys @ d = take (sr_read (rc_reassembler rc')) ys"
proof -
  let ?r = "rc_reassembler rc"
  obtain d rc' where r: "rx_read rc n = Inr (d, rc')" "rx_inv ys isn (sr_capacity ?r) rc'"
    "rx_spec ys (unat (sr_capacity ?r)) (Consume n) (rx_abs rc) = (d, rx_abs rc')"
    using consume_sim[OF inv, of n] by (auto simp: rx_read_def)
  have ok: "rx_ok ys isn rc'" using r(2) by (auto simp: rx_inv_def)
  define m where "m = min (unat n) (prefix_len (sr_known ?r) - sr_read ?r)"
  have d: "d = slice ys (sr_read ?r) m" "sr_read (rc_reassembler rc') = sr_read ?r + m" and same: "rc_syned rc' = rc_syned rc" "sr_known (rc_reassembler rc') = sr_known ?r"
    "(sr_endIdx (rc_reassembler rc') = -1) = (sr_endIdx ?r = -1)"
    using r(3) by (auto simp: rx_abs_def sr_abs_def m_def split: prod.splits)
  have "rx_pos rc' = rx_pos rc"
    unfolding rx_pos_abs[OF inv] rx_pos_abs[OF ok] using same by (simp add: rx_abs_def sr_abs_def)
  moreover have "take (sr_read ?r) ys @ d = take (sr_read (rc_reassembler rc')) ys"
    using slice_join[of 0 "sr_read ?r" "sr_read ?r + m" ys] by (simp add: d)
  ultimately show ?thesis using r(1) ok by blast
qed

section \<open>Errors do not touch the streams\<close>

lemma sd_inv_set_error:
  "sd_inv zs (s\<lparr>sd_stream := ByteStream_set_error (sd_stream s)\<rparr>) = sd_inv zs s"
  by (simp add: sd_inv_def sd_stream_inv_def sd_phase_def bs_linear_def bs_wf_def ByteStream_set_error_def)

lemma sr_set_error:
  defines "e r \<equiv> r\<lparr>sr_output := ByteStream_set_error (sr_output r)\<rparr>"
  shows "sr_inv ys (e r) = sr_inv ys r" and "sr_known (e r) = sr_known r" and "sr_read (e r) = sr_read r"
  by (simp_all add: e_def sr_inv_def sr_core_def sr_ending_def sr_known_def sr_written_def sr_read_def
      bs_linear_def bs_wf_def ByteStream_set_error_def)

section \<open>The invariant of an endpoint\<close>

text \<open>
  A segment on its way: it belongs to the sender's stream \<open>zs\<close>, and if it acknowledges anything it is
  a sequence number the emitting endpoint has reached in its peer's stream.
\<close>

definition seg_ok :: "bytes \<Rightarrow> WrappingInt32 \<Rightarrow> WrappingInt32 \<Rightarrow> nat \<Rightarrow> TCPSegment \<Rightarrow> bool" where
  "seg_ok zs isn pisn pos seg \<longleftrightarrow> seg_fine zs isn seg \<and>
     (th_ack (seg_header seg) \<longrightarrow> (\<exists>k. 0 < k \<and> k \<le> pos \<and> th_ackno (seg_header seg) = wrap (of_nat k) pisn))"

lemma seg_ok_mono: "seg_ok zs isn pisn p seg \<Longrightarrow> p \<le> q \<Longrightarrow> seg_ok zs isn pisn q seg"
  unfolding seg_ok_def by (meson le_trans)

definition conn_inv :: "bytes \<Rightarrow> bytes \<Rightarrow> WrappingInt32 \<Rightarrow> TCPConnection \<Rightarrow> bool" where
  "conn_inv zs ys pisn c \<longleftrightarrow> sd_inv zs (cn_sender c) \<and> rx_ok ys pisn (cn_receiver c) \<and>
     list_all (seg_ok zs (sd_isn (cn_sender c)) pisn (rx_pos (cn_receiver c))) (cn_segments_out c)"

text \<open>What a step of an endpoint does to the positions: \<open>Q\<close> is how far the peer's acknowledgments go.\<close>

definition conn_adv :: "bytes \<Rightarrow> bytes \<Rightarrow> WrappingInt32 \<Rightarrow> nat \<Rightarrow> TCPConnection \<Rightarrow> TCPConnection \<Rightarrow> bool" where
  "conn_adv zs ys pisn Q c c' \<longleftrightarrow> conn_inv zs ys pisn c' \<and> sd_isn (cn_sender c') = sd_isn (cn_sender c) \<and>
     sd_una (cn_sender c') \<le> max (sd_una (cn_sender c)) Q \<and> rx_pos (cn_receiver c) \<le> rx_pos (cn_receiver c') \<and>
     sr_read (rc_reassembler (cn_receiver c')) = sr_read (rc_reassembler (cn_receiver c))"

lemma stamp_ok:
  assumes "rx_ok ys pisn rc" and "seg_fresh zs isn seg"
  shows "seg_ok zs isn pisn (rx_pos rc) (stamp rc seg)"
proof -
  have "rc_syned rc \<Longrightarrow> 0 < rx_pos rc" by (simp add: rx_pos_def)
  then show ?thesis
    using assms(2) by (auto simp: stamp_def rx_ackno[OF assms(1)] seg_ok_def seg_fresh_def seg_fine_def)
qed

lemma seg_2_seg_loop_eq: "seg_2_seg_loop rc segs out = out @ map (stamp rc) segs"
  by (induction segs arbitrary: out) simp_all

lemma seg_2_seg_adv:
  assumes "sd_inv zs (cn_sender c)" and "rx_ok ys pisn (cn_receiver c)"
    and "list_all (seg_ok zs (sd_isn (cn_sender c)) pisn (rx_pos (cn_receiver c))) (cn_segments_out c)"
  shows "conn_inv zs ys pisn (seg_2_seg c)" and "sd_isn (cn_sender (seg_2_seg c)) = sd_isn (cn_sender c)"
    and "sd_una (cn_sender (seg_2_seg c)) = sd_una (cn_sender c)" and "cn_receiver (seg_2_seg c) = cn_receiver c"
proof -
  have "sd_inv zs ((cn_sender c)\<lparr>sd_segments_out := []\<rparr>)" by (rule sd_inv_cong[OF assms(1)]) simp_all
  moreover have "list_all (seg_ok zs (sd_isn (cn_sender c)) pisn (rx_pos (cn_receiver c)))
      (map (stamp (cn_receiver c)) (sd_segments_out (cn_sender c)))"
    using assms(1) stamp_ok[OF assms(2)] by (auto simp: sd_inv_def list_all_iff)
  ultimately show "conn_inv zs ys pisn (seg_2_seg c)"
    using assms(2,3) by (simp add: conn_inv_def seg_2_seg_def seg_2_seg_loop_eq)
qed (simp_all add: seg_2_seg_def sd_una_def)

lemma seg_ok_list_mono:
  "list_all (seg_ok zs isn pisn p) segs \<Longrightarrow> p \<le> q \<Longrightarrow> list_all (seg_ok zs isn pisn q) segs"
  by (auto simp: list_all_iff intro: seg_ok_mono)

text \<open>Replacing sender and receiver and then moving the segments to the queue.\<close>

lemma conn_replace:
  assumes inv: "conn_inv zs ys pisn c" and s: "sd_inv zs s" "sd_isn s = sd_isn (cn_sender c)"
    "sd_una s \<le> max (sd_una (cn_sender c)) Q"
    and r: "rx_ok ys pisn r" "rx_pos (cn_receiver c) \<le> rx_pos r"
    "sr_read (rc_reassembler r) = sr_read (rc_reassembler (cn_receiver c))"
    and out: "cn_segments_out d = cn_segments_out c" "cn_sender d = s" "cn_receiver d = r"
  shows "conn_adv zs ys pisn Q c (seg_2_seg d)"
proof -
  have q: "list_all (seg_ok zs (sd_isn (cn_sender d)) pisn (rx_pos (cn_receiver d))) (cn_segments_out d)"
    using inv s(2) r(2) out by (auto simp: conn_inv_def intro: seg_ok_list_mono)
  have s': "sd_inv zs (cn_sender d)" "rx_ok ys pisn (cn_receiver d)" using s(1) r(1) out by simp_all
  show ?thesis
    using seg_2_seg_adv[OF s' q] s(2,3) r(2,3) out by (simp add: conn_adv_def)
qed

section \<open>Every operation keeps it\<close>

lemma conn_fill:
  assumes inv: "conn_inv zs ys pisn c" and s: "sd_inv zs s" "sd_isn s = sd_isn (cn_sender c)"
    "sd_una s = sd_una (cn_sender c)"
  shows "\<exists>s'. TCPSender_fill_window s = Inr s' \<and> conn_adv zs ys pisn Q c (seg_2_seg (c\<lparr>cn_sender := s'\<rparr>))"
proof -
  obtain s' where f: "TCPSender_fill_window s = Inr s'" "sd_inv zs s'" "sd_isn s' = sd_isn s" "sd_una s' = sd_una s"
    using fill_window_una[OF s(1)] by blast
  have "conn_adv zs ys pisn Q c (seg_2_seg (c\<lparr>cn_sender := s'\<rparr>))"
    by (rule conn_replace[OF inv f(2)]) (use f s inv in \<open>simp_all add: conn_inv_def\<close>)
  with f(1) show ?thesis by blast
qed

lemma connect_adv:
  assumes "conn_inv zs ys pisn c"
  shows "\<exists>c'. TCPConnection_connect c = Inr c' \<and> conn_adv zs ys pisn Q c c'"
  using conn_fill[OF assms, of "cn_sender c" Q] assms by (auto simp: TCPConnection_connect_def conn_inv_def)

lemma write_adv:
  assumes "conn_inv zs ys pisn c"
  shows "\<exists>k c'. TCPConnection_write c (slice zs (sd_written (cn_sender c)) n) = Inr (k, c') \<and> conn_adv zs ys pisn Q c c'"
proof -
  let ?s = "sd_write zs n (cn_sender c)"
  have "sd_inv zs ?s" using assms sd_write_inv by (simp add: conn_inv_def)
  from conn_fill[OF assms this, of Q] show ?thesis
    by (auto simp: TCPConnection_write_def sd_write_def sd_una_def split: prod.splits)
qed

lemma end_input_adv:
  assumes "conn_inv zs ys pisn c" and "sd_written (cn_sender c) = length zs"
  shows "\<exists>c'. TCPConnection_end_input_stream c = Inr c' \<and> conn_adv zs ys pisn Q c c'"
proof -
  let ?s = "sd_end_input (cn_sender c)"
  have "sd_inv zs ?s" using assms sd_end_input_inv by (simp add: conn_inv_def)
  from conn_fill[OF assms(1) this, of Q] show ?thesis
    by (auto simp: TCPConnection_end_input_stream_def sd_end_input_def sd_una_def Let_def)
qed

lemma set_stream_errors_fields:
  "sd_inv zs (cn_sender (set_stream_errors d)) = sd_inv zs (cn_sender d)"
  "sd_isn (cn_sender (set_stream_errors d)) = sd_isn (cn_sender d)"
  "sd_una (cn_sender (set_stream_errors d)) = sd_una (cn_sender d)"
  "rx_ok ys pisn (cn_receiver (set_stream_errors d)) = rx_ok ys pisn (cn_receiver d)"
  "rx_pos (cn_receiver (set_stream_errors d)) = rx_pos (cn_receiver d)"
  "sr_read (rc_reassembler (cn_receiver (set_stream_errors d))) = sr_read (rc_reassembler (cn_receiver d))"
  "cn_segments_out (set_stream_errors d) = cn_segments_out d"
  by (simp_all add: set_stream_errors_def Let_def sd_inv_set_error sr_set_error rx_inv_def sd_una_def rx_pos_def
      TCPReceiver_stream_out_def ByteStream_input_ended_def)
   (simp_all add: ByteStream_set_error_def)

lemma set_stream_errors_adv:
  "conn_adv zs ys pisn Q c d \<Longrightarrow> conn_adv zs ys pisn Q c (set_stream_errors d)"
  unfolding conn_adv_def conn_inv_def set_stream_errors_fields by blast

lemma conn_adv_flags:
  assumes "conn_adv zs ys pisn Q c d" and "cn_sender e = cn_sender d" "cn_receiver e = cn_receiver d"
    "cn_segments_out e = cn_segments_out d"
  shows "conn_adv zs ys pisn Q c e"
  using assms by (auto simp: conn_adv_def conn_inv_def)

lemma conn_adv_refl: "conn_inv zs ys pisn c \<Longrightarrow> conn_adv zs ys pisn Q c c"
  by (simp add: conn_adv_def)

lemma send_empty_una:
  "sd_una (TCPSender_send_empty_segment s) = sd_una s" "sd_una (TCPSender_send_empty_segment_RST s) = sd_una s"
  "sd_isn (TCPSender_send_empty_segment s) = sd_isn s" "sd_isn (TCPSender_send_empty_segment_RST s) = sd_isn s"
  by (simp_all add: sd_una_def TCPSender_send_empty_segment_def TCPSender_send_empty_segment_RST_def Let_def)

lemma tick_una: "sd_una (TCPSender_tick s ms) = sd_una s" "sd_isn (TCPSender_tick s ms) = sd_isn s"
  by (auto simp: sd_una_def TCPSender_tick_def Let_def)

text \<open>Dropping what is queued and sending a reset.\<close>

lemma reset_adv:
  assumes inv: "conn_inv zs ys pisn c" and s: "sd_inv zs s" "sd_isn s = sd_isn (cn_sender c)" "sd_una s = sd_una (cn_sender c)"
    and d: "cn_sender d = TCPSender_send_empty_segment_RST s" "cn_receiver d = cn_receiver c"
    "cn_segments_out d = [] \<or> cn_segments_out d = cn_segments_out c"
  shows "conn_adv zs ys pisn Q c (set_stream_errors (seg_2_seg d))"
proof -
  have "conn_inv zs ys pisn (c\<lparr>cn_segments_out := cn_segments_out d\<rparr>)" using inv d(3) by (auto simp: conn_inv_def)
  from conn_replace[OF this, of "TCPSender_send_empty_segment_RST s" Q "cn_receiver c" d]
  have "conn_adv zs ys pisn Q (c\<lparr>cn_segments_out := cn_segments_out d\<rparr>) (seg_2_seg d)"
    using send_empty_inv(2)[OF s(1)] s(2,3) d(1,2) inv by (simp add: send_empty_una conn_inv_def)
  then have "conn_adv zs ys pisn Q c (seg_2_seg d)" by (simp add: conn_adv_def)
  then show ?thesis by (rule set_stream_errors_adv)
qed

lemma destroy_adv:
  assumes "conn_inv zs ys pisn c"
  shows "conn_adv zs ys pisn Q c (TCPConnection_destroy c)"
proof (cases "cn_active c")
  case True
  then show ?thesis
    using assms unfolding TCPConnection_destroy_def
    by (simp add: TCPConnection_active_def Let_def)
      (rule reset_adv[OF assms, where s = "cn_sender c"]; simp add: conn_inv_def)
next
  case False
  then show ?thesis using conn_adv_refl[OF assms] by (simp add: TCPConnection_destroy_def TCPConnection_active_def)
qed


lemma conn_tick_adv:
  assumes inv: "conn_inv zs ys pisn c"
  shows "conn_adv zs ys pisn Q c (TCPConnection_tick c ms)"
proof -
  define s where "s = TCPSender_tick (cn_sender c) ms"
  define d where "d = c\<lparr>cn_sender := s,
      cn_time_since_last_segment_received := cn_time_since_last_segment_received c + ms\<rparr>"
  have s: "sd_inv zs s" "sd_isn s = sd_isn (cn_sender c)" "sd_una s = sd_una (cn_sender c)"
    using inv tick_inv by (auto simp: s_def conn_inv_def tick_una)
  have rx: "rx_ok ys pisn (cn_receiver c)" using inv by (simp add: conn_inv_def)
  have d: "conn_adv zs ys pisn Q c d"
    using s inv by (auto simp: d_def conn_adv_def conn_inv_def)
  have moved: "conn_adv zs ys pisn Q c (seg_2_seg d)"
    by (rule conn_replace[OF inv s(1)]) (use s rx in \<open>simp_all add: d_def\<close>)
  have cleared: "sd_inv zs (s\<lparr>sd_segments_out := []\<rparr>)" by (rule sd_inv_cong[OF s(1)]) simp_all
  show ?thesis
  proof (cases "TCPState_eq (TCPConnection_state d) (TCPState_official TIME_WAIT)")
    case True
    then show ?thesis
      by (auto simp: TCPConnection_tick_def Let_def d_def[symmetric] s_def[symmetric]
          intro!: conn_adv_flags[OF d])
  next
    case ntw: False
    show ?thesis
    proof (cases "cn_active d \<and> MAX_RETX_ATTEMPTS < TCPSender_consecutive_retransmissions (cn_sender d)")
      case True
      define e where "e = d\<lparr>cn_active := False, cn_segments_out := [],
          cn_sender := TCPSender_send_empty_segment_RST (s\<lparr>sd_segments_out := []\<rparr>)\<rparr>"
      have "conn_adv zs ys pisn Q c (set_stream_errors (seg_2_seg e))"
        by (rule reset_adv[OF inv cleared]) (use s in \<open>simp_all add: e_def d_def sd_una_def\<close>)
      then have "conn_adv zs ys pisn Q c ((set_stream_errors (seg_2_seg e))\<lparr>cn_linger_after_streams_finish := False\<rparr>)"
        by (rule conn_adv_flags) simp_all
      moreover have "TCPConnection_tick c ms = (set_stream_errors (seg_2_seg e))\<lparr>cn_linger_after_streams_finish := False\<rparr>"
        using True ntw
        by (simp add: TCPConnection_tick_def Let_def d_def[symmetric] s_def[symmetric] del: TCPState_eq_iff)
          (simp add: e_def d_def)
      ultimately show ?thesis by simp
    next
      case False
      then show ?thesis
        using ntw
        by (auto simp: TCPConnection_tick_def Let_def d_def[symmetric] s_def[symmetric] simp del: TCPState_eq_iff
            intro!: conn_adv_flags[OF moved])
    qed
  qed
qed

lemma ack_step:
  assumes inv: "sd_inv zs s" and seg: "seg_ok ys pisn (sd_isn s) Q seg" and Q: "Q \<le> length zs + 2"
  shows "\<exists>s1. (if th_ack (seg_header seg)
      then andthen (TCPSender_ack_received s (th_ackno (seg_header seg)) (th_win (seg_header seg))) TCPSender_fill_window
      else Inr s) = Inr s1 \<and> sd_inv zs s1 \<and> sd_isn s1 = sd_isn s \<and> sd_una s1 \<le> max (sd_una s) Q"
proof (cases "th_ack (seg_header seg)")
  case True
  then obtain k where k: "0 < k" "k \<le> Q" "th_ackno (seg_header seg) = wrap (of_nat k) (sd_isn s)"
    using seg by (auto simp: seg_ok_def)
  obtain t where t: "TCPSender_ack_received s (wrap (of_nat k) (sd_isn s)) (th_win (seg_header seg)) = Inr t" "sd_inv zs t"
    "sd_isn t = sd_isn s" "sd_una t \<le> max (sd_una s) k"
    using ack_received_una[OF inv k(1)] k(2) Q by (meson le_trans)
  obtain s1 where "TCPSender_fill_window t = Inr s1" "sd_inv zs s1" "sd_isn s1 = sd_isn t" "sd_una s1 = sd_una t"
    using fill_window_una[OF t(2)] by blast
  then show ?thesis using True t k by auto
qed (use inv in simp)

text \<open>The end of \<open>segment_received\<close> when it neither drops the segment nor resets the connection.\<close>

lemma segment_received_normal:
  assumes "TCPConnection_segment_received c seg = Inr c'"
    and "\<not> (TCPSender_next_seqno_absolute (cn_sender c) = 0 \<and> th_ack (seg_header seg))" and "\<not> th_rst (seg_header seg)"
    and "0 < TCPSegment_length_in_sequence_space seg"
  shows "\<exists>d. c' = seg_2_seg d \<and> sd_segments_out (cn_sender d) \<noteq> [] \<and> cn_segments_out d = cn_segments_out c"
proof -
  define c0 where "c0 = c\<lparr>cn_time_since_last_segment_received := 0\<rparr>"
  have c0: "cn_sender c0 = cn_sender c" by (simp add: c0_def)
  define c1 where "c1 = (if th_fin (seg_header seg) \<and> (\<not> ByteStream_eof (sd_stream (cn_sender c)) \<or>
      TCPSender_next_seqno_absolute (cn_sender c) < ByteStream_bytes_written (sd_stream (cn_sender c)) + 2)
      then c0\<lparr>cn_linger_after_streams_finish := False\<rparr> else c0)"
  have c1: "cn_segments_out c1 = cn_segments_out c" by (simp add: c1_def c0_def)
  have ne: "sd_segments_out (TCPSender_send_empty_segment s) \<noteq> []" for s
    by (simp add: TCPSender_send_empty_segment_def)
  have "\<exists>r s. sd_segments_out s \<noteq> [] \<and> c' = seg_2_seg (c1\<lparr>cn_receiver := r, cn_sender := s\<rparr>)"
    using assms(1,4) unfolding TCPConnection_segment_received_def Let_def c0_def[symmetric]
    apply (simp only: c0 if_not_P[OF assms(2)] if_not_P[OF assms(3)] c1_def[symmetric] andthen_Inr_iff)
    using ne by (elim exE conjE) (auto split: option.splits if_splits)
  with c1 show ?thesis by auto
qed

text \<open>
  A segment that is neither dropped nor a reset goes to the receiver, its acknowledgment to the sender; what follows
  changes neither the receiver nor what the sender waits for.
\<close>

lemma conn_receive_normal:
  assumes inv: "conn_inv zs ys pisn c" and seg: "seg_ok ys pisn (sd_isn (cn_sender c)) Q seg" and Q: "Q \<le> length zs + 2"
    and normal: "\<not> (TCPSender_next_seqno_absolute (cn_sender c) = 0 \<and> th_ack (seg_header seg))" "\<not> th_rst (seg_header seg)"
  shows "\<exists>d s1 s2. TCPConnection_segment_received c seg = Inr (seg_2_seg d) \<and> cn_segments_out d = cn_segments_out c \<and>
    TCPReceiver_segment_received (cn_receiver c) seg = Inr (cn_receiver d) \<and>
    (if th_ack (seg_header seg)
     then andthen (TCPSender_ack_received (cn_sender c) (th_ackno (seg_header seg)) (th_win (seg_header seg))) TCPSender_fill_window
     else Inr (cn_sender c)) = Inr s1 \<and>
    sd_inv zs (cn_sender d) \<and> sd_isn (cn_sender d) = sd_isn s1 \<and> sd_una (cn_sender d) = sd_una s1 \<and>
    sd_inv zs s1 \<and> (s2 = s1 \<or> TCPSender_fill_window s1 = Inr s2) \<and>
    (cn_sender d = s2 \<or> cn_sender d = TCPSender_send_empty_segment s2) \<and>
    (0 < TCPSegment_length_in_sequence_space seg \<longrightarrow> sd_segments_out (cn_sender d) \<noteq> [])"
proof -
  let ?h = "seg_header seg" and ?s = "cn_sender c" and ?rc = "cn_receiver c"
  define c0 where "c0 = c\<lparr>cn_time_since_last_segment_received := 0\<rparr>"
  define c1 where "c1 = (if th_fin ?h \<and> (\<not> ByteStream_eof (sd_stream ?s) \<or>
      TCPSender_next_seqno_absolute ?s < ByteStream_bytes_written (sd_stream ?s) + 2)
      then c0\<lparr>cn_linger_after_streams_finish := False\<rparr> else c0)"
  have c0: "cn_sender c0 = ?s" by (simp add: c0_def)
  have c1: "cn_sender c1 = ?s" "cn_receiver c1 = ?rc" "cn_segments_out c1 = cn_segments_out c" by (simp_all add: c1_def c0_def)
  have sinv: "sd_inv zs ?s" and rx: "rx_ok ys pisn ?rc" using inv by (simp_all add: conn_inv_def)
  obtain r where r: "TCPReceiver_segment_received ?rc seg = Inr r"
    using segment_received_ok[OF rx] seg by (auto simp: seg_ok_def)
  obtain s1 where s1: "(if th_ack ?h then andthen (TCPSender_ack_received ?s (th_ackno ?h) (th_win ?h)) TCPSender_fill_window
      else Inr ?s) = Inr s1" "sd_inv zs s1"
    using ack_step[OF sinv seg Q] by blast
  obtain s2 where s2: "(if TCPSender_next_seqno_absolute s1 = 0 \<and> TCPReceiver_ackno r \<noteq> None
      then TCPSender_fill_window s1 else Inr s1) = Inr s2" "sd_inv zs s2" "sd_isn s2 = sd_isn s1" "sd_una s2 = sd_una s1"
    using fill_window_una[OF s1(2)] s1(2)
    by (cases "TCPSender_next_seqno_absolute s1 = 0 \<and> TCPReceiver_ackno r \<noteq> None")
      (simp_all only: if_True if_False simp_thms, blast+)
  define s3 where "s3 = (if 0 < TCPSegment_length_in_sequence_space seg \<and> sd_segments_out s2 = []
      then TCPSender_send_empty_segment s2 else s2)"
  define s4 where "s4 = (case TCPReceiver_ackno r of None \<Rightarrow> s3 | Some a \<Rightarrow>
      if TCPSegment_length_in_sequence_space seg = 0 \<and> th_seqno ?h = wrapping_minus a 1 \<and> sd_segments_out s3 = []
      then TCPSender_send_empty_segment s3 else s3)"
  have s3: "sd_inv zs s3" "sd_isn s3 = sd_isn s2" "sd_una s3 = sd_una s2"
    using s2(2) send_empty_inv(1) by (auto simp: s3_def send_empty_una)
  have s4: "sd_inv zs s4" "sd_isn s4 = sd_isn s3" "sd_una s4 = sd_una s3"
    using s3(1) send_empty_inv(1) by (auto simp: s4_def send_empty_una split: option.splits)
  have "TCPConnection_segment_received c seg = Inr (seg_2_seg (c1\<lparr>cn_receiver := r, cn_sender := s4\<rparr>))"
    unfolding TCPConnection_segment_received_def Let_def c0_def[symmetric]
    by (simp only: c0 if_not_P[OF normal(1)] if_not_P[OF normal(2)] c1_def[symmetric] c1 r s1(1) s2(1)
        andthen_simps s3_def[symmetric] s4_def[symmetric])
  moreover have "s2 = s1 \<or> TCPSender_fill_window s1 = Inr s2" using s2(1) by (simp split: if_splits)
  moreover have "s4 = s2 \<or> s4 = TCPSender_send_empty_segment s2"
    by (simp add: s4_def s3_def split: option.split)
  moreover have "sd_segments_out s4 \<noteq> []" if "0 < TCPSegment_length_in_sequence_space seg"
    using that by (simp add: s4_def s3_def TCPSender_send_empty_segment_def split: option.split)
  ultimately show ?thesis
    using r s1 s2(2-4) s3 s4 c1
    by (intro exI[of _ "c1\<lparr>cn_receiver := r, cn_sender := s4\<rparr>"] exI[of _ s1] exI[of _ s2]) simp
qed

lemma conn_receive_adv:
  assumes inv: "conn_inv zs ys pisn c" and seg: "seg_ok ys pisn (sd_isn (cn_sender c)) Q seg" and Q: "Q \<le> length zs + 2"
  shows "\<exists>c'. TCPConnection_segment_received c seg = Inr c' \<and> conn_adv zs ys pisn Q c c'"
proof -
  let ?h = "seg_header seg" and ?s = "cn_sender c" and ?rc = "cn_receiver c"
  define c0 where "c0 = c\<lparr>cn_time_since_last_segment_received := 0\<rparr>"
  have c0: "cn_sender c0 = ?s" by (simp add: c0_def)
  have keep: "conn_adv zs ys pisn Q c c0" using conn_adv_refl[OF inv] by (rule conn_adv_flags) (simp_all add: c0_def)
  consider (listen) "TCPSender_next_seqno_absolute ?s = 0 \<and> th_ack ?h"
    | (reset) "\<not> (TCPSender_next_seqno_absolute ?s = 0 \<and> th_ack ?h)" "th_rst ?h"
    | (normal) "\<not> (TCPSender_next_seqno_absolute ?s = 0 \<and> th_ack ?h)" "\<not> th_rst ?h" by blast
  then show ?thesis
  proof cases
    case listen
    then show ?thesis using keep by (simp add: TCPConnection_segment_received_def c0_def)
  next
    case reset
    then have "TCPConnection_segment_received c seg =
        Inr ((set_stream_errors c0)\<lparr>cn_active := False, cn_linger_after_streams_finish := False\<rparr>)"
      unfolding TCPConnection_segment_received_def Let_def c0_def[symmetric]
      using reset by (cases "th_ack ?h") (simp_all add: c0)
    moreover have "conn_adv zs ys pisn Q c ((set_stream_errors c0)\<lparr>cn_active := False, cn_linger_after_streams_finish := False\<rparr>)"
      using set_stream_errors_adv[OF keep] by (rule conn_adv_flags) simp_all
    ultimately show ?thesis by blast
  next
    case normal
    obtain d s1 where run: "TCPConnection_segment_received c seg = Inr (seg_2_seg d)" and d: "cn_segments_out d = cn_segments_out c"
      "TCPReceiver_segment_received ?rc seg = Inr (cn_receiver d)"
      "(if th_ack ?h then andthen (TCPSender_ack_received ?s (th_ackno ?h) (th_win ?h)) TCPSender_fill_window else Inr ?s) = Inr s1"
      "sd_inv zs (cn_sender d)" "sd_isn (cn_sender d) = sd_isn s1" "sd_una (cn_sender d) = sd_una s1"
      using conn_receive_normal[OF assms normal] by blast
    have sinv: "sd_inv zs ?s" and rx: "rx_ok ys pisn ?rc" using inv by (simp_all add: conn_inv_def)
    have r: "rx_ok ys pisn (cn_receiver d)" "rx_pos ?rc \<le> rx_pos (cn_receiver d)"
      "sr_read (rc_reassembler (cn_receiver d)) = sr_read (rc_reassembler ?rc)"
      using segment_received_ok[OF rx, of seg] seg d(2) by (auto simp: seg_ok_def)
    have s1: "sd_isn s1 = sd_isn ?s" "sd_una s1 \<le> max (sd_una ?s) Q" using ack_step[OF sinv seg Q] d(3) by auto
    have "conn_adv zs ys pisn Q c (seg_2_seg d)"
      by (rule conn_replace[OF inv d(4) _ _ r d(1)]) (use s1 d(5,6) in simp_all)
    with run show ?thesis by blast
  qed
qed

section \<open>Properties\<close>



text \<open>The states of a connection that is done.\<close>

lemma done_tick:
  assumes "sd_outstandings (cn_sender c) = []"
  shows "TCPSender_tick (cn_sender c) ms = cn_sender c"
  using assms by (simp add: TCPSender_tick_def)

lemma closed_tick:
  assumes st: "TCPConnection_state c = TCPState_official CLOSED" and out: "sd_outstandings (cn_sender c) = []"
  shows "TCPConnection_state (TCPConnection_tick c ms) = TCPState_official CLOSED"
    and "sd_outstandings (cn_sender (TCPConnection_tick c ms)) = []"
proof -
  define d where "d = c\<lparr>cn_time_since_last_segment_received := cn_time_since_last_segment_received c + ms\<rparr>"
  have d: "TCPConnection_state d = TCPState_official CLOSED" "sd_outstandings (cn_sender d) = []" "\<not> cn_active d"
    using st out by (simp_all add: d_def TCPConnection_state_def TCPState_new_def TCPConnection_active_def)
  have "c\<lparr>cn_sender := TCPSender_tick (cn_sender c) ms,
      cn_time_since_last_segment_received := cn_time_since_last_segment_received c + ms\<rparr> = d"
    by (simp add: done_tick[OF out] d_def)
  then have "\<exists>b. TCPConnection_tick c ms = (seg_2_seg d)\<lparr>cn_active := b\<rparr> \<and> \<not> b"
    using d(1,3)
    by (cases d) (auto simp: TCPConnection_tick_def Let_def official_inj seg_2_seg_def)
  then show "TCPConnection_state (TCPConnection_tick c ms) = TCPState_official CLOSED"
    "sd_outstandings (cn_sender (TCPConnection_tick c ms)) = []"
    using d by (auto simp: TCPConnection_state_def TCPState_new_def TCPConnection_active_def seg_2_seg_def
        TCPState_summary_sender_def TCPSender_next_seqno_absolute_def TCPSender_bytes_in_flight_def)
qed

lemma closed_ticks:
  assumes "TCPConnection_state c = TCPState_official CLOSED" and "sd_outstandings (cn_sender c) = []"
  shows "TCPConnection_state (foldl TCPConnection_tick c ts) = TCPState_official CLOSED"
  using assms by (induction ts arbitrary: c) (simp_all add: closed_tick)

lemma time_wait_ticks:
  assumes "TCPConnection_state c = TCPState_official TIME_WAIT" and "sd_outstandings (cn_sender c) = []"
    and "unat (cn_since_time_wait c) + sum_list (map unat ts) < 2 ^ 64"
  shows "TCPConnection_state (foldl TCPConnection_tick c ts) = TCPState_official
    (if ts \<noteq> [] \<and> 10 * unat (cfg_rt_timeout (cn_cfg c)) \<le> unat (cn_since_time_wait c) + sum_list (map unat ts)
     then CLOSED else TIME_WAIT)"
  using assms
proof (induction ts arbitrary: c)
  case Nil
  then show ?case by simp
next
  case (Cons t ts)
  note st = Cons.prems(1) and out = Cons.prems(2)
  let ?lim = "10 * unat (cfg_rt_timeout (cn_cfg c))"
  define d where "d = c\<lparr>cn_time_since_last_segment_received := cn_time_since_last_segment_received c + t,
      cn_since_time_wait := cn_since_time_wait c + t\<rparr>"
  have dst: "TCPConnection_state (c\<lparr>cn_time_since_last_segment_received := x\<rparr>) = TCPState_official TIME_WAIT" for x
    using st by (simp add: TCPConnection_state_def TCPConnection_active_def)
  have sum: "unat (cn_since_time_wait d) = unat (cn_since_time_wait c) + unat t"
    using Cons.prems(3) by (simp add: d_def unat_add_u64)
  have lim: "unat (10 * ucast (cfg_rt_timeout (cn_cfg c)) :: u64) = ?lim"
    using unat_u16_less[of "cfg_rt_timeout (cn_cfg c)"] by (simp add: unat_word_ariths)
  have tick: "TCPConnection_tick c t = (if ?lim \<le> unat (cn_since_time_wait d)
      then d\<lparr>cn_linger_after_streams_finish := False, cn_active := False\<rparr> else d)"
    using dst by (simp add: TCPConnection_tick_def Let_def done_tick[OF out] d_def word_le_nat_alt lim)
  have obs: "TCPConnection_state d = TCPState_official TIME_WAIT"
    "TCPConnection_state (d\<lparr>cn_linger_after_streams_finish := False, cn_active := False\<rparr>) = TCPState_official CLOSED"
    "sd_outstandings (cn_sender d) = []" "cn_cfg d = cn_cfg c"
    using st out by (simp_all add: d_def TCPConnection_state_def TCPState_new_def TCPConnection_active_def)
  show ?case
  proof (cases "?lim \<le> unat (cn_since_time_wait d)")
    case True
    then show ?thesis
      using closed_ticks[OF obs(2)] obs(3) tick sum by simp
  next
    case False
    have "unat (cn_since_time_wait d) + sum_list (map unat ts) < 2 ^ 64" using Cons.prems(3) sum by simp
    from Cons.IH[OF obs(1,3) this] False tick sum obs(4) show ?thesis by (cases ts) (simp_all add: add.assoc)
  qed
qed


text \<open>A connection in TIME_WAIT.\<close>

definition waiting :: TCPConnection where
  "waiting = (let c = TCPConnection_new TCPConfig_default 5
     in c\<lparr>cn_sender := (cn_sender c)\<lparr>sd_next_seqno := 2, sd_stream := ByteStream_end_input (ByteStream_new 10)\<rparr>,
          cn_receiver := (TCPReceiver_new 10)\<lparr>rc_syned := True,
            rc_reassembler := (StreamReassembler_new 10)\<lparr>sr_output := ByteStream_end_input (ByteStream_new 10)\<rparr>\<rparr>\<rparr>)"




text \<open>The window is cut to 16 bits when it is put into the header: a receiver with room for 65536 bytes
answers the peer's SYN with a window of zero.\<close>

theorem window_truncated:
  "(let c = TCPConnection_new (TCPConfig_default\<lparr>cfg_recv_capacity := 65536\<rparr>) 5;
        syn = TCPSegment_new\<lparr>seg_header := TCPHeader_new\<lparr>th_syn := True, th_seqno := WrappingInt32 40\<rparr>\<rparr>
    in map_sum id (\<lambda>c'. (TCPReceiver_window_size (cn_receiver c'), map (\<lambda>m. th_win (seg_header m)) (cn_segments_out c')))
         (TCPConnection_segment_received c syn) = Inr (65536, [0]))"
  by code_simp

end
