(* ===== verification/Tcp_End_To_End.thy ===== *)
theory Tcp_End_To_End
  imports Connection_Correct
begin

text \<open>
  Two endpoints and a network between them that may lose, repeat, delay and reorder segments at
  will: everything an endpoint has ever handed to the network may arrive at the other at any time,
  any number of times. What an endpoint must promise for this to work is the locale
  \<open>acked_transport\<close>; \<open>TCPConnection\<close> is shown to promise it.
\<close>

section \<open>Two parties and a network\<close>

inductive duplex_step ::
  "('z \<Rightarrow> 'm set \<Rightarrow> 'e \<Rightarrow> 'e \<Rightarrow> bool) \<Rightarrow> ('e \<Rightarrow> 'm set) \<Rightarrow> 'z \<Rightarrow> 'z \<Rightarrow> 'e \<times> 'e \<Rightarrow> 'e \<times> 'e \<Rightarrow> bool"
  for step sent xs ys where
  left: "step xs (sent r) l l' \<Longrightarrow> duplex_step step sent xs ys (l, r) (l', r)"
| right: "step ys (sent l) r r' \<Longrightarrow> duplex_step step sent xs ys (l, r) (l, r')"

inductive duplex_reach ::
  "('z \<Rightarrow> 'm set \<Rightarrow> 'e \<Rightarrow> 'e \<Rightarrow> bool) \<Rightarrow> ('e \<Rightarrow> 'm set) \<Rightarrow> 'z \<Rightarrow> 'z \<Rightarrow> 'e \<times> 'e \<Rightarrow> 'e \<times> 'e \<Rightarrow> bool"
  for step sent xs ys p where
  start: "duplex_reach step sent xs ys p p"
| move: "duplex_reach step sent xs ys p q \<Longrightarrow> duplex_step step sent xs ys q q' \<Longrightarrow> duplex_reach step sent xs ys p q'"

lemma reach_left:
  assumes "(step xs (sent r))\<^sup>*\<^sup>* l l'" and "duplex_reach step sent xs ys p (l, r)"
  shows "duplex_reach step sent xs ys p (l', r)"
  using assms by (induction rule: rtranclp_induct) (blast intro: duplex_reach.move duplex_step.left)+

lemma reach_right:
  assumes "(step ys (sent l))\<^sup>*\<^sup>* r r'" and "duplex_reach step sent xs ys p (l, r)"
  shows "duplex_reach step sent xs ys p (l, r')"
  using assms by (induction rule: rtranclp_induct) (blast intro: duplex_reach.move duplex_step.right)+

text \<open>
  \<open>una\<close> is the first position of a party's own stream it does not know to have arrived, \<open>pos\<close> how far
  it has received its peer's. A party that is told nothing but the truth about its peer's position
  never believes more than that, and only tells the truth itself.
\<close>

locale acked_transport =
  fixes step :: "'z \<Rightarrow> 'm set \<Rightarrow> 'e \<Rightarrow> 'e \<Rightarrow> bool"
    and sent :: "'e \<Rightarrow> 'm set"
    and inv :: "'z \<Rightarrow> 'z \<Rightarrow> 'i \<Rightarrow> 'e \<Rightarrow> bool"
    and ident :: "'e \<Rightarrow> 'i"
    and una :: "'e \<Rightarrow> nat"
    and pos :: "'e \<Rightarrow> nat"
    and okay :: "'z \<Rightarrow> 'i \<Rightarrow> 'i \<Rightarrow> nat \<Rightarrow> 'm \<Rightarrow> bool"
    and limit :: "'z \<Rightarrow> nat"
  assumes step_ok: "inv zs ys i e \<Longrightarrow> (\<And>m. m \<in> inc \<Longrightarrow> okay ys i (ident e) Q m) \<Longrightarrow> una e \<le> Q \<Longrightarrow> Q \<le> limit zs \<Longrightarrow>
      step zs inc e e' \<Longrightarrow> inv zs ys i e' \<and> una e' \<le> Q \<and> ident e' = ident e \<and> pos e \<le> pos e'"
    and sent_ok: "inv zs ys i e \<Longrightarrow> m \<in> sent e \<Longrightarrow> okay zs (ident e) i (pos e) m"
    and pos_limit: "inv zs ys i e \<Longrightarrow> pos e \<le> limit ys"
begin

definition both :: "'z \<Rightarrow> 'z \<Rightarrow> 'e \<times> 'e \<Rightarrow> bool" where
  "both xs ys = (\<lambda>(l, r). inv xs ys (ident r) l \<and> inv ys xs (ident l) r \<and> una l \<le> pos r \<and> una r \<le> pos l)"

lemma both_step:
  assumes "both xs ys p" and "duplex_step step sent xs ys p q"
  shows "both xs ys q"
proof -
  obtain l r where p: "p = (l, r)" by (cases p)
  note B = assms(1)[unfolded both_def p prod.case]
  from assms(2)[unfolded p] show ?thesis
  proof cases
    case (left l')
    have "inv xs ys (ident r) l' \<and> una l' \<le> pos r \<and> ident l' = ident l \<and> pos l \<le> pos l'"
      by (rule step_ok[OF _ _ _ _ left(2)]) (use B sent_ok pos_limit in auto)
    with B left(1) show ?thesis by (auto simp: both_def)
  next
    case (right r')
    have "inv ys xs (ident l) r' \<and> una r' \<le> pos l \<and> ident r' = ident r \<and> pos r \<le> pos r'"
      by (rule step_ok[OF _ _ _ _ right(2)]) (use B sent_ok pos_limit in auto)
    with B right(1) show ?thesis by (auto simp: both_def)
  qed
qed

lemma both_reach:
  assumes "duplex_reach step sent xs ys p q" and "both xs ys p"
  shows "both xs ys q"
  using assms by induction (auto intro: both_step)

end

section \<open>A TCP endpoint\<close>

text \<open>A connection, the segments it has handed to the network, and what its application has read.\<close>

record endpoint =
  ep_conn :: TCPConnection
  ep_sent :: "TCPSegment set"
  ep_got :: bytes

definition ep_new :: "TCPConfig \<Rightarrow> u32 \<Rightarrow> endpoint" where
  "ep_new cfg random = \<lparr>ep_conn = TCPConnection_new cfg random, ep_sent = {}, ep_got = []\<rparr>"

text \<open>
  What is below TCP fills in ports and checksum, so a segment may arrive with others than it was handed over with.
\<close>

definition alike :: "TCPSegment \<Rightarrow> TCPSegment \<Rightarrow> bool" where
  "alike m seg \<longleftrightarrow> seg_payload m = seg_payload seg \<and>
     (seg_header m)\<lparr>th_sport := 0, th_dport := 0, th_cksum := 0\<rparr> = (seg_header seg)\<lparr>th_sport := 0, th_dport := 0, th_cksum := 0\<rparr>"

lemma alike_refl [simp]: "alike m m"
  by (simp add: alike_def)

lemma alike_fields:
  assumes "alike m seg"
  shows "seg_payload seg = seg_payload m" and "th_seqno (seg_header seg) = th_seqno (seg_header m)"
    and "th_syn (seg_header seg) = th_syn (seg_header m)" and "th_fin (seg_header seg) = th_fin (seg_header m)"
    and "th_ack (seg_header seg) = th_ack (seg_header m)" and "th_ackno (seg_header seg) = th_ackno (seg_header m)"
proof -
  have p: "seg_payload m = seg_payload seg"
    and h: "(seg_header m)\<lparr>th_sport := 0, th_dport := 0, th_cksum := 0\<rparr> = (seg_header seg)\<lparr>th_sport := 0, th_dport := 0, th_cksum := 0\<rparr>"
    using assms by (simp_all add: alike_def)
  show "seg_payload seg = seg_payload m" "th_seqno (seg_header seg) = th_seqno (seg_header m)"
    "th_syn (seg_header seg) = th_syn (seg_header m)" "th_fin (seg_header seg) = th_fin (seg_header m)"
    "th_ack (seg_header seg) = th_ack (seg_header m)" "th_ackno (seg_header seg) = th_ackno (seg_header m)"
    using p arg_cong[OF h, of th_seqno] arg_cong[OF h, of th_syn] arg_cong[OF h, of th_fin] arg_cong[OF h, of th_ack]
      arg_cong[OF h, of th_ackno] by simp_all
qed

lemma alike_ok: "alike m seg \<Longrightarrow> seg_ok zs isn pisn pos m \<Longrightarrow> seg_ok zs isn pisn pos seg"
  by (simp add: seg_ok_def seg_fine_def alike_fields)

text \<open>
  The application writes the stream \<open>zs\<close> in pieces of any size and closes it after the last one, it
  reads whenever it likes and may drop the connection; the owner passes time, takes segments from
  the queue and hands in segments from the network.
\<close>

inductive ep_step :: "bytes \<Rightarrow> TCPSegment set \<Rightarrow> endpoint \<Rightarrow> endpoint \<Rightarrow> bool" for zs inc where
  ep_connect: "TCPConnection_connect (ep_conn e) = Inr c \<Longrightarrow> ep_step zs inc e (e\<lparr>ep_conn := c\<rparr>)"
| ep_write: "TCPConnection_write (ep_conn e) (slice zs (sd_written (cn_sender (ep_conn e))) n) = Inr (k, c) \<Longrightarrow>
    ep_step zs inc e (e\<lparr>ep_conn := c\<rparr>)"
| ep_close: "sd_written (cn_sender (ep_conn e)) = length zs \<Longrightarrow> TCPConnection_end_input_stream (ep_conn e) = Inr c \<Longrightarrow>
    ep_step zs inc e (e\<lparr>ep_conn := c\<rparr>)"
| ep_tick: "ep_step zs inc e (e\<lparr>ep_conn := TCPConnection_tick (ep_conn e) ms\<rparr>)"
| ep_drop: "ep_step zs inc e (e\<lparr>ep_conn := TCPConnection_destroy (ep_conn e)\<rparr>)"
| ep_receive: "m \<in> inc \<Longrightarrow> alike m seg \<Longrightarrow> TCPConnection_segment_received (ep_conn e) seg = Inr c \<Longrightarrow>
    ep_step zs inc e (e\<lparr>ep_conn := c\<rparr>)"
| ep_transmit: "cn_segments_out (ep_conn e) = seg # segs \<Longrightarrow>
    ep_step zs inc e (e\<lparr>ep_conn := (ep_conn e)\<lparr>cn_segments_out := segs\<rparr>, ep_sent := insert seg (ep_sent e)\<rparr>)"
| ep_read: "rx_read (cn_receiver (ep_conn e)) n = Inr (d, rc) \<Longrightarrow>
    ep_step zs inc e (e\<lparr>ep_conn := (ep_conn e)\<lparr>cn_receiver := rc\<rparr>, ep_got := ep_got e @ d\<rparr>)"

abbreviation ep_isn :: "endpoint \<Rightarrow> WrappingInt32" where
  "ep_isn e \<equiv> sd_isn (cn_sender (ep_conn e))"

abbreviation ep_una :: "endpoint \<Rightarrow> nat" where
  "ep_una e \<equiv> sd_una (cn_sender (ep_conn e))"

abbreviation ep_pos :: "endpoint \<Rightarrow> nat" where
  "ep_pos e \<equiv> rx_pos (cn_receiver (ep_conn e))"

abbreviation ep_reassembler :: "endpoint \<Rightarrow> StreamReassembler" where
  "ep_reassembler e \<equiv> rc_reassembler (cn_receiver (ep_conn e))"

definition ep_inv :: "bytes \<Rightarrow> bytes \<Rightarrow> WrappingInt32 \<Rightarrow> endpoint \<Rightarrow> bool" where
  "ep_inv zs ys pisn e \<longleftrightarrow> conn_inv zs ys pisn (ep_conn e) \<and>
     (\<forall>seg\<in>ep_sent e. seg_ok zs (ep_isn e) pisn (ep_pos e) seg) \<and> ep_got e = take (sr_read (ep_reassembler e)) ys"

lemma ep_adv:
  assumes inv: "ep_inv zs ys pisn e" and adv: "conn_adv zs ys pisn Q (ep_conn e) c" and Q: "ep_una e \<le> Q"
  shows "ep_inv zs ys pisn (e\<lparr>ep_conn := c\<rparr>) \<and> sd_una (cn_sender c) \<le> Q \<and>
    sd_isn (cn_sender c) = ep_isn e \<and> ep_pos e \<le> rx_pos (cn_receiver c)"
  using assms by (auto simp: ep_inv_def conn_adv_def intro: seg_ok_mono)

lemma ep_step_ok:
  assumes inv: "ep_inv zs ys pisn e" and inc: "\<And>m. m \<in> inc \<Longrightarrow> seg_ok ys pisn (ep_isn e) Q m"
    and una: "ep_una e \<le> Q" and Q: "Q \<le> length zs + 2" and step: "ep_step zs inc e e'"
  shows "ep_inv zs ys pisn e' \<and> ep_una e' \<le> Q \<and> ep_isn e' = ep_isn e \<and> ep_pos e \<le> ep_pos e'"
proof -
  have cinv: "conn_inv zs ys pisn (ep_conn e)" using inv by (simp add: ep_inv_def)
  note adv = ep_adv[OF inv _ una]
  from step show ?thesis
  proof cases
    case (ep_connect c)
    then show ?thesis using connect_adv[OF cinv, of Q] adv by auto
  next
    case (ep_write n k c)
    then show ?thesis using write_adv[OF cinv, of n Q] adv by auto
  next
    case (ep_close c)
    then show ?thesis using end_input_adv[OF cinv, of Q] adv by auto
  next
    case (ep_tick ms)
    then show ?thesis using conn_tick_adv[OF cinv, of Q ms] adv by auto
  next
    case ep_drop
    then show ?thesis using destroy_adv[OF cinv, of Q] adv by auto
  next
    case (ep_receive m seg c)
    then show ?thesis using conn_receive_adv[OF cinv alike_ok[OF ep_receive(3) inc[OF ep_receive(2)]] Q] adv by auto
  next
    case (ep_transmit seg segs)
    then show ?thesis using inv una by (auto simp: ep_inv_def conn_inv_def)
  next
    case (ep_read n d rc)
    have "rx_ok ys pisn (cn_receiver (ep_conn e))" using cinv by (simp add: conn_inv_def)
    from rx_read_ok[OF this, of n] ep_read(2) have "rx_ok ys pisn rc" "rx_pos rc = ep_pos e"
      "take (sr_read (ep_reassembler e)) ys @ d = take (sr_read (rc_reassembler rc)) ys" by auto
    then show ?thesis using inv una ep_read(1) by (simp add: ep_inv_def conn_inv_def)
  qed
qed

interpretation tcp: acked_transport ep_step ep_sent ep_inv ep_isn ep_una ep_pos seg_ok "\<lambda>zs. length zs + 2"
proof
  fix zs ys i e m
  assume "ep_inv zs ys i e"
  then show "ep_pos e \<le> length ys + 2" "m \<in> ep_sent e \<Longrightarrow> seg_ok zs (ep_isn e) i (ep_pos e) m"
    by (auto simp: ep_inv_def conn_inv_def dest: rx_pos_le)
qed (rule ep_step_ok)

lemma ep_new_inv:
  assumes "length zs + 2 < 2 ^ 31" and "unat (cfg_send_capacity cfg) < 2 ^ 31"
    and "length ys + unat (cfg_recv_capacity cfg) + 1 < 2 ^ 31"
  shows "ep_inv zs ys pisn (ep_new cfg rnd)" and "ep_una (ep_new cfg rnd) = 0"
proof -
  have rx: "rx_inv ys pisn (cfg_recv_capacity cfg) (TCPReceiver_new (cfg_recv_capacity cfg))"
    by (rule rx_new_inv(1)) (rule assms(3))
  have "sr_capacity (rc_reassembler (TCPReceiver_new (cfg_recv_capacity cfg))) = cfg_recv_capacity cfg"
    using rx by (simp add: rx_inv_def)
  moreover have "sr_read (rc_reassembler (TCPReceiver_new (cfg_recv_capacity cfg))) = 0"
    by (simp add: sr_read_def TCPReceiver_new_def StreamReassembler_new_def ByteStream_new_def)
  ultimately show "ep_inv zs ys pisn (ep_new cfg rnd)"
    using sender_new_inv[OF assms(1,2)] rx
    by (simp add: ep_inv_def conn_inv_def ep_new_def TCPConnection_new_def)
qed (simp add: ep_new_def TCPConnection_new_def sd_una_def TCPSender_new_def)

text \<open>Two new endpoints whose configurations and streams stay below \<open>2^31\<close>.\<close>

definition sized :: "bytes \<Rightarrow> bytes \<Rightarrow> TCPConfig \<Rightarrow> bool" where
  "sized zs ys cfg \<longleftrightarrow> length zs + 2 < 2 ^ 31 \<and> unat (cfg_send_capacity cfg) < 2 ^ 31 \<and>
     length ys + unat (cfg_recv_capacity cfg) + 1 < 2 ^ 31"

lemma duplex_both:
  assumes "sized xs ys cl" and "sized ys xs cr"
    and "duplex_reach ep_step ep_sent xs ys (ep_new cl u, ep_new cr v) q"
  shows "tcp.both xs ys q"
  by (rule tcp.both_reach[OF assms(3)])
    (use assms(1,2) ep_new_inv in \<open>auto simp: tcp.both_def sized_def\<close>)


section \<open>Executions\<close>

text \<open>A schedule that can be run: the flag says whether the left endpoint acts.\<close>

datatype action = Connect bool | Write bool nat | Close bool | Pass bool

definition pass_front :: "endpoint \<Rightarrow> endpoint \<Rightarrow> (endpoint \<times> endpoint) result" where
  "pass_front e f =
     (case cn_segments_out (ep_conn e) of
        [] \<Rightarrow> Inr (e, f)
      | seg # segs \<Rightarrow> andthen (TCPConnection_segment_received (ep_conn f) seg) (\<lambda>c.
          Inr (e\<lparr>ep_conn := (ep_conn e)\<lparr>cn_segments_out := segs\<rparr>, ep_sent := insert seg (ep_sent e)\<rparr>,
               f\<lparr>ep_conn := c\<rparr>)))"

fun local_act :: "bytes \<Rightarrow> endpoint \<Rightarrow> action \<Rightarrow> endpoint result" where
  "local_act zs e (Connect b) = andthen (TCPConnection_connect (ep_conn e)) (\<lambda>c. Inr (e\<lparr>ep_conn := c\<rparr>))"
| "local_act zs e (Write b n) =
     andthen (TCPConnection_write (ep_conn e) (slice zs (sd_written (cn_sender (ep_conn e))) n)) (\<lambda>(k, c). Inr (e\<lparr>ep_conn := c\<rparr>))"
| "local_act zs e (Close b) =
     (if sd_written (cn_sender (ep_conn e)) = length zs
      then andthen (TCPConnection_end_input_stream (ep_conn e)) (\<lambda>c. Inr (e\<lparr>ep_conn := c\<rparr>)) else Inr e)"
| "local_act zs e (Pass b) = Inr e"

fun is_left :: "action \<Rightarrow> bool" where
  "is_left (Connect b) = b" | "is_left (Write b n) = b" | "is_left (Close b) = b" | "is_left (Pass b) = b"

definition do_act :: "bytes \<Rightarrow> bytes \<Rightarrow> endpoint \<times> endpoint \<Rightarrow> action \<Rightarrow> (endpoint \<times> endpoint) result" where
  "do_act xs ys = (\<lambda>(l, r) a.
     if a = Pass True then pass_front l r
     else if a = Pass False then andthen (pass_front r l) (\<lambda>(r', l'). Inr (l', r'))
     else if is_left a then andthen (local_act xs l a) (\<lambda>l'. Inr (l', r))
     else andthen (local_act ys r a) (\<lambda>r'. Inr (l, r')))"

primrec do_acts :: "bytes \<Rightarrow> bytes \<Rightarrow> endpoint \<times> endpoint \<Rightarrow> action list \<Rightarrow> (endpoint \<times> endpoint) result" where
  "do_acts xs ys p [] = Inr p"
| "do_acts xs ys p (a # as) = andthen (do_act xs ys p a) (\<lambda>q. do_acts xs ys q as)"


lemma local_act_step:
  assumes "local_act zs e a = Inr e'"
  shows "e' = e \<or> ep_step zs inc e e'"
  using assms
  by (cases a) (auto simp: andthen_Inr_iff split: if_splits prod.splits intro: ep_step.intros)

lemma pass_front_steps:
  assumes "pass_front e f = Inr (e', f')"
  shows "e' = e \<and> f' = f \<or> ep_step zs inc e e' \<and> (\<forall>ys. ep_step ys (ep_sent e') f f')"
  using assms
  by (auto simp: pass_front_def andthen_Inr_iff split: list.splits intro: ep_transmit intro!: ep_receive[OF _ alike_refl])

lemma do_act_reach:
  assumes "duplex_reach ep_step ep_sent xs ys p q" and "do_act xs ys q a = Inr q'"
  shows "duplex_reach ep_step ep_sent xs ys p q'"
proof -
  obtain l r where q: "q = (l, r)" by (cases q)
  obtain l' r' where q': "q' = (l', r')" by (cases q')
  consider (pl) "pass_front l r = Inr (l', r')" | (pr) "pass_front r l = Inr (r', l')"
    | (al) "local_act xs l a = Inr l'" "r' = r" | (ar) "local_act ys r a = Inr r'" "l' = l"
    using assms(2) by (auto simp: do_act_def q q' andthen_Inr_iff split: if_splits)
  then show ?thesis
  proof cases
    case pl
    then show ?thesis using pass_front_steps[OF pl, of xs "ep_sent r"] assms(1) q q'
      by (metis duplex_reach.move duplex_step.left duplex_step.right)
  next
    case pr
    then show ?thesis using pass_front_steps[OF pr, of ys "ep_sent l"] assms(1) q q'
      by (metis duplex_reach.move duplex_step.left duplex_step.right)
  next
    case al
    then show ?thesis using local_act_step[OF al(1), of "ep_sent r"] assms(1) q q'
      by (metis duplex_reach.move duplex_step.left duplex_step.right)
  next
    case ar
    then show ?thesis using local_act_step[OF ar(1), of "ep_sent l"] assms(1) q q'
      by (metis duplex_reach.move duplex_step.left duplex_step.right)
  qed
qed

lemma do_acts_reach:
  "do_acts xs ys q as = Inr q' \<Longrightarrow> duplex_reach ep_step ep_sent xs ys p q \<Longrightarrow> duplex_reach ep_step ep_sent xs ys p q'"
  by (induction as arbitrary: q) (auto simp: andthen_Inr_iff intro: do_act_reach)

section \<open>Properties\<close>

text \<open>A sender whose stream is finished and fully acknowledged waits for nothing.\<close>

lemma fin_acked_una:
  assumes inv: "sd_inv zs s" and fin: "TCPState_summary_sender s = TCPSenderStateSummary_FIN_ACKED"
  shows "length zs + 2 \<le> sd_una s"
proof -
  have st: "sd_stream_inv zs (sd_stream s)" using inv by (simp add: sd_inv_def)
  have W: "sd_written s < 2 ^ 31" using st by (simp add: sd_stream_inv_def)
  have eof: "ByteStream_eof (sd_stream s)" and le: "ByteStream_bytes_written (sd_stream s) + 2 \<le> sd_next_seqno s"
    and idle: "sd_in_flights s = 0" using fin by (simp_all add: summary_FIN_ACKED)
  have "ByteStream_bytes_written (sd_stream s) + 2 = of_nat (sd_written s + 2)"
    by (simp only: stream_inv_facts(6)[OF st] of_nat_add of_nat_numeral)
  moreover have "unat (of_nat (sd_written s + 2) :: u64) = sd_written s + 2"
    using W by (intro unat_of_nat_u64) simp
  ultimately have "sd_written s + 2 \<le> sd_next s" using le by (simp only: word_le_nat_alt)
  moreover have "sd_written s = length zs" using eof st by (simp add: stream_inv_facts(5)[OF st] sd_stream_inv_def)
  ultimately show ?thesis using idle by (simp add: sd_una_def)
qed

lemma ep_delivered:
  assumes "ep_inv zs ys pisn e"
  defines "w \<equiv> prefix_len (sr_known (ep_reassembler e))"
  shows "ep_got e @ bs_buffer (TCPConnection_inbound_stream (ep_conn e)) = take w ys" and "w \<le> length ys"
    and "ByteStream_input_ended (TCPConnection_inbound_stream (ep_conn e)) \<Longrightarrow> w = length ys"
proof -
  have sinv: "sr_inv ys (ep_reassembler e)" and got: "ep_got e = take (sr_read (ep_reassembler e)) ys"
    using assms by (auto simp: ep_inv_def conn_inv_def rx_inv_def)
  note O = sr_observe[OF sinv]
  show "ep_got e @ bs_buffer (TCPConnection_inbound_stream (ep_conn e)) = take w ys"
    using O(1,3) got slice_join[of 0 "sr_read (ep_reassembler e)" w ys]
    by (simp add: w_def TCPConnection_inbound_stream_def TCPReceiver_stream_out_def)
  show "w \<le> length ys" "ByteStream_input_ended (TCPConnection_inbound_stream (ep_conn e)) \<Longrightarrow> w = length ys"
    using O(2,6) by (auto simp: w_def TCPConnection_inbound_stream_def TCPReceiver_stream_out_def)
qed

text \<open>A configuration for the concrete executions.\<close>

definition small_cfg :: "u32 \<Rightarrow> TCPConfig" where
  "small_cfg i = \<lparr>cfg_rt_timeout = 1000, cfg_recv_capacity = 100, cfg_send_capacity = 100, cfg_fixed_isn = Some (WrappingInt32 i)\<rparr>"

text \<open>The handshake, two bytes from left to right, and the left endpoint's FIN with its acknowledgment.\<close>

definition transfer :: "action list" where
  "transfer = [Connect True, Pass True, Pass False, Write True 2, Close True, Pass True, Pass True, Pass True, Pass False, Pass False]"

lemma transfer_runs:
  "case do_acts [1, 2] [3] (ep_new (small_cfg 7) 0, ep_new (small_cfg 9) 0) transfer of
     Inl e \<Rightarrow> False
   | Inr (l, r) \<Rightarrow> TCPState_summary_sender (cn_sender (ep_conn l)) = TCPSenderStateSummary_FIN_ACKED"
  by code_simp


abbreviation "transfer_start \<equiv> (ep_new (small_cfg 7) 0, ep_new (small_cfg 9) 0)"

lemma transfer_reach:
  "\<exists>l r. duplex_reach ep_step ep_sent [1, 2] [3] transfer_start (l, r) \<and>
     TCPState_summary_sender (cn_sender (ep_conn l)) = TCPSenderStateSummary_FIN_ACKED"
proof (cases "do_acts [1, 2] [3] transfer_start transfer")
  case (Inl e)
  then show ?thesis using transfer_runs by simp
next
  case (Inr q)
  obtain l r where q: "q = (l, r)" by (cases q)
  show ?thesis
    using do_acts_reach[OF Inr duplex_reach.start] transfer_runs unfolding Inr q by auto
qed

lemma transfer_sized: "sized [1, 2] [3] (small_cfg 7)" "sized [3] [1, 2] (small_cfg 9)"
  by (simp_all add: sized_def small_cfg_def)

text \<open>C1: Delivery in order, end to end, in both directions. However the two endpoints are driven and whatever
the network does to the segments between them -- losing, repeating, delaying, reordering -- what an
application has read, followed by what is ready for it, is at every moment a prefix of what the other
application writes; and when an endpoint says that the inbound stream has ended, it is all of it.\<close>

theorem duplex_delivers:
  assumes "sized xs ys cl" and "sized ys xs cr"
    and "duplex_reach ep_step ep_sent xs ys (ep_new cl u, ep_new cr v) (l, r)"
  shows "(\<exists>w\<le>length xs. ep_got r @ bs_buffer (TCPConnection_inbound_stream (ep_conn r)) = take w xs \<and>
      (ByteStream_input_ended (TCPConnection_inbound_stream (ep_conn r)) \<longrightarrow> w = length xs)) \<and>
    (\<exists>w\<le>length ys. ep_got l @ bs_buffer (TCPConnection_inbound_stream (ep_conn l)) = take w ys \<and>
      (ByteStream_input_ended (TCPConnection_inbound_stream (ep_conn l)) \<longrightarrow> w = length ys))"
proof -
  have "ep_inv xs ys (ep_isn r) l" "ep_inv ys xs (ep_isn l) r"
    using duplex_both[OF assms] by (simp_all add: tcp.both_def)
  from ep_delivered[OF this(1)] ep_delivered[OF this(2)] show ?thesis by blast
qed

theorem duplex_delivers_witness:
  "\<exists>l r. duplex_reach ep_step ep_sent [1, 2] [3] transfer_start (l, r) \<and>
    (\<exists>w\<le>length ([1, 2] :: bytes). ep_got r @ bs_buffer (TCPConnection_inbound_stream (ep_conn r)) = take w [1, 2] \<and>
      (ByteStream_input_ended (TCPConnection_inbound_stream (ep_conn r)) \<longrightarrow> w = length ([1, 2] :: bytes)))"
  using transfer_reach duplex_delivers[OF transfer_sized] by blast

text \<open>C2: Reliability. When an endpoint's sender reports that its stream is finished and fully acknowledged -- the
state in which a connection may be closed -- the peer has received the whole stream, and knows it.\<close>

theorem duplex_reliable:
  assumes "sized xs ys cl" and "sized ys xs cr"
    and "duplex_reach ep_step ep_sent xs ys (ep_new cl u, ep_new cr v) (l, r)"
    and "TCPState_summary_sender (cn_sender (ep_conn l)) = TCPSenderStateSummary_FIN_ACKED"
  shows "ep_got r @ bs_buffer (TCPConnection_inbound_stream (ep_conn r)) = xs \<and>
    ByteStream_input_ended (TCPConnection_inbound_stream (ep_conn r))"
proof -
  let ?s = "cn_sender (ep_conn l)"
  have l: "ep_inv xs ys (ep_isn r) l" and r: "ep_inv ys xs (ep_isn l) r" and una: "ep_una l \<le> ep_pos r"
    using duplex_both[OF assms(1-3)] by (simp_all add: tcp.both_def)
  have "sd_inv xs ?s" using l by (simp add: ep_inv_def conn_inv_def)
  then have "length xs + 2 \<le> sd_una ?s" using assms(4) by (rule fin_acked_una)
  then have "length xs + 2 \<le> rx_pos (cn_receiver (ep_conn r))" using una by simp
  moreover have "prefix_len (sr_known (ep_reassembler r)) \<le> length xs" by (rule ep_delivered(2)[OF r])
  ultimately have "ByteStream_input_ended (TCPConnection_inbound_stream (ep_conn r))"
    by (auto simp: rx_pos_def TCPConnection_inbound_stream_def split: if_splits)
  with ep_delivered(1,3)[OF r] show ?thesis by simp
qed

theorem duplex_reliable_witness:
  "\<exists>l r. duplex_reach ep_step ep_sent [1, 2] [3] transfer_start (l, r) \<and>
     TCPState_summary_sender (cn_sender (ep_conn l)) = TCPSenderStateSummary_FIN_ACKED \<and>
     ep_got r @ bs_buffer (TCPConnection_inbound_stream (ep_conn r)) = [1, 2] \<and>
     ByteStream_input_ended (TCPConnection_inbound_stream (ep_conn r))"
  using transfer_reach duplex_reliable[OF transfer_sized] by blast

text \<open>Every call an application, the clock or the network can make returns.\<close>

definition ep_returns :: "bytes \<Rightarrow> TCPSegment set \<Rightarrow> endpoint \<Rightarrow> bool" where
  "ep_returns zs inc e \<longleftrightarrow>
     (\<exists>c. TCPConnection_connect (ep_conn e) = Inr c) \<and>
     (\<forall>n. \<exists>k c. TCPConnection_write (ep_conn e) (slice zs (sd_written (cn_sender (ep_conn e))) n) = Inr (k, c)) \<and>
     (sd_written (cn_sender (ep_conn e)) = length zs \<longrightarrow> (\<exists>c. TCPConnection_end_input_stream (ep_conn e) = Inr c)) \<and>
     (\<forall>m\<in>inc. \<forall>seg. alike m seg \<longrightarrow> (\<exists>c. TCPConnection_segment_received (ep_conn e) seg = Inr c)) \<and>
     (\<forall>n. \<exists>d rc. rx_read (cn_receiver (ep_conn e)) n = Inr (d, rc))"

lemma ep_inv_returns:
  assumes inv: "ep_inv zs ys pisn e" and inc: "\<And>m. m \<in> inc \<Longrightarrow> seg_ok ys pisn (ep_isn e) Q m" and Q: "Q \<le> length zs + 2"
  shows "ep_returns zs inc e"
proof -
  have c: "conn_inv zs ys pisn (ep_conn e)" using inv by (simp add: ep_inv_def)
  have rx: "rx_ok ys pisn (cn_receiver (ep_conn e))" using c by (simp add: conn_inv_def)
  show ?thesis
    using connect_adv[OF c] write_adv[OF c] end_input_adv[OF c] conn_receive_adv[OF c alike_ok[OF _ inc] Q] rx_read_ok[OF rx]
    unfolding ep_returns_def by blast
qed

lemma reach_returns:
  assumes "sized xs ys cl" and "sized ys xs cr"
    and "duplex_reach ep_step ep_sent xs ys (ep_new cl u, ep_new cr v) (l, r)"
  shows "ep_returns xs (ep_sent r) l \<and> ep_returns ys (ep_sent l) r"
proof -
  have inv: "ep_inv xs ys (ep_isn r) l" "ep_inv ys xs (ep_isn l) r"
    using duplex_both[OF assms] by (simp_all add: tcp.both_def)
  show ?thesis
    by (intro conjI ep_inv_returns[OF inv(1) tcp.sent_ok[OF inv(2)] tcp.pos_limit[OF inv(2)]]
        ep_inv_returns[OF inv(2) tcp.sent_ok[OF inv(1)] tcp.pos_limit[OF inv(1)]])
qed

text \<open>C3: Nothing hangs and nothing throws. In every state the two endpoints can get into, every call returns
normally: connecting, writing, closing, reading, and taking in any segment the peer has ever sent. In
particular the loops of \<open>unwrap\<close>, \<open>fill_window\<close> and \<open>ack_received\<close> end and no substring is out of range.\<close>

theorem duplex_returns:
  assumes "sized xs ys cl" and "sized ys xs cr"
    and "duplex_reach ep_step ep_sent xs ys (ep_new cl u, ep_new cr v) (l, r)"
  shows "ep_returns xs (ep_sent r) l \<and> ep_returns ys (ep_sent l) r"
  by (rule reach_returns[OF assms])

theorem duplex_returns_witness:
  "\<exists>l r. duplex_reach ep_step ep_sent [1, 2] [3] transfer_start (l, r) \<and> ep_returns [1, 2] (ep_sent r) l"
  using transfer_reach duplex_returns[OF transfer_sized] by blast

end
