(* ===== verification/Socket_Steps.thy ===== *)
theory Socket_Steps
  imports Sponge_Socket Tcp_End_To_End
begin

text \<open>
  What a run of \<open>TCPSpongeSocket\<close>'s event loop consists of. The steps of a socket are the calls it makes from its
  rules, the ticks, and what happens outside; the loop, with its rules removed and
  cancelled on the way, makes such steps and no others, and cancels the reading of the pipe only when
  the owner's stream is over.
\<close>

section \<open>What the world outside promises\<close>

text \<open>
  Readings of the kernel's state: the stream the owner writes into the pipe (all of it, in the end), how much of it
  the socket has read, what the pipe has taken for the owner, and the segments the adapter was given;
  and the number of the inner end of the pipe.
\<close>

record 'k reading =
  of_stream :: "'k \<Rightarrow> bytes"
  of_supplied :: "'k \<Rightarrow> nat"
  of_taken :: "'k \<Rightarrow> bytes"
  of_given :: "'k \<Rightarrow> TCPSegment set"
  of_pipe :: cint

definition same_reading :: "'k reading \<Rightarrow> 'k \<Rightarrow> 'k \<Rightarrow> bool" where
  "same_reading g k k' \<longleftrightarrow> of_stream g k' = of_stream g k \<and> of_supplied g k' = of_supplied g k \<and>
     of_taken g k' = of_taken g k \<and> of_given g k' = of_given g k"

text \<open>
  A call of \<open>read\<close> fails with an error number, or delivers the next bytes of the owner's stream, and none only at its
  end; a call of \<open>writev\<close> fails or takes some of the bytes offered, from the front; the adapter hands over what it is
  given; nothing else touches the pipe or the record of what was handed over. A hangup without
  input is reported for the pipe only when the owner's stream has been read to its end.
\<close>

definition read_law :: "('a, 'k) sock_env \<Rightarrow> 'k reading \<Rightarrow> bool" where
  "read_law env g \<longleftrightarrow> (\<forall>fd n k ret e d k'. en_read env fd n k = ((ret, e, d), k') \<longrightarrow>
     length d \<le> unat n \<and> (sint (size_to_int ret) < 0 \<and> e \<noteq> 0 \<or>
     ret = of_nat (length d) \<and> d = slice (of_stream g k) (of_supplied g k) (length d) \<and>
     of_supplied g k' = of_supplied g k + length d \<and> of_supplied g k' \<le> length (of_stream g k) \<and>
     (d = [] \<and> 0 < n \<longrightarrow> of_supplied g k = length (of_stream g k)) \<and>
     of_stream g k' = of_stream g k \<and> of_taken g k' = of_taken g k \<and> of_given g k' = of_given g k))"

definition write_law :: "('a, 'k) sock_env \<Rightarrow> 'k reading \<Rightarrow> bool" where
  "write_law env g \<longleftrightarrow> (\<forall>fd s k ret e k'. en_writev env fd [(s, size_of s)] k = (ret, e, k') \<longrightarrow>
     sint (size_to_int ret) < 0 \<and> e \<noteq> 0 \<or>
     (\<exists>n. ret = of_nat n \<and> n \<le> length s \<and> n < 2 ^ 31 \<and> (s \<noteq> [] \<longrightarrow> 0 < n) \<and> of_taken g k' = of_taken g k @ take n s \<and>
        of_stream g k' = of_stream g k \<and> of_supplied g k' = of_supplied g k \<and> of_given g k' = of_given g k))"

definition adapter_law :: "('a, 'k) sock_env \<Rightarrow> 'k reading \<Rightarrow> bool" where
  "adapter_law env g \<longleftrightarrow>
     (\<forall>a seg k a' k'. en_adapter_write env a seg k = Inr (a', k') \<longrightarrow> of_given g k' = insert seg (of_given g k) \<and>
        of_stream g k' = of_stream g k \<and> of_supplied g k' = of_supplied g k \<and> of_taken g k' = of_taken g k) \<and>
     (\<forall>a k seg a' k'. en_adapter_read env a k = Inr (seg, a', k') \<longrightarrow> same_reading g k k') \<and>
     (\<forall>a ms k a' k'. en_adapter_tick env a ms k = Inr (a', k') \<longrightarrow> same_reading g k k')"

definition quiet_law :: "('a, 'k) sock_env \<Rightarrow> 'k reading \<Rightarrow> bool" where
  "quiet_law env g \<longleftrightarrow>
     (\<forall>fd how k. same_reading g k (snd (en_shutdown env fd how k))) \<and>
     (\<forall>pfs t k. same_reading g k (snd (en_poll env pfs t k))) \<and> (\<forall>k. same_reading g k (snd (en_now env k)))"

definition hangup_law :: "('a, 'k) sock_env \<Rightarrow> 'k reading \<Rightarrow> bool" where
  "hangup_law env g \<longleftrightarrow> (\<forall>pfs t k ret e revs k' pf rev. en_poll env pfs t k = ((ret, e, revs), k') \<longrightarrow>
     (pf, rev) \<in> set (zip pfs revs) \<longrightarrow> pf_fd pf = of_pipe g \<longrightarrow> pf_events pf = POLLIN \<longrightarrow> pf_defunct (pf\<lparr>pf_revents := rev\<rparr>) \<longrightarrow>
     of_supplied g k = length (of_stream g k))"

definition lawful :: "('a, 'k) sock_env \<Rightarrow> 'k reading \<Rightarrow> bool" where
  "lawful env g \<longleftrightarrow> read_law env g \<and> write_law env g \<and> adapter_law env g \<and> quiet_law env g \<and> hangup_law env g"

section \<open>The pipe under the laws\<close>

lemma pipe_read:
  assumes law: "lawful env g" and r: "en_read env fd (min BUFFER_SIZE limit) k = (answer, k1)"
  shows "(\<exists>e. FileDescriptor_read td limit answer = Inl (UnixError ''read'' e)) \<or>
    (\<exists>d. FileDescriptor_read td limit answer =
        Inr (d, td\<lparr>fd_eof := (fd_eof td \<or> 0 < limit \<and> d = []), fd_read_count := fd_read_count td + 1\<rparr>) \<and>
      length d \<le> unat limit \<and> d = slice (of_stream g k) (of_supplied g k) (length d) \<and>
      of_supplied g k1 = of_supplied g k + length d \<and> of_supplied g k1 \<le> length (of_stream g k) \<and>
      (0 < limit \<and> d = [] \<longrightarrow> of_supplied g k = length (of_stream g k)) \<and>
      of_stream g k1 = of_stream g k \<and> of_taken g k1 = of_taken g k \<and> of_given g k1 = of_given g k)"
proof -
  obtain ret e d where a: "answer = (ret, e, d)" by (cases answer) auto
  have ld: "length d \<le> unat (min BUFFER_SIZE limit)" and ans: "sint (size_to_int ret) < 0 \<and> e \<noteq> 0 \<or>
     ret = of_nat (length d) \<and> d = slice (of_stream g k) (of_supplied g k) (length d) \<and>
     of_supplied g k1 = of_supplied g k + length d \<and> of_supplied g k1 \<le> length (of_stream g k) \<and>
     (d = [] \<and> 0 < min BUFFER_SIZE limit \<longrightarrow> of_supplied g k = length (of_stream g k)) \<and>
     of_stream g k1 = of_stream g k \<and> of_taken g k1 = of_taken g k \<and> of_given g k1 = of_given g k"
    using law r a unfolding lawful_def read_law_def by blast+
  have le: "length d \<le> unat limit" using ld by (simp add: min_def word_le_nat_alt split: if_splits)
  have pos: "0 < limit \<Longrightarrow> 0 < min BUFFER_SIZE limit" by (simp add: BUFFER_SIZE_def min_def)
  have "FileDescriptor_read td limit answer = (if sint (size_to_int ret) < 0 \<and> e \<noteq> 0 then Inl (UnixError ''read'' e)
      else Inr (d, td\<lparr>fd_eof := (fd_eof td \<or> 0 < limit \<and> d = []), fd_read_count := fd_read_count td + 1\<rparr>))"
    unfolding a by (rule read_outcome[OF ld]) (use ans in blast)
  then show ?thesis using ans le pos by (cases "sint (size_to_int ret) < 0 \<and> e \<noteq> 0") auto
qed

lemma pipe_write:
  assumes law: "lawful env g" and buf: "length buf < 2 ^ 63"
  shows "(\<exists>e. FileDescriptor_write (en_writev env) td [buf] False k = Inl (UnixError ''writev'' e)) \<or>
    (\<exists>n k1. FileDescriptor_write (en_writev env) td [buf] False k =
        Inr (of_nat n, td\<lparr>fd_write_count := fd_write_count td + 1\<rparr>, k1) \<and> n \<le> length buf \<and>
      of_taken g k1 = of_taken g k @ take n buf \<and>
      of_stream g k1 = of_stream g k \<and> of_supplied g k1 = of_supplied g k \<and> of_given g k1 = of_given g k)"
proof -
  obtain ret e k1 where w: "en_writev env (fd_fd td) [(buf, size_of buf)] k = (ret, e, k1)" by (metis surj_pair)
  let ?P = "\<lambda>n. of_taken g k1 = of_taken g k @ take n buf \<and> of_stream g k1 = of_stream g k \<and> of_supplied g k1 = of_supplied g k \<and> of_given g k1 = of_given g k"
  have "sint (size_to_int ret) < 0 \<and> e \<noteq> 0 \<or> (\<exists>n. ret = of_nat n \<and> n \<le> length buf \<and> n < 2 ^ 31 \<and> (buf \<noteq> [] \<longrightarrow> 0 < n) \<and> ?P n)"
    using law w unfolding lawful_def write_law_def by blast
  from write_outcome[where writev = "en_writev env" and P = ?P, OF w buf this] show ?thesis by blast
qed

lemma shutdown_outcome:
  "Socket_shutdown td SHUT_WR answer = Inr (FileDescriptor_register_write td) \<or>
   Socket_shutdown td SHUT_WR answer = Inl (UnixError ''shutdown'' (snd answer))"
  by (cases "0 \<le> sint (fst answer) \<or> snd answer = 0") (simp_all add: Socket_shutdown_def SystemCall_def)

section \<open>The steps of a socket\<close>

text \<open>
  The callbacks, the cancellation of rule 2 when the owner's stream is over, a tick, connecting, and whatever happens
  outside without touching the pipe. What the adapter reads is, up to ports and checksum, a segment of \<open>inc\<close>.
\<close>

inductive sock_step ::
  "('a, 'k) sock_env \<Rightarrow> 'k reading \<Rightarrow> TCPSegment set \<Rightarrow> ('a, 'k) sock_world \<Rightarrow> ('a, 'k) sock_world \<Rightarrow> bool"
  for env g inc where
  run1: "rule1_callback env (s, k) = Inr w' \<Longrightarrow>
    (\<And>seg a k'. en_adapter_read env (so_adapter s) k = Inr (Some seg, a, k') \<Longrightarrow> \<exists>m\<in>inc. alike m seg) \<Longrightarrow>
    sock_step env g inc (s, k) w'"
| run2: "rule2_callback env w = Inr w' \<Longrightarrow> sock_step env g inc w w'"
| over2: "rule2_cancel (s, k) = Inr w' \<Longrightarrow> of_supplied g k = length (of_stream g k) \<Longrightarrow> sock_step env g inc (s, k) w'"
| run3: "rule3_callback env w = Inr w' \<Longrightarrow> sock_step env g inc w w'"
| run4: "rule4_callback env w = Inr w' \<Longrightarrow> sock_step env g inc w w'"
| ticks: "so_tcp s = Some c \<Longrightarrow> en_adapter_tick env (so_adapter s) ms k = Inr (a, k') \<Longrightarrow>
    sock_step env g inc (s, k) (s\<lparr>so_tcp := Some (TCPConnection_tick c ms), so_adapter := a\<rparr>, k')"
| opens: "so_tcp s = Some c \<Longrightarrow> TCPConnection_connect c = Inr c1 \<Longrightarrow> sock_step env g inc (s, k) (s\<lparr>so_tcp := Some c1\<rparr>, k)"
| outside: "same_reading g k k' \<Longrightarrow> sock_step env g inc (s, k) (s, k')"

text \<open>
  What the socket knows of its end of the pipe: it is open, and its end-of-file flag, like a hangup that was
  reported (\<open>h\<close>), means that the owner's stream has been read to its end.
\<close>

definition pipe_ok :: "'k reading \<Rightarrow> bool \<Rightarrow> ('a, 'k) sock_world \<Rightarrow> bool" where
  "pipe_ok g h = (\<lambda>(s, k). fd_fd (so_thread_data s) = of_pipe g \<and> \<not> fd_closed (so_thread_data s) \<and>
     (fd_eof (so_thread_data s) \<or> h \<longrightarrow> of_supplied g k = length (of_stream g k)))"

lemma pipe_ok_quiet:
  "pipe_ok g h (s, k) \<Longrightarrow> same_reading g k k' \<Longrightarrow> so_thread_data s' = so_thread_data s \<Longrightarrow> pipe_ok g h (s', k')"
  by (simp add: pipe_ok_def same_reading_def)

lemma rule1_pipe:
  assumes "lawful env g" and "pipe_ok g h (s, k)" and "rule1_callback env (s, k) = Inr w'"
  shows "pipe_ok g h w'"
proof -
  from assms(3) obtain seg a k' where r: "en_adapter_read env (so_adapter s) k = Inr (seg, a, k')"
    by (auto simp: rule1_callback.simps andthen_Inr_iff)
  obtain c where c: "so_tcp s = Some c" using assms(3) r by (cases "so_tcp s") (auto simp: rule1_callback.simps with_tcp_def)
  from assms(3) r c have "\<exists>c1 b. w' = (s\<lparr>so_adapter := a, so_tcp := Some c1, so_fully_acked := b\<rparr>, k')"
    unfolding rule1_callback.simps by (cases "case seg of None \<Rightarrow> Inr c | Some g \<Rightarrow> TCPConnection_segment_received c g") (auto simp: with_tcp_def)
  then obtain s' where "w' = (s', k')" "so_thread_data s' = so_thread_data s" by auto
  moreover have "same_reading g k k'" using assms(1) r unfolding lawful_def adapter_law_def by blast
  ultimately show ?thesis using pipe_ok_quiet[OF assms(2)] by blast
qed

lemma rule2_pipe:
  assumes "lawful env g" and "pipe_ok g h (s, k)" and "rule2_callback env (s, k) = Inr w'"
  shows "pipe_ok g h w'"
proof -
  obtain c where c: "so_tcp s = Some c" using assms(3) by (cases "so_tcp s") (auto simp: rule2_callback.simps with_tcp_def)
  let ?td = "so_thread_data s" and ?limit = "TCPConnection_remaining_outbound_capacity c"
  obtain answer k1 where r: "en_read env (fd_fd ?td) (min BUFFER_SIZE ?limit) k = (answer, k1)" by (metis surj_pair)
  then obtain d td where rd: "FileDescriptor_read ?td ?limit answer = Inr (d, td)" and w': "\<exists>s'. w' = (s', k1) \<and> so_thread_data s' = td"
    using assms(3) c by (auto simp: rule2_callback.simps with_tcp_def andthen_Inr_iff Let_def split: if_splits)
  have td: "td = ?td\<lparr>fd_eof := (fd_eof ?td \<or> 0 < ?limit \<and> d = []), fd_read_count := fd_read_count ?td + 1\<rparr>"
    "of_supplied g k1 = of_supplied g k + length d" "of_supplied g k1 \<le> length (of_stream g k)"
    "0 < ?limit \<and> d = [] \<longrightarrow> of_supplied g k = length (of_stream g k)" "of_stream g k1 = of_stream g k"
    using pipe_read[OF assms(1) r, of ?td] rd by auto
  show ?thesis using w' td assms(2) by (auto simp: pipe_ok_def)
qed

lemma peek_bound: "length (ByteStream_peek_output st (min 65536 n)) < 2 ^ 63"
proof -
  have "unat (min 65536 n) \<le> 65536" by (simp add: min_def word_le_nat_alt)
  then show ?thesis by (simp add: ByteStream_peek_output_def min_def)
qed

lemma rule3_pipe:
  assumes "lawful env g" and "pipe_ok g h (s, k)" and "rule3_callback env (s, k) = Inr w'"
  shows "pipe_ok g h w'"
proof -
  obtain c where c: "so_tcp s = Some c" using assms(3) by (cases "so_tcp s") (auto simp: rule3_callback.simps with_tcp_def)
  let ?td = "so_thread_data s" and ?in = "TCPConnection_inbound_stream c"
  define buf where "buf = ByteStream_peek_output ?in (min 65536 (ByteStream_buffer_size ?in))"
  have buf: "length buf < 2 ^ 63" unfolding buf_def by (rule peek_bound)
  obtain n td k1 where wr: "FileDescriptor_write (en_writev env) ?td [buf] False k = Inr (n, td, k1)"
    using assms(3) c by (auto simp: rule3_callback.simps with_tcp_def andthen_Inr_iff Let_def buf_def)
  then have td: "td = ?td\<lparr>fd_write_count := fd_write_count ?td + 1\<rparr>"
    and k1: "of_stream g k1 = of_stream g k" "of_supplied g k1 = of_supplied g k"
    using pipe_write[OF assms(1) buf, of ?td k] by auto
  obtain answer k2 where sh: "en_shutdown env (fd_fd td) SHUT_WR k1 = (answer, k2)" by (metis surj_pair)
  have k2: "of_stream g k2 = of_stream g k1" "of_supplied g k2 = of_supplied g k1"
    using assms(1) sh unfolding lawful_def quiet_law_def same_reading_def by (metis snd_conv)+
  have "snd w' = k1 \<and> so_thread_data (fst w') = td \<or> snd w' = k2 \<and> Socket_shutdown td SHUT_WR answer = Inr (so_thread_data (fst w'))"
    using assms(3) c wr sh
    by (auto simp: rule3_callback.simps with_tcp_def andthen_Inr_iff Let_def buf_def[symmetric] split: if_splits)
  then have "so_thread_data (fst w') = td \<or> so_thread_data (fst w') = FileDescriptor_register_write td"
    "snd w' = k1 \<or> snd w' = k2"
    using shutdown_outcome[of td answer] by auto
  then have "fd_fd (so_thread_data (fst w')) = fd_fd ?td" "fd_eof (so_thread_data (fst w')) = fd_eof ?td"
    "fd_closed (so_thread_data (fst w')) = fd_closed ?td"
    "of_stream g (snd w') = of_stream g k" "of_supplied g (snd w') = of_supplied g k"
    using td k1 k2 by (auto simp: FileDescriptor_register_write_def)
  then show ?thesis using assms(2) by (cases w') (simp add: pipe_ok_def)
qed

lemma rule4_loop_reading:
  "lawful env g \<Longrightarrow> rule4_loop env segs a k = Inr (a', k') \<Longrightarrow> of_stream g k' = of_stream g k \<and> of_supplied g k' = of_supplied g k"
proof (induction segs arbitrary: a k)
  case (Cons seg segs)
  then obtain a1 k1 where w: "en_adapter_write env a seg k = Inr (a1, k1)" "rule4_loop env segs a1 k1 = Inr (a', k')"
    by (auto simp: andthen_Inr_iff)
  have "of_stream g k1 = of_stream g k \<and> of_supplied g k1 = of_supplied g k"
    using Cons.prems(1) w(1) unfolding lawful_def adapter_law_def by blast
  with Cons.IH[OF Cons.prems(1) w(2)] show ?case by simp
qed simp

lemma rule4_pipe:
  assumes "lawful env g" and "pipe_ok g h (s, k)" and "rule4_callback env (s, k) = Inr w'"
  shows "pipe_ok g h w'"
proof -
  obtain c where c: "so_tcp s = Some c" using assms(3) by (cases "so_tcp s") (auto simp: rule4_callback.simps with_tcp_def)
  obtain a k' where r: "rule4_loop env (cn_segments_out c) (so_adapter s) k = Inr (a, k')"
    "w' = (s\<lparr>so_adapter := a, so_tcp := Some (c\<lparr>cn_segments_out := []\<rparr>)\<rparr>, k')"
    using assms(3) c by (auto simp: rule4_callback.simps with_tcp_def andthen_Inr_iff)
  show ?thesis using assms(2) rule4_loop_reading[OF assms(1) r(1)] r(2) by (simp add: pipe_ok_def)
qed

lemma cancel2_pipe: "pipe_ok g h (s, k) \<Longrightarrow> rule2_cancel (s, k) = Inr w' \<Longrightarrow> pipe_ok g h w'"
  by (auto simp: rule2_cancel.simps with_tcp_def andthen_Inr_iff pipe_ok_def split: option.splits)

text \<open>The rules of the loop, and what each of its calls is.\<close>

lemma sock_rules_cases:
  assumes "r \<in> set (el_rules (sock_rules env))"
  obtains (one) "ru_fd r = 0" "ru_callback r = rule1_callback env" "ru_cancel r = Inr"
  | (two) "ru_fd r = 1" "ru_direction r = In" "ru_callback r = rule2_callback env" "ru_cancel r = rule2_cancel"
  | (three) "ru_callback r = rule3_callback env" "ru_cancel r = Inr"
  | (four) "ru_callback r = rule4_callback env" "ru_cancel r = Inr"
  using assms that unfolding sock_rules_def EventLoop_add_rule_def EventLoop_new_def by auto

text \<open>A run of the loop is a sequence of steps, here of length unknown; \<open>R\<close> collects what has been reached.\<close>

abbreviation arrivals :: "('a, 'k) sock_env \<Rightarrow> TCPSegment set \<Rightarrow> bool" where
  "arrivals env inc \<equiv> \<forall>a k seg a' k'. en_adapter_read env a k = Inr (Some seg, a', k') \<longrightarrow> (\<exists>m\<in>inc. alike m seg)"

definition on_way :: "('a, 'k) sock_env \<Rightarrow> 'k reading \<Rightarrow> TCPSegment set \<Rightarrow> ('a, 'k) sock_world \<Rightarrow> bool \<Rightarrow> ('a, 'k) sock_world \<Rightarrow> bool" where
  "on_way env g inc w0 h w \<longleftrightarrow> (sock_step env g inc)\<^sup>*\<^sup>* w0 w \<and> pipe_ok g h w"

lemma callback_way:
  assumes law: "lawful env g" and arr: "arrivals env inc" and r: "r \<in> set (el_rules (sock_rules env))"
    and w: "on_way env g inc w0 h w" and run: "ru_callback r w = Inr w'"
  shows "on_way env g inc w0 h w'"
proof -
  obtain s k where sk: "w = (s, k)" by (cases w)
  have ok: "pipe_ok g h (s, k)" using w sk by (simp add: on_way_def)
  from r have "sock_step env g inc w w' \<and> pipe_ok g h w'"
  proof (cases rule: sock_rules_cases)
    case one
    with run sk have run: "rule1_callback env (s, k) = Inr w'" by simp
    have "sock_step env g inc (s, k) w'" by (rule run1[OF run]) (use arr in blast)
    then show ?thesis using sk rule1_pipe[OF law ok run] by simp
  next
    case two
    then show ?thesis using run sk rule2_pipe[OF law ok] by (auto intro: run2)
  next
    case three
    then show ?thesis using run sk rule3_pipe[OF law ok] by (auto intro: run3)
  next
    case four
    then show ?thesis using run sk rule4_pipe[OF law ok] by (auto intro: run4)
  qed
  then show ?thesis using w by (auto simp: on_way_def)
qed

lemma cancel_way:
  assumes r: "r \<in> set (el_rules (sock_rules env))" and w: "on_way env g inc w0 h w" and run: "ru_cancel r w = Inr w'"
    and over: "ru_fd r = 1 \<Longrightarrow> ru_direction r = In \<Longrightarrow> of_supplied g (snd w) = length (of_stream g (snd w))"
  shows "on_way env g inc w0 h w'"
proof -
  obtain s k where sk: "w = (s, k)" by (cases w)
  have ok: "pipe_ok g h (s, k)" using w sk by (simp add: on_way_def)
  from r show ?thesis
  proof (cases rule: sock_rules_cases)
    case two
    then have "sock_step env g inc w w' \<and> pipe_ok g h w'"
      using run sk over cancel2_pipe[OF ok] by (auto intro: over2)
    then show ?thesis using w by (auto simp: on_way_def)
  qed (use run w in simp_all)
qed

lemma wait_way:
  assumes law: "lawful env g" and arr: "arrivals env inc" and rules: "set (el_rules el) \<subseteq> set (el_rules (sock_rules env))"
    and w: "on_way env g inc w0 False w"
    and run: "EventLoop_wait_next_event (sock_fdw env) (sock_poll env) el t w = Inr (res, el', w')"
  shows "on_way env g inc w0 False w' \<and> set (el_rules el') \<subseteq> set (el_rules (sock_rules env))"
proof -
  let ?hup = "\<lambda>ps. \<exists>(pf, rev)\<in>set ps. pf_fd pf = of_pipe g \<and> pf_events pf = POLLIN \<and> pf_defunct (pf\<lparr>pf_revents := rev\<rparr>)"
  let ?D = "\<lambda>ps. on_way env g inc w0 (?hup ps)"
  have "on_way env g inc w0 False w' \<and> set (el_rules el') \<subseteq> set (el_rules el)"
  proof (rule wait_keeps[where I = "on_way env g inc w0 False" and D = ?D, OF run w])
    fix r v v' assume r: "r \<in> set (el_rules el)" and v: "on_way env g inc w0 False v" "ru_cancel r v = Inr v'"
      and c: "ru_direction r = In \<and> fd_eof (sock_fdw env v (ru_fd r)) \<or> fd_closed (sock_fdw env v (ru_fd r))"
    show "on_way env g inc w0 False v'"
      by (rule cancel_way[OF _ v]) (use r rules c v(1) in \<open>auto simp: on_way_def pipe_ok_def sock_fdw.simps split: prod.splits\<close>)
  next
    fix pfs v ret e revs v' assume v: "on_way env g inc w0 False v" and p: "sock_poll env pfs t v = ((ret, e, revs), v')"
    obtain s k where sk: "v = (s, k)" by (cases v)
    obtain k' where k': "en_poll env pfs t k = ((ret, e, revs), k')" "v' = (s, k')"
      using p by (auto simp: sock_poll.simps sk Let_def split: prod.splits)
    have same: "same_reading g k k'" using law k'(1) unfolding lawful_def quiet_law_def by (metis snd_conv)
    have "of_supplied g k = length (of_stream g k)" if "?hup (zip pfs revs)"
      using law k'(1) that unfolding lawful_def hangup_law_def by blast
    then have "pipe_ok g (?hup (zip pfs revs)) v'"
      using v sk k'(2) same by (auto simp: on_way_def pipe_ok_def same_reading_def)
    moreover have "sock_step env g inc v v'" using outside[OF same, of env inc s] sk k'(2) by simp
    ultimately show "?D (zip pfs revs) v'" using v by (auto simp: on_way_def)
  next
    fix r pf rev ps v v' assume r: "r \<in> set (el_rules el)" and pf: "(pf, rev) \<in> set ps" "pf_defunct (pf\<lparr>pf_revents := rev\<rparr>)"
      "\<exists>v. on_way env g inc w0 False v \<and> pf_fd pf = fd_fd (sock_fdw env v (ru_fd r))"
      "pf_events pf = Direction_events (ru_direction r)" and v: "?D ps v" "ru_cancel r v = Inr v'"
    have "?hup ps" if "ru_fd r = 1" "ru_direction r = In"
      using pf that by (auto simp: on_way_def pipe_ok_def sock_fdw.simps intro!: bexI[of _ "(pf, rev)"] split: prod.splits)
    then show "?D ps v'"
      by (intro cancel_way[OF _ v]) (use r rules v(1) in \<open>auto simp: on_way_def pipe_ok_def split: prod.splits\<close>)
  next
    fix r ps v v' assume "r \<in> set (el_rules el)" "?D ps v" "ru_callback r v = Inr v'"
    then show "?D ps v'" using callback_way[OF law arr] rules by blast
  next
    fix ps v assume "?D ps v"
    then show "on_way env g inc w0 False v" by (auto simp: on_way_def pipe_ok_def)
  qed
  then show ?thesis using rules by blast
qed

text \<open>One round of \<open>_tcp_loop\<close>: the wait and, unless the loop is left, a tick of the connection and the adapter.\<close>

lemma round_way:
  assumes law: "lawful env g" and arr: "arrivals env inc" and rules: "set (el_rules el) \<subseteq> set (el_rules (sock_rules env))"
    and w: "on_way env g inc w0 False w" and run: "tcp_loop_round env (w, el, base, brk) = Inr (w', el', base', brk')"
  shows "on_way env g inc w0 False w' \<and> set (el_rules el') \<subseteq> set (el_rules (sock_rules env))"
proof -
  obtain ret s1 k1 where wait: "EventLoop_wait_next_event (sock_fdw env) (sock_poll env) el TCP_TICK_MS w = Inr (ret, el', s1, k1)"
    and rest: "(if ret = Exit \<or> en_abort env k1 then Inr ((s1, k1), el', base, True)
       else with_tcp s1 (\<lambda>c.
         if TCPConnection_active c
         then let (next_time, k2) = en_now env k1;
                  c1 = TCPConnection_tick c (next_time - base)
              in andthen (en_adapter_tick env (so_adapter s1) (next_time - base) k2) (\<lambda>(a, k3).
                 Inr ((s1\<lparr>so_tcp := Some c1, so_adapter := a\<rparr>, k3), el', next_time, False))
         else Inr ((s1, k1), el', base, False))) = Inr (w', el', base', brk')"
    using run by (auto simp: tcp_loop_round.simps andthen_Inr_iff with_tcp_def Let_def case_prod_beta split: if_splits option.splits)
  note W = wait_way[OF law arr rules w wait]
  show ?thesis
  proof (cases "w' = (s1, k1)")
    case False
    obtain t k2 where now: "en_now env k1 = (t, k2)" by (cases "en_now env k1")
    obtain c a k3 where c: "so_tcp s1 = Some c" and tick: "en_adapter_tick env (so_adapter s1) (t - base) k2 = Inr (a, k3)"
      and w': "w' = (s1\<lparr>so_tcp := Some (TCPConnection_tick c (t - base)), so_adapter := a\<rparr>, k3)"
      using rest now False by (auto simp: with_tcp_def andthen_Inr_iff Let_def split: if_splits option.splits)
    have same: "same_reading g k1 k2" "same_reading g k2 k3"
      using law now tick unfolding lawful_def quiet_law_def adapter_law_def by (metis snd_conv, blast)
    have "sock_step env g inc (s1, k1) (s1, k2)" "sock_step env g inc (s1, k2) w'"
      unfolding w' by (rule outside[OF same(1)], rule ticks[OF c tick])
    moreover have "pipe_ok g False w'"
      using W same by (auto simp: w' on_way_def pipe_ok_def same_reading_def)
    ultimately show ?thesis using W by (auto simp: on_way_def)
  qed (use W in simp)
qed

lemma loop_way:
  assumes law: "lawful env g" and arr: "arrivals env inc" and rules: "set (el_rules el) \<subseteq> set (el_rules (sock_rules env))"
    and w: "on_way env g inc w0 False w" and run: "TCPSpongeSocket_tcp_loop env condition el w = Inr (w', el')"
  shows "on_way env g inc w0 False w' \<and> set (el_rules el') \<subseteq> set (el_rules (sock_rules env))"
proof -
  obtain s k where sk: "w = (s, k)" by (cases w)
  obtain t k1 where now: "en_now env k = (t, k1)" by (cases "en_now env k")
  obtain base brk where l: "while_loop (\<lambda>(w, el, base_time, brk). \<not> brk \<and> condition w) (tcp_loop_round env)
      ((s, k1), el, t, False) = Inr (w', el', base, brk)"
    using run now by (auto simp: TCPSpongeSocket_tcp_loop_def sk andthen_Inr_iff)
  have same: "same_reading g k k1" using law now unfolding lawful_def quiet_law_def by (metis snd_conv)
  have start: "on_way env g inc w0 False (s, k1)"
    using w sk outside[OF same, of env inc s] pipe_ok_quiet[OF _ same] by (auto simp: on_way_def)
  let ?I = "\<lambda>(w, el :: ('a, 'b) sock_world EventLoop, base :: u64, brk :: bool). on_way env g inc w0 False w \<and> set (el_rules el) \<subseteq> set (el_rules (sock_rules env))"
  have "?I (w', el', base, brk)"
  proof (rule while_loop_keeps[where I = ?I, OF l])
    show "?I ((s, k1), el, t, False)" using start rules by simp
    fix u v assume u: "?I u" and v: "tcp_loop_round env u = Inr v"
    obtain w1 el1 b1 x1 w2 el2 b2 x2 where uv: "u = (w1, el1, b1, x1)" "v = (w2, el2, b2, x2)" by (metis surj_pair)
    have "on_way env g inc w0 False w1" "set (el_rules el1) \<subseteq> set (el_rules (sock_rules env))" using u uv(1) by simp_all
    from round_way[OF law arr this(2,1) v[unfolded uv]] show "?I v" by (simp add: uv(2))
  qed
  then show ?thesis by simp
qed

lemma connect_way:
  assumes law: "lawful env g" and arr: "arrivals env inc" and ok: "pipe_ok g False (s, k)"
    and run: "TCPSpongeSocket_connect env cfg c_ad rnd (s, k) = Inr (w, el)"
    and s0: "s0 = s\<lparr>so_tcp := Some (TCPConnection_new cfg rnd), so_adapter := en_set_config env (so_adapter s) c_ad\<rparr>"
  shows "on_way env g inc (s0, k) False w \<and> set (el_rules el) \<subseteq> set (el_rules (sock_rules env))"
proof -
  obtain c1 where c1: "TCPConnection_connect (TCPConnection_new cfg rnd) = Inr c1"
    "TCPSpongeSocket_tcp_loop env (in_state [SYN_SENT]) (sock_rules env) (s0\<lparr>so_tcp := Some c1\<rparr>, k) = Inr (w, el)"
    using run by (auto simp: TCPSpongeSocket_connect_def TCPSpongeSocket_initialize_TCP_def with_tcp_def andthen_Inr_iff Let_def s0
      split: if_splits)
  have "sock_step env g inc (s0, k) (s0\<lparr>so_tcp := Some c1\<rparr>, k)" by (rule opens[OF _ c1(1)]) (simp add: s0)
  then have "on_way env g inc (s0, k) False (s0\<lparr>so_tcp := Some c1\<rparr>, k)" using ok by (simp add: on_way_def pipe_ok_def s0)
  from loop_way[OF law arr subset_refl this c1(2)] show ?thesis .
qed

lemma listen_way:
  assumes law: "lawful env g" and arr: "arrivals env inc" and ok: "pipe_ok g False (s, k)"
    and run: "TCPSpongeSocket_listen_and_accept env cfg c_ad rnd (s, k) = Inr (w, el)"
    and s0: "s0 = s\<lparr>so_tcp := Some (TCPConnection_new cfg rnd),
      so_adapter := en_set_listening env (en_set_config env (so_adapter s) c_ad) True\<rparr>"
  shows "on_way env g inc (s0, k) False w \<and> set (el_rules el) \<subseteq> set (el_rules (sock_rules env))"
proof -
  have l: "TCPSpongeSocket_tcp_loop env (in_state [LISTEN, SYN_RCVD, SYN_SENT]) (sock_rules env) (s0, k) = Inr (w, el)"
    using run by (auto simp: TCPSpongeSocket_listen_and_accept_def TCPSpongeSocket_initialize_TCP_def Let_def s0 split: if_splits)
  have "on_way env g inc (s0, k) False (s0, k)" using ok by (simp add: on_way_def pipe_ok_def s0)
  from loop_way[OF law arr subset_refl this l] show ?thesis .
qed

section \<open>A world that can be run\<close>

text \<open>
  A kernel with a pipe that takes five bytes at a time, and an adapter that keeps what it is given and hands over what arrives. \<open>poll\<close> reports every
  descriptor as ready, \<open>wk_polls\<close> times, and is then interrupted by a signal.
\<close>

record world_kernel =
  wk_stream :: bytes
  wk_supplied :: nat
  wk_taken :: bytes
  wk_given :: "TCPSegment list"
  wk_arriving :: "TCPSegment list"
  wk_polls :: nat

definition world_read :: "cint \<Rightarrow> size_t \<Rightarrow> world_kernel \<Rightarrow> read_answer \<times> world_kernel" where
  "world_read fd n k =
     (let d = take (unat n) (drop (wk_supplied k) (wk_stream k))
      in if length (wk_stream k) < wk_supplied k then ((-1, 5, []), k)
         else ((of_nat (length d), 0, d), k\<lparr>wk_supplied := wk_supplied k + length d\<rparr>))"

definition world_writev :: "world_kernel writev" where
  "world_writev fd iovs k =
     (let s = concat (map fst iovs); n = min (length s) 5 in (of_nat n, 0, k\<lparr>wk_taken := wk_taken k @ take n s\<rparr>))"

definition world_poll :: "pollfd list \<Rightarrow> cint \<Rightarrow> world_kernel \<Rightarrow> (cint \<times> cint \<times> u16 list) \<times> world_kernel" where
  "world_poll pfs t k =
     (if wk_polls k = 0 then ((-1, EINTR, []), k)
      else ((of_nat (length pfs), 0, map pf_events pfs), k\<lparr>wk_polls := wk_polls k - 1\<rparr>))"

definition world_env :: "(FDWrapper, world_kernel) sock_env" where
  "world_env = \<lparr>en_fd = (\<lambda>a. a), en_set_config = (\<lambda>a c. a), en_set_listening = (\<lambda>a b. a),
     en_adapter_read = (\<lambda>a k. case wk_arriving k of [] \<Rightarrow> Inr (None, FileDescriptor_register_read a, k)
       | seg # segs \<Rightarrow> Inr (Some seg, FileDescriptor_register_read a, k\<lparr>wk_arriving := segs\<rparr>)),
     en_adapter_write = (\<lambda>a seg k. Inr (FileDescriptor_register_write a, k\<lparr>wk_given := wk_given k @ [seg]\<rparr>)),
     en_adapter_tick = (\<lambda>a ms k. Inr (a, k)), en_read = world_read, en_writev = world_writev,
     en_shutdown = (\<lambda>fd how k. ((0, 0), k)), en_poll = world_poll, en_now = (\<lambda>k. (0, k)), en_abort = (\<lambda>k. False)\<rparr>"

definition world_reading :: "world_kernel reading" where
  "world_reading = \<lparr>of_stream = wk_stream, of_supplied = wk_supplied, of_taken = wk_taken, of_given = (\<lambda>k. set (wk_given k)), of_pipe = 4\<rparr>"

definition world_fd :: "cint \<Rightarrow> FDWrapper" where
  "world_fd fd = \<lparr>fd_fd = fd, fd_eof = False, fd_closed = False, fd_read_count = 0, fd_write_count = 0\<rparr>"

definition world_socket :: "FDWrapper TCPSpongeSocket" where
  "world_socket = \<lparr>so_fd = world_fd 3, so_thread_data = world_fd 4, so_adapter = world_fd 5, so_tcp = None,
     so_inbound_shutdown = False, so_outbound_shutdown = False, so_fully_acked = False\<rparr>"

definition world_start :: "bytes \<Rightarrow> nat \<Rightarrow> world_kernel" where
  "world_start xs n = \<lparr>wk_stream = xs, wk_supplied = 0, wk_taken = [], wk_given = [], wk_arriving = [], wk_polls = n\<rparr>"

lemma world_read_law: "read_law world_env world_reading"
  unfolding read_law_def
proof (intro allI impI)
  fix fd n k ret e d k' assume r: "en_read world_env fd n k = ((ret, e, d), k')"
  show "length d \<le> unat n \<and> (sint (size_to_int ret) < 0 \<and> e \<noteq> 0 \<or>
     ret = of_nat (length d) \<and> d = slice (of_stream world_reading k) (of_supplied world_reading k) (length d) \<and>
     of_supplied world_reading k' = of_supplied world_reading k + length d \<and>
     of_supplied world_reading k' \<le> length (of_stream world_reading k) \<and>
     (d = [] \<and> 0 < n \<longrightarrow> of_supplied world_reading k = length (of_stream world_reading k)) \<and>
     of_stream world_reading k' = of_stream world_reading k \<and> of_taken world_reading k' = of_taken world_reading k \<and>
     of_given world_reading k' = of_given world_reading k)"
  proof (cases "length (wk_stream k) < wk_supplied k")
    case True
    have "sint (size_to_int (- 1)) < 0" by code_simp
    with True show ?thesis using r by (auto simp: world_env_def world_read_def Let_def)
  next
    case False
    then have d: "d = take (unat n) (drop (wk_supplied k) (wk_stream k))" "ret = of_nat (length d)"
      "k' = k\<lparr>wk_supplied := wk_supplied k + length d\<rparr>"
      using r by (auto simp: world_env_def world_read_def Let_def)
    have "d = slice (wk_stream k) (wk_supplied k) (length d)" by (simp add: slice_def d(1) min_def)
    moreover have "0 < n \<Longrightarrow> 0 < unat n" by (simp add: word_less_nat_alt)
    ultimately show ?thesis using False d by (auto simp: world_reading_def)
  qed
qed

lemma world_lawful: "lawful world_env world_reading"
proof -
  have "write_law world_env world_reading"
    unfolding write_law_def
  proof (intro allI impI disjI2)
    fix fd s k ret e k' assume "en_writev world_env fd [(s, size_of s)] k = (ret, e, k')"
    then show "\<exists>n. ret = of_nat n \<and> n \<le> length s \<and> n < 2 ^ 31 \<and> (s \<noteq> [] \<longrightarrow> 0 < n) \<and>
        of_taken world_reading k' = of_taken world_reading k @ take n s \<and> of_stream world_reading k' = of_stream world_reading k \<and>
        of_supplied world_reading k' = of_supplied world_reading k \<and> of_given world_reading k' = of_given world_reading k"
      by (intro exI[of _ "min (length s) 5"]) (auto simp: world_env_def world_writev_def world_reading_def Let_def)
  qed
  moreover have "adapter_law world_env world_reading"
    by (auto simp: adapter_law_def world_env_def world_reading_def same_reading_def split: list.splits)
  moreover have "quiet_law world_env world_reading"
    by (auto simp: quiet_law_def world_env_def world_reading_def same_reading_def world_poll_def)
  moreover have "hangup_law world_env world_reading"
    by (auto simp: hangup_law_def world_env_def world_reading_def world_poll_def in_set_zip pf_defunct_def pf_ready_def
      POLLIN_def POLLHUP_def split: if_splits)
  ultimately show ?thesis using world_read_law by (simp add: lawful_def)
qed

section \<open>Properties\<close>

text \<open>C9: What a socket does. In a world that keeps its promises, a socket that connects or listens and then runs its
event loop -- with rules that are called when they are ready, cancelled and removed when their descriptor
is at its end or hung up -- does nothing but calls of its four callbacks, ticks, and, once the owner's
stream is over, the closing of the outbound stream.\<close>

theorem socket_runs_in_steps:
  assumes "lawful env g" and "\<forall>a k seg a' k'. en_adapter_read env a k = Inr (Some seg, a', k') \<longrightarrow> (\<exists>m\<in>inc. alike m seg)"
    and "pipe_ok g False (s, k)"
    and "TCPSpongeSocket_connect env cfg c_ad rnd (s, k) = Inr (w, el) \<or>
      TCPSpongeSocket_listen_and_accept env cfg c_ad rnd (s, k) = Inr (w, el)"
    and "TCPSpongeSocket_tcp_loop env (\<lambda>_. True) el w = Inr (w', el')"
  shows "\<exists>a. (sock_step env g inc)\<^sup>*\<^sup>* (s\<lparr>so_tcp := Some (TCPConnection_new cfg rnd), so_adapter := a\<rparr>, k) w \<and>
    (sock_step env g inc)\<^sup>*\<^sup>* w w'"
proof -
  obtain a where w: "on_way env g inc (s\<lparr>so_tcp := Some (TCPConnection_new cfg rnd), so_adapter := a\<rparr>, k) False w"
    and el: "set (el_rules el) \<subseteq> set (el_rules (sock_rules env))"
    using assms(4) connect_way[OF assms(1-3) _ refl] listen_way[OF assms(1-3) _ refl] by (elim disjE) metis+
  have "on_way env g inc w False w" using w by (simp add: on_way_def)
  with w loop_way[OF assms(1,2) el _ assms(5)] show ?thesis by (auto simp: on_way_def)
qed

text \<open>Connecting, in a world with two bytes to send, until a signal comes after one round.\<close>

lemma world_connects:
  "case TCPSpongeSocket_connect world_env (small_cfg 7) c_ad 0 (world_socket, world_start [1, 2] 1) of
     Inl f \<Rightarrow> False
   | Inr (w, el) \<Rightarrow> wk_supplied (snd w) = 2 \<and> length (wk_given (snd w)) = 1 \<and>
       (case TCPSpongeSocket_tcp_loop world_env (\<lambda>_. True) el w of Inl f \<Rightarrow> False | Inr (w', el') \<Rightarrow> True)"
  by code_simp

theorem socket_runs_in_steps_witness:
  "\<forall>c_ad. \<exists>w el w' el' a. TCPSpongeSocket_connect world_env (small_cfg 7) c_ad 0 (world_socket, world_start [1, 2] 1) = Inr (w, el) \<and>
     wk_supplied (snd w) = 2 \<and> length (wk_given (snd w)) = 1 \<and>
     TCPSpongeSocket_tcp_loop world_env (\<lambda>_. True) el w = Inr (w', el') \<and>
     (sock_step world_env world_reading UNIV)\<^sup>*\<^sup>*
       (world_socket\<lparr>so_tcp := Some (TCPConnection_new (small_cfg 7) 0), so_adapter := a\<rparr>, world_start [1, 2] 1) w \<and>
     (sock_step world_env world_reading UNIV)\<^sup>*\<^sup>* w w'" (is "\<forall>c. ?P c")
proof
  fix c_ad
  note W = world_connects[of c_ad]
  obtain w el where r: "TCPSpongeSocket_connect world_env (small_cfg 7) c_ad 0 (world_socket, world_start [1, 2] 1) = Inr (w, el)"
    using W by (cases "TCPSpongeSocket_connect world_env (small_cfg 7) c_ad 0 (world_socket, world_start [1, 2] 1)") auto
  obtain w' el' where r': "TCPSpongeSocket_tcp_loop world_env (\<lambda>_. True) el w = Inr (w', el')"
    using W unfolding r by (cases "TCPSpongeSocket_tcp_loop world_env (\<lambda>_. True) el w") auto
  have ok: "pipe_ok world_reading False (world_socket, world_start [1, 2] 1)"
    by (simp add: pipe_ok_def world_reading_def world_socket_def world_fd_def)
  have "\<forall>a k seg a' k'. en_adapter_read world_env a k = Inr (Some seg, a', k') \<longrightarrow> (\<exists>m\<in>UNIV. alike m seg)"
    using alike_refl by blast
  from socket_runs_in_steps[OF world_lawful this ok disjI1[OF r] r'] obtain a where
    "(sock_step world_env world_reading UNIV)\<^sup>*\<^sup>*
       (world_socket\<lparr>so_tcp := Some (TCPConnection_new (small_cfg 7) 0), so_adapter := a\<rparr>, world_start [1, 2] 1) w"
    "(sock_step world_env world_reading UNIV)\<^sup>*\<^sup>* w w'" by blast
  moreover have "wk_supplied (snd w) = 2" "length (wk_given (snd w)) = 1" using W unfolding r by simp_all
  ultimately show "?P c_ad" using r r' by blast
qed

end
