(* ===== verification/Connection_Written.thy ===== *)
theory Connection_Written
  imports Connection_Correct
begin

text \<open>
  How much has been written into a connection's outbound stream: nothing but a write changes it, and a write that
  fits is accepted whole.
\<close>

section \<open>Only \<open>write\<close> changes what was written\<close>

abbreviation conn_written :: "TCPConnection \<Rightarrow> cint" where
  "conn_written c \<equiv> bs_written (sd_stream (cn_sender c))"

lemma stream_read_written: "ByteStream_read st n = Inr (d, st') \<Longrightarrow> bs_written st' = bs_written st"
  by (auto simp: ByteStream_read_def ByteStream_pop_output_def Let_def andthen_Inr_iff)

lemma one_byte_written:
  "TCPSender_send_one_byte_segment s f = Inr s' \<Longrightarrow> bs_written (sd_stream s') = bs_written (sd_stream s)"
  by (auto simp: TCPSender_send_one_byte_segment_def Let_def andthen_Inr_iff split: if_splits dest!: stream_read_written)

lemma fill_window_written:
  assumes "TCPSender_fill_window s = Inr s'"
  shows "bs_written (sd_stream s') = bs_written (sd_stream s)"
proof -
  have "bs_written (sd_stream (fst v)) = bs_written (sd_stream (fst u))" if "TCPSender_fill_window_round u = Inr v" for u v
    using that by (cases u) (auto simp: TCPSender_fill_window_round_def Let_def andthen_Inr_iff split: if_splits dest!: stream_read_written)
  note round = this
  consider f where "TCPSender_send_one_byte_segment (s\<lparr>sd_probing := True\<rparr>) f = Inr s'"
    | brk where "while_loop (\<lambda>(s, brk). \<not> brk \<and> TCPSender_next_seqno_absolute s \<le> sd_window_right s)
        TCPSender_fill_window_round (s, False) = Inr (s', brk)"
    using assms by (auto simp: TCPSender_fill_window_def andthen_Inr_iff split: if_splits)
  then show ?thesis
  proof cases
    case 1
    then show ?thesis by (auto dest!: one_byte_written)
  next
    case 2
    from while_loop_keeps[where I = "\<lambda>u. bs_written (sd_stream (fst u)) = bs_written (sd_stream s)", OF 2] round show ?thesis by simp
  qed
qed

lemma ack_received_written:
  assumes "TCPSender_ack_received s a win = Inr s'"
  shows "bs_written (sd_stream s') = bs_written (sd_stream s)"
proof -
  have round: "sd_stream (fst v) = sd_stream (fst u)" if "TCPSender_ack_round x u = Inr v" for x u v
    using that by (cases u) (auto simp: TCPSender_ack_round_def Let_def andthen_Inr_iff split: if_splits list.splits)
  have loop: "sd_stream t = sd_stream u"
    if "while_loop (\<lambda>(s, rm, brk). \<not> brk \<and> sd_outstandings s \<noteq> []) (TCPSender_ack_round x) (u, r, b) = Inr (t, r', b')" for x u r b t r' b'
    using while_loop_keeps[where I = "\<lambda>v. sd_stream (fst v) = sd_stream u", OF that] round by simp
  obtain x where x: "unwrap a (sd_isn s) (ByteStream_bytes_read (sd_stream s)) = Inr x"
    using assms by (auto simp: TCPSender_ack_received_def andthen_Inr_iff)
  show ?thesis
  proof (cases "TCPSender_next_seqno_absolute s < x")
    case False
    define s1 where "s1 = s\<lparr>sd_window := ucast win, sd_window_right :=
      (if sd_window_right s < x + ucast win - 1 then x + ucast win - 1 else sd_window_right s)\<rparr>"
    obtain t r b where l: "while_loop (\<lambda>(s, rm, brk). \<not> brk \<and> sd_outstandings s \<noteq> []) (TCPSender_ack_round x) (s1, False, False) = Inr (t, r, b)"
      and s': "sd_stream s' = sd_stream t"
      using assms False unfolding TCPSender_ack_received_def x s1_def Let_def
      by (auto simp: andthen_Inr_iff simp del: while_loop_False)
    show ?thesis using loop[OF l] s' by (simp add: s1_def)
  qed (use assms in \<open>simp add: TCPSender_ack_received_def x\<close>)
qed

lemma seg_2_seg_written [simp]: "conn_written (seg_2_seg c) = conn_written c"
  by (simp add: seg_2_seg_def)

lemma set_stream_errors_written [simp]: "conn_written (set_stream_errors c) = conn_written c"
  by (simp add: set_stream_errors_def ByteStream_set_error_def Let_def)

lemma segment_received_written:
  assumes "TCPConnection_segment_received c seg = Inr c'"
  shows "conn_written c' = conn_written c"
proof -
  let ?h = "seg_header seg" and ?s = "cn_sender c"
  consider "TCPSender_next_seqno_absolute ?s = 0 \<and> th_ack ?h"
    | "\<not> (TCPSender_next_seqno_absolute ?s = 0 \<and> th_ack ?h)" "th_rst ?h"
    | "\<not> (TCPSender_next_seqno_absolute ?s = 0 \<and> th_ack ?h)" "\<not> th_rst ?h" by blast
  then show ?thesis
  proof cases
    case 3
    define c0 where "c0 = c\<lparr>cn_time_since_last_segment_received := 0\<rparr>"
    define c1 where "c1 = (if th_fin ?h \<and> (\<not> ByteStream_eof (sd_stream ?s) \<or>
        TCPSender_next_seqno_absolute ?s < ByteStream_bytes_written (sd_stream ?s) + 2)
        then c0\<lparr>cn_linger_after_streams_finish := False\<rparr> else c0)"
    have c0: "cn_sender c0 = ?s" and c1: "cn_sender c1 = ?s" by (simp_all add: c1_def c0_def)
    define s3 where "s3 = (\<lambda>s2. if 0 < TCPSegment_length_in_sequence_space seg \<and> sd_segments_out s2 = []
        then TCPSender_send_empty_segment s2 else s2)"
    define s4 where "s4 = (\<lambda>r s2. case TCPReceiver_ackno r of None \<Rightarrow> s3 s2 | Some a \<Rightarrow>
        if TCPSegment_length_in_sequence_space seg = 0 \<and> th_seqno ?h = wrapping_minus a 1 \<and> sd_segments_out (s3 s2) = []
        then TCPSender_send_empty_segment (s3 s2) else s3 s2)"
    have s4: "bs_written (sd_stream (s4 r t)) = bs_written (sd_stream t)" for r t
      by (simp add: s4_def s3_def TCPSender_send_empty_segment_def split: option.split)
    have "\<exists>r s1 s2. (if th_ack ?h then andthen (TCPSender_ack_received ?s (th_ackno ?h) (th_win ?h)) TCPSender_fill_window
        else Inr ?s) = Inr s1 \<and>
      (if TCPSender_next_seqno_absolute s1 = 0 \<and> TCPReceiver_ackno r \<noteq> None then TCPSender_fill_window s1 else Inr s1) = Inr s2 \<and>
      c' = seg_2_seg (c1\<lparr>cn_receiver := r, cn_sender := s4 r s2\<rparr>)"
      using assms(1) unfolding TCPConnection_segment_received_def Let_def c0_def[symmetric]
      by (simp only: c0 if_not_P[OF 3(1)] if_not_P[OF 3(2)] c1_def[symmetric] c1 andthen_Inr_iff s3_def[symmetric]
          s4_def[symmetric] sum.inject) (unfold s4_def s3_def, blast)
    then obtain r s1 s2 where s1: "(if th_ack ?h then andthen (TCPSender_ack_received ?s (th_ackno ?h) (th_win ?h)) TCPSender_fill_window
        else Inr ?s) = Inr s1"
      and s2: "(if TCPSender_next_seqno_absolute s1 = 0 \<and> TCPReceiver_ackno r \<noteq> None then TCPSender_fill_window s1 else Inr s1) = Inr s2"
      and c': "c' = seg_2_seg (c1\<lparr>cn_receiver := r, cn_sender := s4 r s2\<rparr>)" by blast
    have "bs_written (sd_stream s1) = conn_written c"
      using s1 by (auto simp: andthen_Inr_iff split: if_splits dest!: fill_window_written ack_received_written)
    moreover have "bs_written (sd_stream s2) = bs_written (sd_stream s1)"
      using s2 by (auto split: if_splits dest!: fill_window_written)
    ultimately show ?thesis using s4 c' by simp
  qed (use assms in \<open>auto simp: TCPConnection_segment_received_def Let_def\<close>)
qed

lemma conn_tick_written [simp]: "conn_written (TCPConnection_tick c ms) = conn_written c"
proof -
  have "sd_stream (TCPSender_tick s ms) = sd_stream s" for s by (simp add: TCPSender_tick_def Let_def)
  then show ?thesis
    by (simp add: TCPConnection_tick_def Let_def TCPSender_send_empty_segment_RST_def)
qed

lemma end_input_written: "TCPConnection_end_input_stream c = Inr c' \<Longrightarrow> conn_written c' = conn_written c"
  by (auto simp: TCPConnection_end_input_stream_def Let_def andthen_Inr_iff ByteStream_end_input_def dest!: fill_window_written)

lemma connect_written: "TCPConnection_connect c = Inr c' \<Longrightarrow> conn_written c' = conn_written c"
  by (auto simp: TCPConnection_connect_def andthen_Inr_iff dest!: fill_window_written)

lemma room_bound: "bs_wf st \<Longrightarrow> bs_room st < 2 ^ 31"
  by (auto simp: bs_wf_def bs_room_def)

text \<open>A write that fits is accepted whole.\<close>

lemma conn_write_takes:
  assumes inv: "sd_inv zs (cn_sender c)" and fits: "length d \<le> bs_room (sd_stream (cn_sender c))"
    and run: "TCPConnection_write c d = Inr (n, c1)"
  shows "n = size_of d \<and> conn_written c1 = conn_written c + of_nat (length d)"
proof -
  have wf: "bs_wf (sd_stream (cn_sender c))" using inv by (auto simp: sd_inv_def intro: stream_inv_facts)
  have "length d < 2 ^ 63" using fits room_bound[OF wf] by simp
  from write_spec[OF wf this] fits run show ?thesis
    by (auto simp: TCPConnection_write_def andthen_Inr_iff size_of_def min_def split: if_splits dest!: fill_window_written)
qed

lemma take_in:
  assumes inv: "conn_inv zs ys pisn c" and d: "length d \<le> unat (TCPConnection_remaining_outbound_capacity c)"
    "d = slice zs (unat (conn_written c)) (length d)" "unat (conn_written c) + length d \<le> length zs"
  shows "\<exists>c1. TCPConnection_write c d = Inr (size_of d, c1) \<and> conn_inv zs ys pisn c1 \<and>
    unat (conn_written c1) = unat (conn_written c) + length d"
proof -
  have sinv: "sd_inv zs (cn_sender c)" using inv by (simp add: conn_inv_def)
  have wf: "bs_wf (sd_stream (cn_sender c))" and small: "length zs + 2 < 2 ^ 31"
    using sinv by (auto simp: sd_inv_def sd_stream_inv_def intro: stream_inv_facts)
  have lim: "length d \<le> bs_room (sd_stream (cn_sender c))"
    using remaining_capacity_room[OF wf] d(1) by (simp add: TCPConnection_remaining_outbound_capacity_def)
  obtain n c1 where wr: "TCPConnection_write c d = Inr (n, c1)" "conn_adv zs ys pisn 0 c c1"
    using write_adv[OF inv, of "length d" 0] d(2) by auto
  have took: "n = size_of d" "conn_written c1 = conn_written c + of_nat (length d)"
    using conn_write_takes[OF sinv lim wr(1)] by auto
  have "unat (conn_written c) + length d < 2 ^ 32" using d(3) small by simp
  then have "unat (conn_written c1) = unat (conn_written c) + length d"
    unfolding took(2) by (subst unat_add_u32) (simp_all add: unat_of_nat_u32)
  then show ?thesis using wr took(1) by (auto simp: conn_adv_def)
qed

end
