(* ===== verification/Socket_Correct.thy ===== *)
theory Socket_Correct
  imports Socket_Steps Connection_Written
begin

text \<open>
  A \<open>TCPSpongeSocket\<close> drives its connection as an endpoint may be driven: each of its steps is a sequence of steps of
  an \<open>endpoint\<close>, so what holds of two endpoints and a network holds of the pipes of two sockets.
\<close>

section \<open>Callbacks are steps of an endpoint\<close>

text \<open>The endpoint a socket is, and what ties the pipe to the connection.\<close>

definition ep_of :: "'k reading \<Rightarrow> ('a, 'k) sock_world \<Rightarrow> endpoint" where
  "ep_of g = (\<lambda>(s, k). \<lparr>ep_conn = the (so_tcp s), ep_sent = of_given g k, ep_got = of_taken g k\<rparr>)"

definition linked :: "'k reading \<Rightarrow> bytes \<Rightarrow> ('a, 'k) sock_world \<Rightarrow> bool" where
  "linked g zs = (\<lambda>(s, k). so_tcp s \<noteq> None \<and> of_stream g k = zs \<and>
     of_supplied g k = unat (conn_written (the (so_tcp s))) \<and> (fd_eof (so_thread_data s) \<longrightarrow> of_supplied g k = length zs))"

lemma transmit_all:
  assumes law: "adapter_law env g" and "cn_segments_out (ep_conn e) = segs" and "rule4_loop env segs a k = Inr (a', k')"
    and "ep_sent e = of_given g k" and "ep_got e = of_taken g k"
  shows "(ep_step zs inc)\<^sup>*\<^sup>* e \<lparr>ep_conn = (ep_conn e)\<lparr>cn_segments_out := []\<rparr>, ep_sent = of_given g k', ep_got = of_taken g k'\<rparr> \<and>
    of_stream g k' = of_stream g k \<and> of_supplied g k' = of_supplied g k"
  using assms(2-5)
proof (induction segs arbitrary: e a k)
  case Nil
  have "(ep_conn e)\<lparr>cn_segments_out := []\<rparr> = ep_conn e" using Nil.prems(1) by (cases "ep_conn e") simp
  then have "\<lparr>ep_conn = (ep_conn e)\<lparr>cn_segments_out := []\<rparr>, ep_sent = of_given g k', ep_got = of_taken g k'\<rparr> = e"
    using Nil.prems(2-4) by (cases e) simp
  then show ?case using Nil.prems(2) by simp
next
  case (Cons seg segs)
  then obtain a1 k1 where w: "en_adapter_write env a seg k = Inr (a1, k1)" "rule4_loop env segs a1 k1 = Inr (a', k')"
    by (auto simp: andthen_Inr_iff)
  have k1: "of_given g k1 = insert seg (of_given g k)" "of_stream g k1 = of_stream g k" "of_supplied g k1 = of_supplied g k"
    "of_taken g k1 = of_taken g k"
    using law w(1) unfolding adapter_law_def by blast+
  define e1 where "e1 = e\<lparr>ep_conn := (ep_conn e)\<lparr>cn_segments_out := segs\<rparr>, ep_sent := insert seg (ep_sent e)\<rparr>"
  have "ep_step zs inc e e1" unfolding e1_def by (rule ep_transmit) (rule Cons.prems(1))
  moreover have "(ep_step zs inc)\<^sup>*\<^sup>* e1 \<lparr>ep_conn = (ep_conn e1)\<lparr>cn_segments_out := []\<rparr>, ep_sent = of_given g k', ep_got = of_taken g k'\<rparr> \<and>
      of_stream g k' = of_stream g k1 \<and> of_supplied g k' = of_supplied g k1"
    by (rule Cons.IH[OF _ w(2)]) (use Cons.prems k1 in \<open>simp_all add: e1_def\<close>)
  ultimately show ?case using k1 by (auto simp: e1_def intro: converse_rtranclp_into_rtranclp)
qed

text \<open>Rule 2 writes what it reads, all of it, and closes the outbound stream at the end of the owner's.\<close>

lemma rule2_sim:
  assumes law: "lawful env g" and lk: "linked g zs (s, k)" and inv: "conn_inv zs ys pisn (the (so_tcp s))"
  shows "case rule2_callback env (s, k) of Inl f \<Rightarrow> \<exists>e. f = UnixError ''read'' e
    | Inr w' \<Rightarrow> (ep_step zs inc)\<^sup>*\<^sup>* (ep_of g (s, k)) (ep_of g w') \<and> linked g zs w'"
proof -
  obtain c where c: "so_tcp s = Some c" using lk by (auto simp: linked_def)
  let ?td = "so_thread_data s" and ?limit = "TCPConnection_remaining_outbound_capacity c"
  have cinv: "conn_inv zs ys pisn c" using inv c by simp
  have sup: "of_stream g k = zs" "of_supplied g k = unat (conn_written c)" "fd_eof ?td \<longrightarrow> of_supplied g k = length zs"
    using lk c by (auto simp: linked_def)
  obtain answer k1 where r: "en_read env (fd_fd ?td) (min BUFFER_SIZE ?limit) k = (answer, k1)" by (metis surj_pair)
  from pipe_read[OF law r, of ?td, unfolded sup(1)] consider (fail) e where "FileDescriptor_read ?td ?limit answer = Inl (UnixError ''read'' e)"
    | (ok) d where "FileDescriptor_read ?td ?limit answer =
          Inr (d, ?td\<lparr>fd_eof := (fd_eof ?td \<or> 0 < ?limit \<and> d = []), fd_read_count := fd_read_count ?td + 1\<rparr>)"
        "length d \<le> unat ?limit" "d = slice zs (of_supplied g k) (length d)" "of_supplied g k1 = of_supplied g k + length d"
        "of_supplied g k1 \<le> length zs" "0 < ?limit \<and> d = [] \<longrightarrow> of_supplied g k = length zs"
        "of_stream g k1 = zs" "of_taken g k1 = of_taken g k" "of_given g k1 = of_given g k" by blast
  then show ?thesis
  proof cases
    case fail
    then show ?thesis using r by (simp add: rule2_callback.simps with_tcp_def c Let_def)
  next
    case (ok d)
    define td where "td = ?td\<lparr>fd_eof := (fd_eof ?td \<or> 0 < ?limit \<and> d = []), fd_read_count := fd_read_count ?td + 1\<rparr>"
    obtain c1 where wr: "TCPConnection_write c d = Inr (size_of d, c1)" and c1: "conn_inv zs ys pisn c1"
      "unat (conn_written c1) = of_supplied g k1"
      using take_in[OF cinv ok(2)] ok(3-5) sup(2) by auto
    have step: "ep_step zs inc (ep_of g (s, k)) ((ep_of g (s, k))\<lparr>ep_conn := c1\<rparr>)"
      using wr ok(3) sup(2) c by (intro ep_write[where n = "length d"]) (simp add: ep_of_def)
    have eof: "fd_eof td \<longrightarrow> of_supplied g k1 = length zs" using ok(4-6) sup(3) by (auto simp: td_def)
    have ends: ?thesis if C: "rule2_callback env (s, k) = Inr (s', k1)" "so_tcp s' = Some cx" "so_thread_data s' = td"
      "conn_written cx = conn_written c1" "(ep_step zs inc)\<^sup>*\<^sup>* ((ep_of g (s, k))\<lparr>ep_conn := c1\<rparr>) ((ep_of g (s, k))\<lparr>ep_conn := cx\<rparr>)" for s' cx
    proof -
      have "ep_of g (s', k1) = (ep_of g (s, k))\<lparr>ep_conn := cx\<rparr>" using C(2) ok(8,9) by (simp add: ep_of_def)
      moreover have "linked g zs (s', k1)" using C(2-4) ok(7) c1(2) eof by (simp add: linked_def)
      ultimately show ?thesis using step C(1,5) by (auto intro: converse_rtranclp_into_rtranclp)
    qed
    show ?thesis
    proof (cases "fd_eof td")
      case True
      have all: "unat (conn_written c1) = length zs" using eof True c1(2) by simp
      obtain c2 where cl: "TCPConnection_end_input_stream c1 = Inr c2" using end_input_adv[OF c1(1) all, of 0] by blast
      show ?thesis
        by (rule ends[where cx = c2 and s' = "s\<lparr>so_thread_data := td, so_tcp := Some c2, so_outbound_shutdown := True\<rparr>"])
          (use r ok(1)[folded td_def] wr True cl end_input_written[OF cl] ep_close[of "(ep_of g (s, k))\<lparr>ep_conn := c1\<rparr>" zs c2 inc] all
            in \<open>simp_all add: rule2_callback.simps with_tcp_def c Let_def r_into_rtranclp\<close>)
    next
      case False
      show ?thesis
        by (rule ends[where cx = c1 and s' = "s\<lparr>so_thread_data := td, so_tcp := Some c1\<rparr>"])
          (use r ok(1)[folded td_def] wr False in \<open>simp_all add: rule2_callback.simps with_tcp_def c Let_def\<close>)
    qed
  qed
qed

lemma inbound_wf: "rx_ok ys pisn (cn_receiver c) \<Longrightarrow> bs_wf (TCPConnection_inbound_stream c)"
  by (auto simp: rx_inv_def sr_inv_def sr_core_def bs_linear_def TCPConnection_inbound_stream_def TCPReceiver_stream_out_def)

text \<open>Taking \<open>n\<close> bytes from the inbound stream is a read of an endpoint.\<close>

lemma inbound_pop:
  assumes rx: "rx_ok ys pisn (cn_receiver c)" and n: "n \<le> length (bs_buffer (TCPConnection_inbound_stream c))"
  shows "\<exists>st. ByteStream_pop_output (TCPConnection_inbound_stream c) (of_nat n) = Inr st \<and>
    rx_read (cn_receiver c) (of_nat n) = Inr (take n (bs_buffer (TCPConnection_inbound_stream c)), cn_receiver (set_inbound c st))"
proof -
  note wf = inbound_wf[OF rx]
  have "unat (of_nat n :: size_t) = n" using n bs_wf_length[OF wf] by (simp add: unat_of_nat_u64)
  then show ?thesis
    using n wf[unfolded TCPConnection_inbound_stream_def]
    by (simp add: pop_output_spec rx_read_def read_spec set_inbound_def TCPConnection_inbound_stream_def min_def)
qed

lemma rule3_sim:
  assumes law: "lawful env g" and lk: "linked g zs (s, k)" and inv: "conn_inv zs ys pisn (the (so_tcp s))"
  shows "case rule3_callback env (s, k) of Inl f \<Rightarrow> \<exists>call e. f = UnixError call e
    | Inr w' \<Rightarrow> (ep_step zs inc)\<^sup>*\<^sup>* (ep_of g (s, k)) (ep_of g w') \<and> linked g zs w'"
proof -
  obtain c where c: "so_tcp s = Some c" using lk by (auto simp: linked_def)
  let ?in = "TCPConnection_inbound_stream c" and ?td = "so_thread_data s"
  have rx: "rx_ok ys pisn (cn_receiver c)" using inv c by (simp add: conn_inv_def)
  define buf where "buf = ByteStream_peek_output ?in (min 65536 (ByteStream_buffer_size ?in))"
  have blen: "length buf \<le> length (bs_buffer ?in)" and btake: "\<And>n. n \<le> length buf \<Longrightarrow> take n buf = take n (bs_buffer ?in)"
    and b63: "length buf < 2 ^ 63"
    using peek_bound by (simp_all add: buf_def ByteStream_peek_output_def)
  from pipe_write[OF law b63, of ?td k] consider
    (fail) e where "FileDescriptor_write (en_writev env) ?td [buf] False k = Inl (UnixError ''writev'' e)"
    | (ok) n k1 where "FileDescriptor_write (en_writev env) ?td [buf] False k =
          Inr (of_nat n, ?td\<lparr>fd_write_count := fd_write_count ?td + 1\<rparr>, k1)" "n \<le> length buf"
        "of_taken g k1 = of_taken g k @ take n buf" "of_stream g k1 = of_stream g k" "of_supplied g k1 = of_supplied g k"
        "of_given g k1 = of_given g k" by blast
  then show ?thesis
  proof cases
    case fail
    then show ?thesis by (simp add: rule3_callback.simps with_tcp_def c Let_def buf_def[symmetric])
  next
    case (ok n k1)
    define td where "td = ?td\<lparr>fd_write_count := fd_write_count ?td + 1\<rparr>"
    obtain st where st: "ByteStream_pop_output ?in (of_nat n) = Inr st"
      "rx_read (cn_receiver c) (of_nat n) = Inr (take n (bs_buffer ?in), cn_receiver (set_inbound c st))"
      using inbound_pop[OF rx, of n] ok(2) blen by auto
    have ci: "c\<lparr>cn_receiver := cn_receiver (set_inbound c st)\<rparr> = set_inbound c st" by (simp add: set_inbound_def)
    have step: "ep_step zs inc (ep_of g (s, k)) ((ep_of g (s, k))\<lparr>ep_conn := set_inbound c st, ep_got := of_taken g k1\<rparr>)"
      using ep_read[of "ep_of g (s, k)" "of_nat n" _ _ zs inc] st(2) btake[OF ok(2)] ok(3) c ci by (simp add: ep_of_def)
    have ends: ?thesis if "rule3_callback env (s, k) = Inr (s', k')" "so_tcp s' = Some (set_inbound c st)"
      "fd_eof (so_thread_data s') = fd_eof ?td" "same_reading g k1 k'" for s' k'
      using that lk step ok(4-6) c by (auto simp: linked_def same_reading_def set_inbound_def ep_of_def)
    obtain answer k2 where sh: "en_shutdown env (fd_fd td) SHUT_WR k1 = (answer, k2)" by (metis surj_pair)
    have same2: "same_reading g k1 k2" using law sh unfolding lawful_def quiet_law_def by (metis snd_conv)
    let ?s1 = "s\<lparr>so_thread_data := td, so_tcp := Some (set_inbound c st)\<rparr>"
    note run = rule3_callback.simps with_tcp_def c Let_def buf_def[symmetric]
    show ?thesis
    proof (cases "ByteStream_eof st \<or> ByteStream_error st")
      case True
      have r: "rule3_callback env (s, k) = andthen (Socket_shutdown td SHUT_WR answer) (\<lambda>td1.
          Inr (?s1\<lparr>so_thread_data := td1, so_inbound_shutdown := True\<rparr>, k2))"
        using ok(1)[folded td_def] st(1) sh True by (simp add: run)
      show ?thesis using shutdown_outcome[of td answer]
      proof
        assume t: "Socket_shutdown td SHUT_WR answer = Inr (FileDescriptor_register_write td)"
        show ?thesis
          by (intro ends[OF r[unfolded t andthen_simps]]) (simp_all add: same2 td_def FileDescriptor_register_write_def)
      qed (simp add: r)
    next
      case False
      then have "rule3_callback env (s, k) = Inr (?s1, k1)" using ok(1)[folded td_def] st(1) by (simp add: run)
      then show ?thesis by (rule ends) (simp_all add: td_def same_reading_def)
    qed
  qed
qed

lemma rule1_sim:
  assumes law: "lawful env g" and lk: "linked g zs (s, k)" and inv: "conn_inv zs ys pisn (the (so_tcp s))"
    and inc: "\<And>m. m \<in> inc \<Longrightarrow> seg_ok ys pisn (sd_isn (cn_sender (the (so_tcp s)))) Q m" and Q: "Q \<le> length zs + 2"
    and read: "\<And>seg a k'. en_adapter_read env (so_adapter s) k = Inr (Some seg, a, k') \<Longrightarrow> \<exists>m\<in>inc. alike m seg"
  shows "case rule1_callback env (s, k) of Inl f \<Rightarrow> en_adapter_read env (so_adapter s) k = Inl f
    | Inr w' \<Rightarrow> (ep_step zs inc)\<^sup>*\<^sup>* (ep_of g (s, k)) (ep_of g w') \<and> linked g zs w'"
proof (cases "en_adapter_read env (so_adapter s) k")
  case (Inl f)
  then show ?thesis by (simp add: rule1_callback.simps)
next
  case (Inr x)
  then obtain seg a k1 where r: "en_adapter_read env (so_adapter s) k = Inr (seg, a, k1)" by (cases x) auto
  have same: "same_reading g k k1" using law r unfolding lawful_def adapter_law_def by blast
  obtain c where c: "so_tcp s = Some c" using lk by (auto simp: linked_def)
  have "\<exists>c1. (case seg of None \<Rightarrow> Inr c | Some m \<Rightarrow> TCPConnection_segment_received c m) = Inr c1 \<and> conn_written c1 = conn_written c \<and>
      (ep_step zs inc)\<^sup>*\<^sup>* (ep_of g (s, k)) ((ep_of g (s, k))\<lparr>ep_conn := c1\<rparr>)"
  proof (cases seg)
    case None
    then show ?thesis using c by (simp add: ep_of_def)
  next
    case (Some m)
    obtain m0 where m0: "m0 \<in> inc" "alike m0 m" using read r Some by blast
    obtain c1 where c1: "TCPConnection_segment_received c m = Inr c1"
      using conn_receive_adv[OF inv alike_ok[OF m0(2) inc[OF m0(1)]] Q] c by auto
    have "ep_step zs inc (ep_of g (s, k)) ((ep_of g (s, k))\<lparr>ep_conn := c1\<rparr>)"
      by (rule ep_receive[OF m0]) (use c c1 in \<open>simp add: ep_of_def\<close>)
    then show ?thesis using Some c1 segment_received_written[OF c1] by auto
  qed
  then obtain c1 where c1: "(case seg of None \<Rightarrow> Inr c | Some m \<Rightarrow> TCPConnection_segment_received c m) = Inr c1"
    "conn_written c1 = conn_written c" "(ep_step zs inc)\<^sup>*\<^sup>* (ep_of g (s, k)) ((ep_of g (s, k))\<lparr>ep_conn := c1\<rparr>)" by blast
  obtain s' where s': "rule1_callback env (s, k) = Inr (s', k1)" "so_tcp s' = Some c1" "so_thread_data s' = so_thread_data s"
    using r c1(1) by (simp add: rule1_callback.simps with_tcp_def c Let_def)
  have "ep_of g (s', k1) = (ep_of g (s, k))\<lparr>ep_conn := c1\<rparr>" using s' same by (simp add: ep_of_def same_reading_def)
  moreover have "linked g zs (s', k1)" using lk s' same c1(2) c by (auto simp: linked_def same_reading_def)
  ultimately show ?thesis using s'(1) c1(3) by simp
qed

lemma rule4_sim:
  assumes law: "lawful env g" and lk: "linked g zs (s, k)" and run: "rule4_callback env (s, k) = Inr w'"
  shows "(ep_step zs inc)\<^sup>*\<^sup>* (ep_of g (s, k)) (ep_of g w') \<and> linked g zs w'"
proof -
  obtain c where c: "so_tcp s = Some c" using lk by (auto simp: linked_def)
  obtain a k1 where r: "rule4_loop env (cn_segments_out c) (so_adapter s) k = Inr (a, k1)"
    "w' = (s\<lparr>so_adapter := a, so_tcp := Some (c\<lparr>cn_segments_out := []\<rparr>)\<rparr>, k1)"
    using run c by (auto simp: rule4_callback.simps with_tcp_def andthen_Inr_iff)
  have "adapter_law env g" using law by (simp add: lawful_def)
  from transmit_all[OF this _ r(1), of "ep_of g (s, k)" zs inc] show ?thesis
    using lk c by (auto simp: r(2) ep_of_def linked_def)
qed

lemma rule4_loop_fails: "rule4_loop env segs a k = Inl f \<Longrightarrow> \<exists>a seg k. en_adapter_write env a seg k = Inl f"
proof (induction segs arbitrary: a k)
  case (Cons seg segs)
  then show ?case by (cases "en_adapter_write env a seg k") auto
qed simp

lemma rule4_fails:
  assumes "linked g zs (s, k)" and "rule4_callback env (s, k) = Inl f"
  shows "\<exists>a seg k. en_adapter_write env a seg k = Inl f"
proof -
  obtain c where c: "so_tcp s = Some c" using assms(1) by (auto simp: linked_def)
  show ?thesis
  proof (cases "rule4_loop env (cn_segments_out c) (so_adapter s) k")
    case (Inl e)
    then show ?thesis using assms(2) c rule4_loop_fails[OF Inl] by (simp add: rule4_callback.simps with_tcp_def)
  next
    case (Inr x)
    then show ?thesis using assms(2) c by (cases x) (simp add: rule4_callback.simps with_tcp_def)
  qed
qed

lemma sock_step_sim:
  assumes law: "lawful env g" and lk: "linked g zs w" and inv: "ep_inv zs ys pisn (ep_of g w)"
    and inc: "\<And>m. m \<in> inc \<Longrightarrow> seg_ok ys pisn (ep_isn (ep_of g w)) Q m" and Q: "Q \<le> length zs + 2"
    and step: "sock_step env g inc w w'"
  shows "(ep_step zs inc)\<^sup>*\<^sup>* (ep_of g w) (ep_of g w') \<and> linked g zs w'"
proof -
  have cinv: "conn_inv zs ys pisn (the (so_tcp (fst w)))" using inv by (cases w) (simp add: ep_inv_def ep_of_def)
  have quiet: "ep_of g (s, k') = ep_of g (s, k) \<and> (linked g zs (s, k) \<longrightarrow> linked g zs (s, k'))" if "same_reading g k k'" for s k k'
    using that by (auto simp: ep_of_def linked_def same_reading_def)
  from step show ?thesis
  proof cases
    case (run1 s k)
    show ?thesis using rule1_sim[OF law, of zs s k ys pisn inc Q] lk cinv inc Q run1 by (simp add: ep_of_def)
  next
    case run2
    then show ?thesis using rule2_sim[OF law, of zs "fst w" "snd w" ys pisn inc] lk cinv by simp
  next
    case (over2 s k)
    obtain c c1 where c: "so_tcp s = Some c" and r: "TCPConnection_end_input_stream c = Inr c1"
      "w' = (s\<lparr>so_tcp := Some c1, so_outbound_shutdown := True\<rparr>, k)"
      using over2 lk by (auto simp: linked_def rule2_cancel.simps with_tcp_def andthen_Inr_iff)
    have all: "unat (conn_written c) = length zs" using lk over2 c by (auto simp: linked_def)
    have "ep_step zs inc (ep_of g w) ((ep_of g w)\<lparr>ep_conn := c1\<rparr>)"
      by (rule ep_close) (use all r c over2(1) in \<open>simp_all add: ep_of_def\<close>)
    then show ?thesis using lk r c over2(1) end_input_written[OF r(1)] by (auto simp: ep_of_def linked_def)
  next
    case run3
    then show ?thesis using rule3_sim[OF law, of zs "fst w" "snd w" ys pisn inc] lk cinv by simp
  next
    case run4
    then show ?thesis using rule4_sim[OF law, of zs "fst w" "snd w" w' inc] lk by simp
  next
    case (ticks s c ms k a k')
    have same: "same_reading g k k'" using law ticks(4) unfolding lawful_def adapter_law_def by blast
    have "ep_step zs inc (ep_of g w) ((ep_of g w)\<lparr>ep_conn := TCPConnection_tick (ep_conn (ep_of g w)) ms\<rparr>)" by (rule ep_tick)
    then show ?thesis using lk ticks(1-3) same by (auto simp: ep_of_def linked_def same_reading_def)
  next
    case (opens s c c1 k)
    have "ep_step zs inc (ep_of g w) ((ep_of g w)\<lparr>ep_conn := c1\<rparr>)"
      by (rule ep_connect) (use opens in \<open>simp add: ep_of_def\<close>)
    then show ?thesis using lk opens connect_written[OF opens(4)] by (auto simp: ep_of_def linked_def)
  next
    case (outside k k' s)
    from quiet[OF outside(3), of s] show ?thesis using lk outside(1,2) by simp
  qed
qed

section \<open>Two sockets\<close>

text \<open>
  A socket with a new connection and an owner whose stream is \<open>zs\<close>; and the two sockets of a connection with
  everything that can happen to them, each reading what the other has handed over.
\<close>

definition fresh :: "'k reading \<Rightarrow> TCPConfig \<Rightarrow> u32 \<Rightarrow> bytes \<Rightarrow> ('a, 'k) sock_world \<Rightarrow> bool" where
  "fresh g cfg rnd zs = (\<lambda>(s, k). so_tcp s = Some (TCPConnection_new cfg rnd) \<and> \<not> fd_eof (so_thread_data s) \<and>
     of_stream g k = zs \<and> of_supplied g k = 0 \<and> of_taken g k = [] \<and> of_given g k = {})"

abbreviation sockets_reach ::
  "('a, 'k) sock_env \<Rightarrow> 'k reading \<Rightarrow> bytes \<Rightarrow> bytes \<Rightarrow> ('a, 'k) sock_world \<times> ('a, 'k) sock_world \<Rightarrow>
    ('a, 'k) sock_world \<times> ('a, 'k) sock_world \<Rightarrow> bool" where
  "sockets_reach env g \<equiv> duplex_reach (\<lambda>zs. sock_step env g) (\<lambda>w. of_given g (snd w))"

lemma fresh_endpoint:
  "fresh g cfg rnd zs w \<Longrightarrow> ep_of g w = ep_new cfg rnd \<and> linked g zs w"
  by (auto simp: fresh_def ep_of_def ep_new_def linked_def TCPConnection_new_def TCPSender_new_def ByteStream_new_def)

lemma sent_ep_of: "ep_sent (ep_of g w) = of_given g (snd w)" "ep_got (ep_of g w) = of_taken g (snd w)"
  "ep_conn (ep_of g w) = the (so_tcp (fst w))"
  by (simp_all add: ep_of_def case_prod_beta)

lemma sockets_sim:
  assumes law: "lawful env g" and sz: "sized xs ys cl" "sized ys xs cr"
    and start: "fresh g cl u xs (fst p)" "fresh g cr v ys (snd p)"
    and "sockets_reach env g xs ys p q"
  shows "duplex_reach ep_step ep_sent xs ys (ep_new cl u, ep_new cr v) (ep_of g (fst q), ep_of g (snd q)) \<and>
    linked g xs (fst q) \<and> linked g ys (snd q)"
  using assms(6)
proof induction
  case start
  then show ?case using fresh_endpoint[OF assms(4)] fresh_endpoint[OF assms(5)] by (simp add: duplex_reach.start)
next
  case (move q q')
  obtain l r where q: "q = (l, r)" by (cases q)
  have reach: "duplex_reach ep_step ep_sent xs ys (ep_new cl u, ep_new cr v) (ep_of g l, ep_of g r)"
    and lk: "linked g xs l" "linked g ys r" using move.IH by (simp_all add: q)
  have both: "ep_inv xs ys (ep_isn (ep_of g r)) (ep_of g l)" "ep_inv ys xs (ep_isn (ep_of g l)) (ep_of g r)"
    using duplex_both[OF sz reach] by (simp_all add: tcp.both_def)
  from move.hyps(2)[unfolded q] show ?case
  proof cases
    case (left l')
    have "(ep_step xs (ep_sent (ep_of g r)))\<^sup>*\<^sup>* (ep_of g l) (ep_of g l') \<and> linked g xs l'"
      by (rule sock_step_sim[OF law lk(1) both(1) tcp.sent_ok[OF both(2)] tcp.pos_limit[OF both(2)] left(2)[folded sent_ep_of(1)]])
    then show ?thesis using reach_left[OF _ reach] lk left(1) by simp
  next
    case (right r')
    have "(ep_step ys (ep_sent (ep_of g l)))\<^sup>*\<^sup>* (ep_of g r) (ep_of g r') \<and> linked g ys r'"
      by (rule sock_step_sim[OF law lk(2) both(2) tcp.sent_ok[OF both(1)] tcp.pos_limit[OF both(1)] right(2)[folded sent_ep_of(1)]])
    then show ?thesis using reach_right[OF _ reach] lk right(1) by simp
  qed
qed

text \<open>A socket has what its endpoint has.\<close>

abbreviation inbound :: "('a, 'k) sock_world \<Rightarrow> ByteStream" where
  "inbound w \<equiv> TCPConnection_inbound_stream (the (so_tcp (fst w)))"

lemma sockets_both:
  assumes "lawful env g" and "sized xs ys cl" and "sized ys xs cr" and "fresh g cl u xs l0" and "fresh g cr v ys r0"
    and "sockets_reach env g xs ys (l0, r0) (l, r)"
  shows "ep_inv xs ys (ep_isn (ep_of g r)) (ep_of g l)" and "ep_inv ys xs (ep_isn (ep_of g l)) (ep_of g r)"
    and "linked g xs l" and "linked g ys r"
proof -
  have S: "duplex_reach ep_step ep_sent xs ys (ep_new cl u, ep_new cr v) (ep_of g l, ep_of g r) \<and> linked g xs l \<and> linked g ys r"
    using sockets_sim[OF assms(1-3), where p = "(l0, r0)" and q = "(l, r)"] assms(4-6) by simp
  then show "linked g xs l" "linked g ys r" by simp_all
  show "ep_inv xs ys (ep_isn (ep_of g r)) (ep_of g l)" "ep_inv ys xs (ep_isn (ep_of g l)) (ep_of g r)"
    using duplex_both[OF assms(2,3)] S by (auto simp: tcp.both_def)
qed

lemma socket_delivered:
  assumes "ep_inv zs ys pisn (ep_of g w)"
  shows "\<exists>n\<le>length ys. of_taken g (snd w) @ bs_buffer (inbound w) = take n ys \<and> (ByteStream_input_ended (inbound w) \<longrightarrow> n = length ys)"
  using ep_delivered[OF assms] unfolding sent_ep_of by blast

lemma rule3_closes:
  assumes "rule3_callback env w = Inr w'" and "\<not> so_inbound_shutdown (fst w)" and "so_inbound_shutdown (fst w')"
  shows "ByteStream_eof (inbound w') \<or> ByteStream_error (inbound w')"
proof -
  obtain s k where w: "w = (s, k)" by (cases w)
  obtain c where c: "so_tcp s = Some c" using assms(1) w by (cases "so_tcp s") (auto simp: rule3_callback.simps with_tcp_def)
  have "TCPConnection_inbound_stream (set_inbound c st) = st" for st
    by (simp add: set_inbound_def TCPConnection_inbound_stream_def TCPReceiver_stream_out_def)
  note inb = this
  define buf where "buf = ByteStream_peek_output (TCPConnection_inbound_stream c)
    (min 65536 (ByteStream_buffer_size (TCPConnection_inbound_stream c)))"
  note run = rule3_callback.simps with_tcp_def w c Let_def buf_def[symmetric]
  obtain n td k1 st where wr: "FileDescriptor_write (en_writev env) (so_thread_data s) [buf] False k = Inr (n, td, k1)"
    "ByteStream_pop_output (TCPConnection_inbound_stream c) n = Inr st"
    using assms(1) by (auto simp: run andthen_Inr_iff)
  show ?thesis
  proof (cases "ByteStream_eof st \<or> ByteStream_error st")
    case True
    then show ?thesis using assms(1) wr inb by (auto simp: run andthen_Inr_iff case_prod_beta)
  next
    case False
    then show ?thesis using assms wr by (auto simp: run)
  qed
qed

section \<open>Executions\<close>

text \<open>
  What one of two sockets does in the world of \<open>world_env\<close>: connecting, its four rules, and reading the \<open>n\<close>th segment
  its peer has handed over. The flag says whether the left socket acts.
\<close>

datatype deed = Open | Receive nat | Supply | Deliver | Transmit

type_synonym world = "(FDWrapper, world_kernel) sock_world"

fun do_deed :: "deed \<Rightarrow> TCPSegment list \<Rightarrow> world \<Rightarrow> world result" where
  "do_deed Open inc (s, k) = with_tcp s (\<lambda>c. andthen (TCPConnection_connect c) (\<lambda>c1. Inr (s\<lparr>so_tcp := Some c1\<rparr>, k)))"
| "do_deed (Receive n) inc (s, k) =
     (if n < length inc then rule1_callback world_env (s, k\<lparr>wk_arriving := [inc ! n]\<rparr>) else Inl (OutOfRange ''Receive''))"
| "do_deed Supply inc w = rule2_callback world_env w"
| "do_deed Deliver inc w = rule3_callback world_env w"
| "do_deed Transmit inc w = rule4_callback world_env w"

fun do_side :: "bool \<times> deed \<Rightarrow> world \<times> world \<Rightarrow> (world \<times> world) result" where
  "do_side (left, d) (l, r) =
     (if left then andthen (do_deed d (wk_given (snd r)) l) (\<lambda>l1. Inr (l1, r))
      else andthen (do_deed d (wk_given (snd l)) r) (\<lambda>r1. Inr (l, r1)))"

fun do_deeds :: "(bool \<times> deed) list \<Rightarrow> world \<times> world \<Rightarrow> (world \<times> world) result" where
  "do_deeds [] q = Inr q"
| "do_deeds (d # ds) q = andthen (do_side d q) (do_deeds ds)"

lemma do_deed_steps:
  assumes "do_deed d inc w = Inr w'"
  shows "(sock_step world_env world_reading (set inc))\<^sup>*\<^sup>* w w'"
  using assms
proof (induction d inc w rule: do_deed.induct)
  case (1 inc s k)
  then obtain c c1 where "so_tcp s = Some c" "TCPConnection_connect c = Inr c1" "w' = (s\<lparr>so_tcp := Some c1\<rparr>, k)"
    by (auto simp: with_tcp_def andthen_Inr_iff split: option.splits)
  then show ?case by (auto intro: opens)
next
  case (2 n inc s k)
  let ?k = "k\<lparr>wk_arriving := [inc ! n]\<rparr>"
  have n: "n < length inc" and r: "rule1_callback world_env (s, ?k) = Inr w'" using 2 by (auto split: if_splits)
  have "sock_step world_env world_reading (set inc) (s, k) (s, ?k)"
    by (rule outside) (simp add: same_reading_def world_reading_def)
  moreover have "sock_step world_env world_reading (set inc) (s, ?k) w'"
    by (rule run1[OF r]) (use nth_mem[OF n] in \<open>auto simp: world_env_def intro: alike_refl\<close>)
  ultimately show ?case by auto
next
  case (3 inc w)
  then show ?case by (auto intro: run2)
next
  case (4 inc w)
  then show ?case by (auto intro: run3)
next
  case (5 inc w)
  then show ?case by (auto intro: run4)
qed

lemma do_side_reach:
  assumes "do_side d q = Inr q'" and "sockets_reach world_env world_reading xs ys p q"
  shows "sockets_reach world_env world_reading xs ys p q'"
proof -
  obtain left a l r where d: "d = (left, a)" and q: "q = (l, r)" by (cases d; cases q)
  have given: "of_given world_reading (snd w) = set (wk_given (snd w))" for w :: world by (simp add: world_reading_def)
  show ?thesis
  proof (cases left)
    case True
    with assms(1) obtain l1 where l1: "do_deed a (wk_given (snd r)) l = Inr l1" "q' = (l1, r)"
      by (auto simp: d q andthen_Inr_iff)
    show ?thesis unfolding l1(2) by (rule reach_left[OF _ assms(2)[unfolded q]]) (use do_deed_steps[OF l1(1)] given in simp)
  next
    case False
    with assms(1) obtain r1 where r1: "do_deed a (wk_given (snd l)) r = Inr r1" "q' = (l, r1)"
      by (auto simp: d q andthen_Inr_iff)
    show ?thesis unfolding r1(2) by (rule reach_right[OF _ assms(2)[unfolded q]]) (use do_deed_steps[OF r1(1)] given in simp)
  qed
qed

lemma do_deeds_reach:
  "do_deeds ds q = Inr q' \<Longrightarrow> sockets_reach world_env world_reading xs ys p q \<Longrightarrow> sockets_reach world_env world_reading xs ys p q'"
  by (induction ds arbitrary: q) (auto simp: andthen_Inr_iff simp del: do_side.simps dest: do_side_reach)

text \<open>The handshake, the owner's two bytes and the end of the owner's stream, from left to right.\<close>

definition new_world :: "u32 \<Rightarrow> bytes \<Rightarrow> world" where
  "new_world isn xs = (world_socket\<lparr>so_tcp := Some (TCPConnection_new (small_cfg isn) 0)\<rparr>, world_start xs 0)"

definition shipment :: "(bool \<times> deed) list" where
  "shipment = [(True, Open), (True, Transmit), (False, Receive 0), (False, Transmit), (True, Receive 0), (True, Supply),
     (True, Supply), (True, Transmit), (False, Receive 1), (False, Receive 2), (False, Receive 3)]"

lemma new_world_fresh: "fresh world_reading (small_cfg isn) 0 xs (new_world isn xs)"
  by (simp add: fresh_def new_world_def world_reading_def world_socket_def world_start_def world_fd_def)

lemma shipment_runs:
  "case do_deeds shipment (new_world 7 [1, 2], new_world 9 [3]) of Inl f \<Rightarrow> False
   | Inr (l, r) \<Rightarrow> \<not> so_inbound_shutdown (fst r) \<and>
       (case rule3_callback world_env r of Inl f \<Rightarrow> False
        | Inr r' \<Rightarrow> so_inbound_shutdown (fst r') \<and> \<not> ByteStream_error (inbound r') \<and> wk_taken (snd r') = [1, 2])"
  by code_simp

lemma shipment_reach:
  obtains l r r' where "sockets_reach world_env world_reading [1, 2] [3] (new_world 7 [1, 2], new_world 9 [3]) (l, r)"
    and "rule3_callback world_env r = Inr r'" and "\<not> so_inbound_shutdown (fst r)" and "so_inbound_shutdown (fst r')"
    and "\<not> ByteStream_error (inbound r')"
proof (cases "do_deeds shipment (new_world 7 [1, 2], new_world 9 [3])")
  case (Inl f)
  then show ?thesis using shipment_runs by simp
next
  case (Inr q)
  obtain l r where q: "q = (l, r)" by (cases q)
  have "sockets_reach world_env world_reading [1, 2] [3] (new_world 7 [1, 2], new_world 9 [3]) (l, r)"
    by (rule do_deeds_reach[OF Inr[unfolded q] duplex_reach.start])
  then show ?thesis using that shipment_runs unfolding Inr q by (auto split: sum.splits)
qed

lemmas shipment_fits = world_lawful transfer_sized new_world_fresh new_world_fresh

section \<open>Properties\<close>

text \<open>C6: Delivery from owner to owner. Two sockets run against the pipes to their owners and adapters that lose, repeat,
delay and reorder segments and may rewrite ports; reads and writes of the pipes may be as partial as they
like. At every moment what one socket has put into its owner's pipe, followed by what its inbound stream
holds, is a prefix of what the other owner writes, and all of it when the stream has ended.\<close>

theorem sockets_deliver:
  assumes "lawful env g" and "sized xs ys cl" and "sized ys xs cr" and "fresh g cl u xs l0" and "fresh g cr v ys r0"
    and "sockets_reach env g xs ys (l0, r0) (l, r)"
  shows "(\<exists>n\<le>length xs. of_taken g (snd r) @ bs_buffer (inbound r) = take n xs \<and> (ByteStream_input_ended (inbound r) \<longrightarrow> n = length xs)) \<and>
    (\<exists>n\<le>length ys. of_taken g (snd l) @ bs_buffer (inbound l) = take n ys \<and> (ByteStream_input_ended (inbound l) \<longrightarrow> n = length ys))"
  using socket_delivered sockets_both[OF assms] by blast

theorem sockets_deliver_witness:
  "\<exists>l r. sockets_reach world_env world_reading [1, 2] [3] (new_world 7 [1, 2], new_world 9 [3]) (l, r) \<and>
    (\<exists>n\<le>length ([1, 2] :: bytes). of_taken world_reading (snd r) @ bs_buffer (inbound r) = take n [1, 2] \<and>
      (ByteStream_input_ended (inbound r) \<longrightarrow> n = length ([1, 2] :: bytes)))"
  by (rule shipment_reach) (use sockets_deliver[OF shipment_fits] in blast)

text \<open>C7: End of file means everything. When a socket shuts its owner's pipe down for writing and its inbound stream
has no error, the owner has been given the whole stream of the other owner.\<close>

theorem socket_eof_complete:
  assumes "lawful env g" and "sized xs ys cl" and "sized ys xs cr" and "fresh g cl u xs l0" and "fresh g cr v ys r0"
    and "sockets_reach env g xs ys (l0, r0) (l, r)" and "rule3_callback env r = Inr r'"
    and "\<not> so_inbound_shutdown (fst r)" and "so_inbound_shutdown (fst r')" and "\<not> ByteStream_error (inbound r')"
  shows "of_taken g (snd r') = xs"
proof -
  have "sockets_reach env g xs ys (l0, r0) (l, r')"
    using assms(6) by (rule duplex_reach.move) (rule duplex_step.right, rule run3[OF assms(7)])
  note inv = sockets_both(2)[OF assms(1-5) this]
  have "bs_wf (inbound r')" using inv by (auto simp: ep_inv_def conn_inv_def sent_ep_of intro: inbound_wf)
  from eof_iff[OF this] socket_delivered[OF inv] rule3_closes[OF assms(7-9)] assms(10)
  show ?thesis by (auto simp: ByteStream_input_ended_def)
qed

theorem socket_eof_complete_witness:
  "\<exists>l r r'. sockets_reach world_env world_reading [1, 2] [3] (new_world 7 [1, 2], new_world 9 [3]) (l, r) \<and>
    rule3_callback world_env r = Inr r' \<and> \<not> so_inbound_shutdown (fst r) \<and> so_inbound_shutdown (fst r') \<and>
    of_taken world_reading (snd r') = [1, 2]"
  by (rule shipment_reach) (use socket_eof_complete[OF shipment_fits] in blast)

text \<open>C8: A socket fails only because of the world outside. In every reachable state of two sockets the callback for the
owner's data throws nothing but the error of \<open>read\<close> -- never \<open>accepted less than advertised length\<close> --, the one
for the inbound stream only errors of system calls, and the other two only what the adapter threw.\<close>

theorem socket_fails_only_outside:
  assumes "lawful env g" and "sized xs ys cl" and "sized ys xs cr" and "fresh g cl u xs l0" and "fresh g cr v ys r0"
    and "sockets_reach env g xs ys (l0, r0) (l, r)"
  shows "(\<forall>f. rule2_callback env r = Inl f \<longrightarrow> (\<exists>e. f = UnixError ''read'' e)) \<and>
    (\<forall>f. rule3_callback env r = Inl f \<longrightarrow> (\<exists>call e. f = UnixError call e)) \<and>
    (\<forall>f. rule1_callback env r = Inl f \<longrightarrow>
      (\<forall>seg a k. en_adapter_read env (so_adapter (fst r)) (snd r) = Inr (Some seg, a, k) \<longrightarrow> (\<exists>m\<in>of_given g (snd l). alike m seg)) \<longrightarrow>
      en_adapter_read env (so_adapter (fst r)) (snd r) = Inl f) \<and>
    (\<forall>f. rule4_callback env r = Inl f \<longrightarrow> (\<exists>a seg k. en_adapter_write env a seg k = Inl f))"
proof -
  note B = sockets_both[OF assms]
  obtain s k where r: "r = (s, k)" by (cases r)
  have cinv: "conn_inv ys xs (ep_isn (ep_of g l)) (the (so_tcp s))" using B(2) by (simp add: ep_inv_def sent_ep_of r)
  have lk: "linked g ys (s, k)" using B(4) r by simp
  have inc: "seg_ok xs (ep_isn (ep_of g l)) (sd_isn (cn_sender (the (so_tcp s)))) (ep_pos (ep_of g l)) m" if "m \<in> of_given g (snd l)" for m
    using tcp.sent_ok[OF B(1)] that by (simp add: sent_ep_of r)
  note pos = tcp.pos_limit[OF B(1)]
  show ?thesis
    using rule2_sim[OF assms(1) lk cinv] rule3_sim[OF assms(1) lk cinv]
      rule1_sim[OF assms(1) lk cinv inc pos] rule4_fails[OF lk] unfolding r by (auto split: sum.splits)
qed

theorem socket_fails_only_outside_witness:
  "\<exists>l r. sockets_reach world_env world_reading [1, 2] [3] (new_world 7 [1, 2], new_world 9 [3]) (l, r) \<and>
    (\<forall>f. rule2_callback world_env r = Inl f \<longrightarrow> (\<exists>e. f = UnixError ''read'' e)) \<and>
    (\<forall>f. rule3_callback world_env r = Inl f \<longrightarrow> (\<exists>call e. f = UnixError call e))"
  by (rule shipment_reach) (use socket_fails_only_outside[OF shipment_fits] in blast)

end
