(* ===== verification/Tcp_Progress.thy ===== *)
theory Tcp_Progress
  imports Tcp_End_To_End
begin

text \<open>
  Progress of two connections: nobody receives what was not sent, so acknowledgments are never beyond what the sender
  knows, and one retransmission that gets through, with its answer, acknowledges the oldest segment.
\<close>

section \<open>Segments below a sequence number\<close>

text \<open>\<open>seg_upto zs isn N seg\<close>: the segment occupies no sequence number, or only such below \<open>N\<close>.\<close>

definition seg_upto :: "bytes \<Rightarrow> WrappingInt32 \<Rightarrow> nat \<Rightarrow> TCPSegment \<Rightarrow> bool" where
  "seg_upto zs isn N seg \<longleftrightarrow> seg_len seg = 0 \<or>
     (\<exists>a m. seg_at zs isn a m \<and> a + seg_len m \<le> N \<and> seg_payload seg = seg_payload m \<and>
        th_seqno (seg_header seg) = th_seqno (seg_header m) \<and> th_syn (seg_header seg) = th_syn (seg_header m) \<and>
        th_fin (seg_header seg) = th_fin (seg_header m))"

lemma seg_upto_mono: "seg_upto zs isn N seg \<Longrightarrow> N \<le> M \<Longrightarrow> seg_upto zs isn M seg"
  unfolding seg_upto_def by (meson le_trans)

lemma seg_at_upto: "seg_at zs isn a seg \<Longrightarrow> a + seg_len seg \<le> N \<Longrightarrow> seg_upto zs isn N seg"
  unfolding seg_upto_def by blast

lemma seg_empty_upto: "seg_len seg = 0 \<Longrightarrow> seg_upto zs isn N seg"
  by (simp add: seg_upto_def)

lemma stamp_upto [simp]: "seg_upto zs isn N (stamp rc seg) = seg_upto zs isn N seg"
  by (simp add: seg_upto_def stamp_def seg_len_def split: option.splits)

lemma alike_upto: "alike m seg \<Longrightarrow> seg_upto zs isn N m \<Longrightarrow> seg_upto zs isn N seg"
  by (simp add: seg_upto_def seg_len_def alike_fields)

lemma chain_upto: "chain zs isn a segs N \<Longrightarrow> seg \<in> set segs \<Longrightarrow> seg_upto zs isn N seg"
proof (induction segs arbitrary: a)
  case (Cons x segs)
  then have "seg_at zs isn a x" "chain zs isn (a + seg_len x) segs N" by simp_all
  then show ?case using Cons chain_le seg_at_upto by fastforce
qed simp

section \<open>What the receiver knows\<close>

definition rx_upto :: "bytes \<Rightarrow> nat \<Rightarrow> TCPReceiver \<Rightarrow> bool" where
  "rx_upto ys N rc \<longleftrightarrow> sr_known (rc_reassembler rc) \<subseteq> {..<N - 1} \<and>
     (sr_endIdx (rc_reassembler rc) \<noteq> -1 \<longrightarrow> length ys + 2 \<le> N) \<and> (rc_syned rc \<longrightarrow> 0 < N)"

lemma rx_upto_mono: "rx_upto ys N rc \<Longrightarrow> N \<le> M \<Longrightarrow> rx_upto ys M rc"
  by (auto simp: rx_upto_def)

lemma rx_upto_pos:
  assumes "rx_inv ys isn cap rc" and "rx_upto ys N rc"
  shows "rx_pos rc \<le> N"
proof -
  have "prefix_len (sr_known (rc_reassembler rc)) \<le> N - 1"
    unfolding prefix_len_def using assms(2) by (intro Least_le) (auto simp: rx_upto_def)
  moreover have "prefix_len (sr_known (rc_reassembler rc)) \<le> length ys"
    using assms(1) by (intro sr_observe(2)) (simp add: rx_inv_def)
  ultimately show ?thesis
    unfolding rx_pos_abs[OF assms(1)] using assms(2) by (auto simp: rx_abs_def sr_abs_def rx_upto_def)
qed

text \<open>What a segment of the peer does to the abstract state of the receiver.\<close>

lemma receive_abs:
  assumes inv: "rx_ok ys isn rc" and m: "seg_at ys isn a m"
    and same: "seg_payload seg = seg_payload m" "th_seqno (seg_header seg) = th_seqno (seg_header m)"
      "th_syn (seg_header seg) = th_syn (seg_header m)" "th_fin (seg_header seg) = th_fin (seg_header m)"
    and run: "TCPReceiver_segment_received rc seg = Inr rc'"
  shows "rx_ok ys isn rc'" and "sr_capacity (rc_reassembler rc') = sr_capacity (rc_reassembler rc)" and "rx_abs rc' = (if \<not> rc_syned rc \<and> a \<noteq> 0 then rx_abs rc
    else (True, spec_push (unat (sr_capacity (rc_reassembler rc))) (a - 1) (length (seg_payload m)) (th_fin (seg_header m)) (snd (rx_abs rc))))"
proof -
  let ?n = "length (seg_payload m)"
  have leg: "rx_legal ys isn (Deliver (seg_header seg) (a - 1) ?n)"
    using m same unfolding seg_at_def by (auto simp: Suc_diff_1)
  have "\<lparr>seg_header = seg_header seg, seg_payload = slice ys (a - 1) ?n\<rparr> = seg"
    using m same(1) by (cases seg) (auto simp: seg_at_def)
  from segment_received_sim[OF inv leg] run this
  have r: "rx_inv ys isn (sr_capacity (rc_reassembler rc)) rc'"
    "rx_spec ys (unat (sr_capacity (rc_reassembler rc))) (Deliver (seg_header seg) (a - 1) ?n) (rx_abs rc) = ([], rx_abs rc')" by auto
  show "rx_ok ys isn rc'" "sr_capacity (rc_reassembler rc') = sr_capacity (rc_reassembler rc)"
    using r(1) by (auto simp: rx_inv_def)
  show "rx_abs rc' = (if \<not> rc_syned rc \<and> a \<noteq> 0 then rx_abs rc
    else (True, spec_push (unat (sr_capacity (rc_reassembler rc))) (a - 1) ?n (th_fin (seg_header m)) (snd (rx_abs rc))))"
    using r(2) m same by (auto simp: rx_abs_def seg_at_def split: if_splits)
qed

lemma receive_empty:
  assumes inv: "rx_ok ys isn rc" and e: "seg_len seg = 0" and run: "TCPReceiver_segment_received rc seg = Inr rc'"
  shows "rx_abs rc' = rx_abs rc"
proof -
  have h: "\<not> th_syn (seg_header seg)" "\<not> th_fin (seg_header seg)" "seg_payload seg = []"
    using e by (auto simp: seg_len_def split: if_splits)
  have leg: "rx_legal ys isn (Deliver (seg_header seg) 0 0)" using h by simp
  have "\<lparr>seg_header = seg_header seg, seg_payload = slice ys 0 0\<rparr> = seg" using h(3) by (cases seg) simp
  from segment_received_sim[OF inv leg, unfolded this run]
  have "rx_spec ys (unat (sr_capacity (rc_reassembler rc))) (Deliver (seg_header seg) 0 0) (rx_abs rc) = ([], rx_abs rc')"
    by simp
  then show ?thesis using h by (simp add: rx_abs_def sr_abs_def split: if_splits)
qed

lemma receive_upto:
  assumes inv: "rx_ok ys isn rc" and seg: "seg_upto ys isn N seg" and upto: "rx_upto ys N rc"
    and run: "TCPReceiver_segment_received rc seg = Inr rc'"
  shows "rx_upto ys N rc'"
  using seg[unfolded seg_upto_def]
proof
  assume "seg_len seg = 0"
  from receive_empty[OF inv this run] upto show ?thesis by (auto simp: rx_upto_def rx_abs_def sr_abs_def)
next
  assume "\<exists>a m. seg_at ys isn a m \<and> a + seg_len m \<le> N \<and> seg_payload seg = seg_payload m \<and>
        th_seqno (seg_header seg) = th_seqno (seg_header m) \<and> th_syn (seg_header seg) = th_syn (seg_header m) \<and>
        th_fin (seg_header seg) = th_fin (seg_header m)"
  then obtain a m where m: "seg_at ys isn a m" "a + seg_len m \<le> N" and same: "seg_payload seg = seg_payload m"
    "th_seqno (seg_header seg) = th_seqno (seg_header m)" "th_syn (seg_header seg) = th_syn (seg_header m)"
    "th_fin (seg_header seg) = th_fin (seg_header m)" by blast
  have "a - 1 + length (seg_payload m) \<le> N - 1" "0 < N" "th_fin (seg_header m) \<longrightarrow> length ys + 2 \<le> N"
    using m by (auto simp: seg_at_def seg_len_def split: if_splits)
  then show ?thesis
    using receive_abs(3)[OF inv m(1) same run] upto by (auto simp: rx_upto_def rx_abs_def sr_abs_def split: if_splits)
qed

text \<open>A segment without a gap before it starts within what is known, and if it fits it is taken in completely.\<close>

lemma no_gap:
  assumes inv: "rx_ok ys isn rc" and m: "seg_at ys isn a m" and gap: "a \<le> rx_pos rc"
  shows "a - 1 \<le> prefix_len (sr_known (rc_reassembler rc))"
proof -
  have "ByteStream_input_ended (TCPReceiver_stream_out rc) \<Longrightarrow> prefix_len (sr_known (rc_reassembler rc)) = length ys"
    using sr_observe(6)[of ys "rc_reassembler rc"] inv by (simp add: rx_inv_def TCPReceiver_stream_out_def)
  then show ?thesis using gap m by (auto simp: rx_pos_def seg_at_def split: if_splits)
qed

lemma receive_takes:
  assumes inv: "rx_ok ys isn rc" and m: "seg_at ys isn a m"
    and same: "seg_payload seg = seg_payload m" "th_seqno (seg_header seg) = th_seqno (seg_header m)"
      "th_syn (seg_header seg) = th_syn (seg_header m)" "th_fin (seg_header seg) = th_fin (seg_header m)"
    and gap: "a \<le> rx_pos rc"
    and fits: "a - 1 + length (seg_payload m) \<le> sr_read (rc_reassembler rc) + unat (sr_capacity (rc_reassembler rc))"
    and run: "TCPReceiver_segment_received rc seg = Inr rc'"
  shows "a + seg_len m \<le> rx_pos rc'"
proof -
  let ?K = "sr_known (rc_reassembler rc)" and ?n = "length (seg_payload m)"
  have syned: "rc_syned rc \<or> a = 0" using gap by (cases "rc_syned rc") (simp_all add: rx_pos_def)
  note ok = receive_abs(1)[OF inv m same run]
  have abs: "rx_abs rc' = (True, ?K \<union> {a - 1..<a - 1 + ?n}, sr_read (rc_reassembler rc),
      sr_endIdx (rc_reassembler rc) \<noteq> -1 \<or> th_fin (seg_header m))"
    using receive_abs(3)[OF inv m same run] syned fits by (auto simp: rx_abs_def sr_abs_def)
  note le = no_gap[OF inv m gap]
  have "k \<in> ?K" if "k < prefix_len ?K" for k using not_less_Least[of k "\<lambda>k. k \<notin> ?K"] that by (auto simp: prefix_len_def)
  then have sub: "{..<a - 1 + ?n} \<subseteq> ?K \<union> {a - 1..<a - 1 + ?n}" using le by fastforce
  have fin: "finite (?K \<union> {a - 1..<a - 1 + ?n})" using rx_known_finite[OF inv] by simp
  have len: "prefix_len {..<k} = k" for k unfolding prefix_len_def by (rule Least_equality) auto
  have p: "a - 1 + ?n \<le> prefix_len (?K \<union> {a - 1..<a - 1 + ?n})" using prefix_len_mono[OF sub fin] len by simp
  have known: "sr_known (rc_reassembler rc') = ?K \<union> {a - 1..<a - 1 + ?n}" using abs by (simp add: rx_abs_def sr_abs_def)
  have b: "prefix_len (?K \<union> {a - 1..<a - 1 + ?n}) \<le> length ys"
    using sr_observe(2)[of ys "rc_reassembler rc'"] ok unfolding known by (simp add: rx_inv_def)
  show ?thesis
    unfolding rx_pos_abs[OF ok] abs using p b m by (auto simp: seg_at_def seg_len_def split: if_splits)
qed

section \<open>What the sender queues\<close>

text \<open>A call of the sender that only appends segments below the next sequence number, and no reset.\<close>

definition sends :: "bytes \<Rightarrow> TCPSender \<Rightarrow> TCPSender \<Rightarrow> bool" where
  "sends zs s s' \<longleftrightarrow> sd_isn s' = sd_isn s \<and> sd_next s \<le> sd_next s' \<and>
     (\<exists>new. sd_segments_out s' = sd_segments_out s @ new \<and>
        (\<forall>x\<in>set new. seg_upto zs (sd_isn s) (sd_next s') x \<and> \<not> th_rst (seg_header x)))"

lemma sends_refl: "sd_isn s' = sd_isn s \<Longrightarrow> sd_next_seqno s' = sd_next_seqno s \<Longrightarrow> sd_segments_out s' = sd_segments_out s \<Longrightarrow> sends zs s s'"
  by (simp add: sends_def)

lemma sends_trans:
  assumes "sends zs s t" and "sends zs t u"
  shows "sends zs s u"
proof -
  obtain new where new: "sd_segments_out t = sd_segments_out s @ new"
    "\<forall>x\<in>set new. seg_upto zs (sd_isn s) (sd_next t) x \<and> \<not> th_rst (seg_header x)" using assms(1) by (auto simp: sends_def)
  obtain new' where new': "sd_segments_out u = sd_segments_out t @ new'"
    "\<forall>x\<in>set new'. seg_upto zs (sd_isn t) (sd_next u) x \<and> \<not> th_rst (seg_header x)" using assms(2) by (auto simp: sends_def)
  have "\<forall>x\<in>set (new @ new'). seg_upto zs (sd_isn s) (sd_next u) x \<and> \<not> th_rst (seg_header x)"
    using new(2) new'(2) assms by (auto simp: sends_def intro: seg_upto_mono)
  then show ?thesis using assms new(1) new'(1) by (auto simp: sends_def)
qed

lemma chain_no_rst: "chain zs isn a segs N \<Longrightarrow> seg \<in> set segs \<Longrightarrow> \<not> th_rst (seg_header seg)"
  by (induction segs arbitrary: a) (auto simp: seg_at_def)

lemma fill_window_sends:
  assumes "sd_inv zs s" and "TCPSender_fill_window s = Inr s'"
  shows "sends zs s s'"
proof -
  obtain new where e: "sd_extends zs s new s'" using fill_window_sim[OF assms(1)] assms(2) by auto
  have ch: "chain zs (sd_isn s) (sd_next s) new (sd_next s')" using e by (simp add: sd_extends_def)
  show ?thesis
    using sd_extends_fields[OF e] chain_le[OF ch] chain_upto[OF ch] chain_no_rst[OF ch] by (auto simp: sends_def)
qed

lemma fill_window_recount: "sd_inv zs s \<Longrightarrow> TCPSender_fill_window s = Inr s' \<Longrightarrow> sd_recount s' = sd_recount s"
  using fill_window_sim[of zs s] by (auto simp: sd_extends_def dest: arg_cong[where f = sd_recount])

lemma ack_received_sends:
  assumes "sd_inv zs s" and "0 < k" "k \<le> length zs + 2" and "TCPSender_ack_received s (wrap (of_nat k) (sd_isn s)) win = Inr s'"
  shows "sends zs s s'"
  using ack_received_sim[OF assms(1-3), of win] assms(4)
  by (auto simp: sd_acked_def intro!: sends_refl split: if_splits)

lemma send_empty_sends: "sends zs s (TCPSender_send_empty_segment s)"
  by (simp add: sends_def TCPSender_send_empty_segment_def TCPSegment_new_def TCPHeader_new_def seg_upto_def seg_len_def)

lemma tick_sends:
  assumes "sd_inv zs s"
  shows "sends zs s (TCPSender_tick s ms)"
proof (cases "sd_outstandings s")
  case Nil
  then show ?thesis by (simp add: TCPSender_tick_def sends_def)
next
  case (Cons seg segs)
  have ch: "chain zs (sd_isn s) (sd_una s) (sd_outstandings s) (sd_next s)" by (rule sd_una_chain[OF assms])
  have "seg_upto zs (sd_isn s) (sd_next s) seg" "\<not> th_rst (seg_header seg)"
    using chain_upto[OF ch, of seg] chain_no_rst[OF ch, of seg] Cons by simp_all
  then show ?thesis using Cons by (simp add: TCPSender_tick_def sends_def Let_def)
qed

text \<open>An acknowledgment of \<open>k\<close> frees the sender of everything before it.\<close>

lemma ack_received_frees:
  assumes inv: "sd_inv zs s" and k: "0 < k" "k \<le> length zs + 2" "k \<le> sd_next s" and out: "sd_outstandings s = seg # segs"
    and a: "sd_una s + seg_len seg \<le> k" and run: "TCPSender_ack_received s (wrap (of_nat k) (sd_isn s)) win = Inr s'"
  shows "sd_una s + seg_len seg \<le> sd_una s'" and "sd_recount s' = 0"
proof -
  have inv': "sd_inv zs s'" and "sd_acked zs k win s s'"
    using ack_received_sim[OF inv k(1,2), of win] run k(3) by auto
  then obtain popped U U' where A: "sd_outstandings s = popped @ sd_outstandings s'"
    "chain zs (sd_isn s) U popped U'" "chain zs (sd_isn s) U' (sd_outstandings s') (sd_next s')"
    "sd_outstandings s' = [] \<or> k < U' + seg_len (hd (sd_outstandings s'))" "popped \<noteq> [] \<longrightarrow> sd_recount s' = 0"
    and same: "sd_next_seqno s' = sd_next_seqno s"
    unfolding sd_acked_def by blast
  have U': "sd_una s' = U'" by (rule sd_una_eq[OF inv' A(3)])
  have U: "sd_una s = U" using A(1-3) same by (intro sd_una_eq[OF inv]) (auto simp: chain_append)
  have "popped \<noteq> []"
  proof
    assume "popped = []"
    then have "U' = U" "sd_outstandings s' = seg # segs" using A(1,2) out by simp_all
    then show False using A(4) a U by simp
  qed
  then obtain xs where "popped = seg # xs" using A(1) out by (cases popped) auto
  then show "sd_una s + seg_len seg \<le> sd_una s'" "sd_recount s' = 0"
    using A(2,5) chain_le[of zs "sd_isn s" "U + seg_len seg" xs U'] U U' by simp_all
qed

section \<open>Nobody receives what was not sent\<close>

definition conn_sent :: "bytes \<Rightarrow> TCPConnection \<Rightarrow> bool" where
  "conn_sent zs c \<longleftrightarrow> sd_segments_out (cn_sender c) = [] \<and>
     (\<forall>m\<in>set (cn_segments_out c). seg_upto zs (sd_isn (cn_sender c)) (sd_next (cn_sender c)) m)"

text \<open>Moving segments that are below the next sequence number to the queue of the connection.\<close>

lemma conn_sent_move:
  assumes "conn_sent zs c" and "sends zs (cn_sender c) (cn_sender d)" and "set (cn_segments_out d) \<subseteq> set (cn_segments_out c)"
  shows "conn_sent zs (seg_2_seg d)" and "sd_next (cn_sender c) \<le> sd_next (cn_sender (seg_2_seg d))"
proof -
  obtain new where new: "sd_segments_out (cn_sender d) = new" "sd_isn (cn_sender d) = sd_isn (cn_sender c)"
    "sd_next (cn_sender c) \<le> sd_next (cn_sender d)" "\<forall>x\<in>set new. seg_upto zs (sd_isn (cn_sender c)) (sd_next (cn_sender d)) x"
    using assms(1,2) by (auto simp: sends_def conn_sent_def)
  have "\<forall>m\<in>set (cn_segments_out d). seg_upto zs (sd_isn (cn_sender c)) (sd_next (cn_sender d)) m"
    using assms(1,3) new(3) by (auto simp: conn_sent_def intro: seg_upto_mono)
  then show "conn_sent zs (seg_2_seg d)" using new by (auto simp: conn_sent_def seg_2_seg_def seg_2_seg_loop_eq)
  show "sd_next (cn_sender c) \<le> sd_next (cn_sender (seg_2_seg d))" using new(3) by (simp add: seg_2_seg_def)
qed

text \<open>
  What a step of an endpoint keeps: what it hands over stays below its next sequence number, and its receiver knows
  nothing beyond \<open>N\<close> if no segment from the network goes beyond \<open>N\<close>.
\<close>

definition keeps_below :: "bytes \<Rightarrow> bytes \<Rightarrow> nat \<Rightarrow> TCPConnection \<Rightarrow> TCPConnection \<Rightarrow> bool" where
  "keeps_below zs ys N c c' \<longleftrightarrow> conn_sent zs c' \<and> sd_isn (cn_sender c') = sd_isn (cn_sender c) \<and>
     sd_next (cn_sender c) \<le> sd_next (cn_sender c') \<and> rx_upto ys N (cn_receiver c')"

lemma keeps_below_move:
  assumes "conn_sent zs c" and "sends zs (cn_sender c) (cn_sender d)" and "set (cn_segments_out d) \<subseteq> set (cn_segments_out c)"
    and "rx_upto ys N (cn_receiver d)"
  shows "keeps_below zs ys N c (seg_2_seg d)"
  using conn_sent_move[OF assms(1-3)] assms(2,4) by (simp add: keeps_below_def seg_2_seg_def sends_def)

lemma keeps_below_same:
  assumes "keeps_below zs ys N c d" and "cn_segments_out c' = cn_segments_out d"
    and "sd_isn (cn_sender c') = sd_isn (cn_sender d)" and "sd_next_seqno (cn_sender c') = sd_next_seqno (cn_sender d)"
    and "sd_segments_out (cn_sender c') = sd_segments_out (cn_sender d)" and "rx_abs (cn_receiver c') = rx_abs (cn_receiver d)"
  shows "keeps_below zs ys N c c'"
  using assms by (auto simp: keeps_below_def conn_sent_def rx_upto_def rx_abs_def sr_abs_def)

lemma keeps_below_refl: "conn_sent zs c \<Longrightarrow> rx_upto ys N (cn_receiver c) \<Longrightarrow> keeps_below zs ys N c c"
  by (simp add: keeps_below_def)

lemma errors_below: "keeps_below zs ys N c d \<Longrightarrow> keeps_below zs ys N c (set_stream_errors d)"
  by (erule keeps_below_same)
    (simp_all add: set_stream_errors_def Let_def rx_abs_def sr_abs_def sr_set_error(2,3))

text \<open>Aborting: the queue of the sender is emptied and a reset is put there.\<close>

lemma abort_below:
  assumes "conn_sent zs c" and "rx_upto ys N (cn_receiver d)" and "sd_isn s = sd_isn (cn_sender c)"
    and "sd_next_seqno s = sd_next_seqno (cn_sender c)" and "sd_segments_out s = []"
    and "set (cn_segments_out d) \<subseteq> set (cn_segments_out c)" and "cn_sender d = TCPSender_send_empty_segment_RST s"
  shows "keeps_below zs ys N c (seg_2_seg d)"
  using assms
  by (auto simp: keeps_below_def conn_sent_def seg_2_seg_def seg_2_seg_loop_eq TCPSender_send_empty_segment_RST_def
      TCPSegment_new_def TCPHeader_new_def seg_len_def intro: seg_empty_upto)

lemma connect_below:
  assumes inv: "conn_inv zs ys pisn c" and c: "conn_sent zs c" "rx_upto ys N (cn_receiver c)" and run: "TCPConnection_connect c = Inr c'"
  shows "keeps_below zs ys N c c'"
proof -
  obtain s where s: "TCPSender_fill_window (cn_sender c) = Inr s" "c' = seg_2_seg (c\<lparr>cn_sender := s\<rparr>)"
    using run by (auto simp: TCPConnection_connect_def andthen_Inr_iff)
  have "sends zs (cn_sender c) s" using inv by (intro fill_window_sends[OF _ s(1)]) (simp add: conn_inv_def)
  then show ?thesis unfolding s(2) by (intro keeps_below_move) (simp_all add: c)
qed

lemma write_below:
  assumes inv: "conn_inv zs ys pisn c" and c: "conn_sent zs c" "rx_upto ys N (cn_receiver c)"
    and run: "TCPConnection_write c (slice zs (sd_written (cn_sender c)) n) = Inr (k, c')"
  shows "keeps_below zs ys N c c'"
proof -
  let ?s = "sd_write zs n (cn_sender c)"
  obtain s where s: "TCPSender_fill_window ?s = Inr s" "c' = seg_2_seg (c\<lparr>cn_sender := s\<rparr>)"
    using run by (auto simp: TCPConnection_write_def sd_write_def andthen_Inr_iff Let_def case_prod_beta)
  have "sd_inv zs ?s" using inv by (intro sd_write_inv) (simp add: conn_inv_def)
  from fill_window_sends[OF this s(1)] have "sends zs (cn_sender c) s" by (simp add: sends_def sd_write_def)
  then show ?thesis unfolding s(2) by (intro keeps_below_move) (simp_all add: c)
qed

lemma close_below:
  assumes inv: "conn_inv zs ys pisn c" and c: "conn_sent zs c" "rx_upto ys N (cn_receiver c)"
    and all: "sd_written (cn_sender c) = length zs" and run: "TCPConnection_end_input_stream c = Inr c'"
  shows "keeps_below zs ys N c c'"
proof -
  let ?s = "sd_end_input (cn_sender c)"
  obtain s where s: "TCPSender_fill_window ?s = Inr s" "c' = seg_2_seg (c\<lparr>cn_sender := s\<rparr>)"
    using run by (auto simp: TCPConnection_end_input_stream_def sd_end_input_def andthen_Inr_iff Let_def)
  have "sd_inv zs ?s" using inv all by (intro sd_end_input_inv) (simp_all add: conn_inv_def)
  from fill_window_sends[OF this s(1)] have "sends zs (cn_sender c) s" by (simp add: sends_def sd_end_input_def)
  then show ?thesis unfolding s(2) by (intro keeps_below_move) (simp_all add: c)
qed

lemma destroy_below:
  assumes "conn_sent zs c" and "rx_upto ys N (cn_receiver c)"
  shows "keeps_below zs ys N c (TCPConnection_destroy c)"
proof (cases "TCPConnection_active c")
  case True
  show ?thesis
    unfolding TCPConnection_destroy_def if_P[OF True] Let_def
    by (intro errors_below abort_below[OF assms(1), where s = "cn_sender c"]) (use assms in \<open>simp_all add: conn_sent_def\<close>)
qed (use assms in \<open>simp add: TCPConnection_destroy_def keeps_below_refl\<close>)

lemma in_flight_outstanding:
  assumes "sd_inv zs s" and "sd_in_flights s = 0"
  shows "sd_outstandings s = []"
proof (cases "sd_outstandings s")
  case (Cons seg segs)
  have "chain zs (sd_isn s) (sd_next s) (seg # segs) (sd_next s)"
    using sd_una_chain[OF assms(1)] assms(2) Cons by (simp add: sd_una_def)
  then show ?thesis using chain_le[of zs "sd_isn s" "sd_next s + seg_len seg" segs "sd_next s"] by (simp add: seg_at_def)
qed

text \<open>The three ways a tick of a connection can end.\<close>

lemma conn_tick_cases:
  fixes c :: TCPConnection and ms :: size_t
  defines "s \<equiv> TCPSender_tick (cn_sender c) ms"
  defines "d \<equiv> c\<lparr>cn_sender := s, cn_time_since_last_segment_received := cn_time_since_last_segment_received c + ms\<rparr>"
  obtains (wait) x y z where "TCPState_summary_sender s = TCPSenderStateSummary_FIN_ACKED"
      "TCPConnection_tick c ms = d\<lparr>cn_since_time_wait := x, cn_linger_after_streams_finish := y, cn_active := z\<rparr>"
  | (abort) e where "TCPConnection_tick c ms = (set_stream_errors (seg_2_seg e))\<lparr>cn_linger_after_streams_finish := False\<rparr>"
      "cn_segments_out e = []" "cn_sender e = TCPSender_send_empty_segment_RST (s\<lparr>sd_segments_out := []\<rparr>)" "cn_receiver e = cn_receiver c"
      "MAX_RETX_ATTEMPTS < sd_recount s"
  | (move) b where "TCPConnection_tick c ms = (seg_2_seg d)\<lparr>cn_active := b\<rparr>"
proof (cases "TCPState_eq (TCPConnection_state d) (TCPState_official TIME_WAIT)")
  case True
  then have fin: "TCPState_summary_sender s = TCPSenderStateSummary_FIN_ACKED"
    by (simp add: TCPConnection_state_def TCPState_new_def d_def)
  have "\<exists>x y z. TCPConnection_tick c ms = d\<lparr>cn_since_time_wait := x, cn_linger_after_streams_finish := y, cn_active := z\<rparr>"
  proof (cases "10 * ucast (cfg_rt_timeout (cn_cfg d)) \<le> cn_since_time_wait d + ms")
    case t: True
    have "TCPConnection_tick c ms = d\<lparr>cn_since_time_wait := cn_since_time_wait d + ms, cn_linger_after_streams_finish := False, cn_active := False\<rparr>"
      using True t by (simp add: TCPConnection_tick_def Let_def s_def[symmetric] d_def[symmetric])
    then show ?thesis by blast
  next
    case False
    have "TCPConnection_tick c ms = d\<lparr>cn_since_time_wait := cn_since_time_wait d + ms,
        cn_linger_after_streams_finish := cn_linger_after_streams_finish d, cn_active := cn_active d\<rparr>"
      using True False by (simp add: TCPConnection_tick_def Let_def s_def[symmetric] d_def[symmetric])
    then show ?thesis by blast
  qed
  then show ?thesis using wait[OF fin] by blast
next
  case ntw: False
  show ?thesis
  proof (cases "cn_active d \<and> MAX_RETX_ATTEMPTS < TCPSender_consecutive_retransmissions (cn_sender d)")
    case True
    let ?e = "d\<lparr>cn_active := False, cn_segments_out := [], cn_sender := TCPSender_send_empty_segment_RST (s\<lparr>sd_segments_out := []\<rparr>)\<rparr>"
    have "TCPConnection_tick c ms = (set_stream_errors (seg_2_seg ?e))\<lparr>cn_linger_after_streams_finish := False\<rparr>"
      using True ntw
      by (simp add: TCPConnection_tick_def Let_def d_def[symmetric] s_def[symmetric] del: TCPState_eq_iff) (simp add: d_def)
    then show ?thesis
      by (rule abort) (use True in \<open>simp_all add: d_def TCPSender_consecutive_retransmissions_def\<close>)
  next
    case False
    have "\<exists>b. TCPConnection_tick c ms = (seg_2_seg d)\<lparr>cn_active := b\<rparr>"
      using ntw False
      by (simp add: TCPConnection_tick_def Let_def d_def[symmetric] s_def[symmetric] del: TCPState_eq_iff)
        (metis TCPConnection.surjective TCPConnection.update_convs(7))
    then show ?thesis using move by blast
  qed
qed

lemma tick_below:
  assumes inv: "conn_inv zs ys pisn c" and c: "conn_sent zs c" "rx_upto ys N (cn_receiver c)"
  shows "keeps_below zs ys N c (TCPConnection_tick c ms)"
proof -
  let ?s = "TCPSender_tick (cn_sender c) ms"
  have sinv: "sd_inv zs (cn_sender c)" using inv by (simp add: conn_inv_def)
  note sends = tick_sends[OF sinv, of ms]
  have fields: "sd_isn ?s = sd_isn (cn_sender c)" "sd_next_seqno ?s = sd_next_seqno (cn_sender c)" "sd_in_flights ?s = sd_in_flights (cn_sender c)"
    by (simp_all add: TCPSender_tick_def Let_def)
  show ?thesis
  proof (cases rule: conn_tick_cases[where c = c and ms = ms])
    case (wait x y z)
    then have "sd_in_flights (cn_sender c) = 0" using fields(3) by (simp add: summary_FIN_ACKED)
    then have "?s = cn_sender c" using in_flight_outstanding[OF sinv] done_tick by blast
    then show ?thesis unfolding wait(2) using c by (intro keeps_below_same[OF keeps_below_refl[OF c]]) simp_all
  next
    case (abort e)
    have "keeps_below zs ys N c (set_stream_errors (seg_2_seg e))"
      by (intro errors_below abort_below[OF c(1), where s = "?s\<lparr>sd_segments_out := []\<rparr>"]) (use abort(2-4) c fields in simp_all)
    then show ?thesis unfolding abort(1) by (rule keeps_below_same) simp_all
  next
    case (move b)
    have "keeps_below zs ys N c (seg_2_seg (c\<lparr>cn_sender := ?s, cn_time_since_last_segment_received := cn_time_since_last_segment_received c + ms\<rparr>))"
      by (rule keeps_below_move[OF c(1)]) (use sends c in simp_all)
    then show ?thesis unfolding move by (rule keeps_below_same) simp_all
  qed
qed

lemma receive_sends:
  assumes inv: "conn_inv zs ys pisn c" and seg: "seg_ok ys pisn (sd_isn (cn_sender c)) Q seg" and Q: "Q \<le> length zs + 2"
    and normal: "\<not> (TCPSender_next_seqno_absolute (cn_sender c) = 0 \<and> th_ack (seg_header seg))" "\<not> th_rst (seg_header seg)"
  shows "\<exists>d s1. TCPConnection_segment_received c seg = Inr (seg_2_seg d) \<and> cn_segments_out d = cn_segments_out c \<and>
    TCPReceiver_segment_received (cn_receiver c) seg = Inr (cn_receiver d) \<and> sends zs (cn_sender c) (cn_sender d) \<and>
    (0 < TCPSegment_length_in_sequence_space seg \<longrightarrow> sd_segments_out (cn_sender d) \<noteq> []) \<and>
    (if th_ack (seg_header seg)
     then andthen (TCPSender_ack_received (cn_sender c) (th_ackno (seg_header seg)) (th_win (seg_header seg))) TCPSender_fill_window
     else Inr (cn_sender c)) = Inr s1 \<and> sd_una (cn_sender d) = sd_una s1 \<and> sd_recount (cn_sender d) = sd_recount s1"
proof -
  let ?h = "seg_header seg" and ?s = "cn_sender c"
  have sinv: "sd_inv zs ?s" using inv by (simp add: conn_inv_def)
  obtain d s1 s2 where d: "TCPConnection_segment_received c seg = Inr (seg_2_seg d)" "cn_segments_out d = cn_segments_out c"
    "TCPReceiver_segment_received (cn_receiver c) seg = Inr (cn_receiver d)"
    "(if th_ack ?h then andthen (TCPSender_ack_received ?s (th_ackno ?h) (th_win ?h)) TCPSender_fill_window else Inr ?s) = Inr s1"
    "sd_una (cn_sender d) = sd_una s1"
    "sd_inv zs s1" "s2 = s1 \<or> TCPSender_fill_window s1 = Inr s2" "cn_sender d = s2 \<or> cn_sender d = TCPSender_send_empty_segment s2"
    "0 < TCPSegment_length_in_sequence_space seg \<longrightarrow> sd_segments_out (cn_sender d) \<noteq> []"
    using conn_receive_normal[OF inv seg Q normal] by blast
  have "sends zs ?s s1"
  proof (cases "th_ack ?h")
    case True
    then obtain k t where k: "0 < k" "k \<le> length zs + 2" "th_ackno ?h = wrap (of_nat k) (sd_isn ?s)"
      and t: "TCPSender_ack_received ?s (th_ackno ?h) (th_win ?h) = Inr t" "TCPSender_fill_window t = Inr s1"
      using seg Q d(4) by (force simp: seg_ok_def andthen_Inr_iff)
    have "sd_inv zs t" using ack_received_sim[OF sinv k(1,2), of "th_win ?h"] t(1) k(3) by auto
    then show ?thesis
      using ack_received_sends[OF sinv k(1,2) t(1)[unfolded k(3)]] fill_window_sends[OF _ t(2)] by (blast intro: sends_trans)
  qed (use d(4) in \<open>simp add: sends_refl\<close>)
  moreover have "sends zs s1 s2" using d(7) fill_window_sends[OF d(6)] by (auto intro: sends_refl)
  moreover have "sends zs s2 (cn_sender d)" using d(8) send_empty_sends by (auto intro: sends_refl)
  ultimately have "sends zs ?s (cn_sender d)" by (blast intro: sends_trans)
  moreover have "sd_recount (cn_sender d) = sd_recount s1"
    using d(7,8) fill_window_recount[OF d(6)] by (auto simp: TCPSender_send_empty_segment_def)
  ultimately show ?thesis using d(1-5,9) by blast
qed

lemma receive_below:
  assumes inv: "conn_inv zs ys pisn c" and c: "conn_sent zs c" "rx_upto ys N (cn_receiver c)"
    and seg: "seg_ok ys pisn (sd_isn (cn_sender c)) Q seg" "seg_upto ys pisn N seg" and Q: "Q \<le> length zs + 2"
    and run: "TCPConnection_segment_received c seg = Inr c'"
  shows "keeps_below zs ys N c c'"
proof -
  let ?h = "seg_header seg" and ?s = "cn_sender c"
  have rx: "rx_ok ys pisn (cn_receiver c)" using inv by (simp add: conn_inv_def)
  consider (listen) "TCPSender_next_seqno_absolute ?s = 0 \<and> th_ack ?h"
    | (reset) "\<not> (TCPSender_next_seqno_absolute ?s = 0 \<and> th_ack ?h)" "th_rst ?h"
    | (normal) "\<not> (TCPSender_next_seqno_absolute ?s = 0 \<and> th_ack ?h)" "\<not> th_rst ?h" by blast
  then show ?thesis
  proof cases
    case listen
    then have "c' = c\<lparr>cn_time_since_last_segment_received := 0\<rparr>" using run by (simp add: TCPConnection_segment_received_def)
    then show ?thesis by (intro keeps_below_same[OF keeps_below_refl[OF c]]) simp_all
  next
    case reset
    then have "c' = (set_stream_errors (c\<lparr>cn_time_since_last_segment_received := 0\<rparr>))\<lparr>cn_active := False, cn_linger_after_streams_finish := False\<rparr>"
      using run by (cases "th_ack ?h") (simp_all add: TCPConnection_segment_received_def)
    moreover have "keeps_below zs ys N c (set_stream_errors (c\<lparr>cn_time_since_last_segment_received := 0\<rparr>))"
      by (intro errors_below keeps_below_same[OF keeps_below_refl[OF c]]) simp_all
    ultimately show ?thesis by (auto elim!: keeps_below_same)
  next
    case normal
    obtain d where d: "c' = seg_2_seg d" "cn_segments_out d = cn_segments_out c"
      "TCPReceiver_segment_received (cn_receiver c) seg = Inr (cn_receiver d)" "sends zs ?s (cn_sender d)"
      using receive_sends[OF inv seg(1) Q normal] run by auto
    show ?thesis
      unfolding d(1) by (intro keeps_below_move[OF c(1) d(4)]) (use d(2) receive_upto[OF rx seg(2) c(2) d(3)] in simp_all)
  qed
qed

section \<open>Two endpoints\<close>

abbreviation ep_next :: "endpoint \<Rightarrow> nat" where
  "ep_next e \<equiv> sd_next (cn_sender (ep_conn e))"

definition ep_below :: "bytes \<Rightarrow> bytes \<Rightarrow> nat \<Rightarrow> endpoint \<Rightarrow> bool" where
  "ep_below zs ys N e \<longleftrightarrow> conn_sent zs (ep_conn e) \<and> (\<forall>m\<in>ep_sent e. seg_upto zs (ep_isn e) (ep_next e) m) \<and>
     rx_upto ys N (cn_receiver (ep_conn e))"

lemma ep_below_keeps:
  assumes "ep_below zs ys N e" and "keeps_below zs ys N (ep_conn e) c"
  shows "ep_below zs ys N (e\<lparr>ep_conn := c\<rparr>) \<and> ep_next e \<le> ep_next (e\<lparr>ep_conn := c\<rparr>) \<and> ep_isn (e\<lparr>ep_conn := c\<rparr>) = ep_isn e"
  using assms by (auto simp: ep_below_def keeps_below_def intro: seg_upto_mono)

lemma ep_step_below:
  assumes inv: "ep_inv zs ys pisn e" and inc: "\<And>m. m \<in> inc \<Longrightarrow> seg_ok ys pisn (ep_isn e) Q m \<and> seg_upto ys pisn N m"
    and Q: "Q \<le> length zs + 2" and e: "ep_below zs ys N e" and step: "ep_step zs inc e e'"
  shows "ep_below zs ys N e' \<and> ep_next e \<le> ep_next e' \<and> ep_isn e' = ep_isn e"
proof -
  have cinv: "conn_inv zs ys pisn (ep_conn e)" using inv by (simp add: ep_inv_def)
  have c: "conn_sent zs (ep_conn e)" "rx_upto ys N (cn_receiver (ep_conn e))" using e by (simp_all add: ep_below_def)
  from step show ?thesis
  proof cases
    case (ep_connect c')
    show ?thesis unfolding ep_connect(1) by (rule ep_below_keeps[OF e connect_below[OF cinv c ep_connect(2)]])
  next
    case (ep_write n k c')
    show ?thesis unfolding ep_write(1) by (rule ep_below_keeps[OF e write_below[OF cinv c ep_write(2)]])
  next
    case (ep_close c')
    show ?thesis unfolding ep_close(1) by (rule ep_below_keeps[OF e close_below[OF cinv c ep_close(2,3)]])
  next
    case (ep_tick ms)
    show ?thesis unfolding ep_tick by (rule ep_below_keeps[OF e tick_below[OF cinv c]])
  next
    case ep_drop
    show ?thesis unfolding ep_drop by (rule ep_below_keeps[OF e destroy_below[OF c]])
  next
    case (ep_receive m seg c')
    have "seg_ok ys pisn (ep_isn e) Q seg" "seg_upto ys pisn N seg"
      using inc[OF ep_receive(2)] alike_ok[OF ep_receive(3)] alike_upto[OF ep_receive(3)] by blast+
    then show ?thesis unfolding ep_receive(1) by (intro ep_below_keeps[OF e] receive_below[OF cinv c _ _ Q ep_receive(4)])
  next
    case (ep_transmit seg segs)
    then show ?thesis using e by (auto simp: ep_below_def conn_sent_def)
  next
    case (ep_read n d rc)
    have "rx_ok ys pisn (cn_receiver (ep_conn e))" using cinv by (simp add: conn_inv_def)
    from consume_sim[OF this, of n] ep_read(2)
    have "rx_spec ys (unat (sr_capacity (rc_reassembler (cn_receiver (ep_conn e))))) (Consume n) (rx_abs (cn_receiver (ep_conn e))) = (d, rx_abs rc)"
      by (auto simp: rx_read_def)
    then have "rx_upto ys N rc" using c(2) by (auto simp: rx_upto_def rx_abs_def sr_abs_def split: prod.splits)
    then show ?thesis using e ep_read(1) by (simp add: ep_below_def conn_sent_def)
  qed
qed

lemma ep_below_mono: "ep_below zs ys N e \<Longrightarrow> N \<le> M \<Longrightarrow> ep_below zs ys M e"
  by (auto simp: ep_below_def intro: rx_upto_mono)

lemma ep_new_below: "ep_below zs ys N (ep_new cfg rnd)"
proof -
  have "rx_upto ys N (TCPReceiver_new cap)" for cap
    by (simp add: rx_upto_def TCPReceiver_new_def StreamReassembler_new_def sr_known_def sr_written_def ByteStream_new_def)
  then show ?thesis by (simp add: ep_below_def conn_sent_def ep_new_def TCPConnection_new_def TCPSender_new_def)
qed

lemma reach_trans: "duplex_reach step sent xs ys q s \<Longrightarrow> duplex_reach step sent xs ys p q \<Longrightarrow> duplex_reach step sent xs ys p s"
  by (induction rule: duplex_reach.induct) (auto intro: duplex_reach.move)

definition both_below :: "bytes \<Rightarrow> bytes \<Rightarrow> endpoint \<times> endpoint \<Rightarrow> bool" where
  "both_below xs ys q \<longleftrightarrow> ep_below xs ys (ep_next (snd q)) (fst q) \<and> ep_below ys xs (ep_next (fst q)) (snd q)"

lemma below_step:
  assumes both: "tcp.both xs ys q" and below: "both_below xs ys q" and step: "duplex_step ep_step ep_sent xs ys q q'"
  shows "both_below xs ys q' \<and> ep_next (fst q) \<le> ep_next (fst q')"
proof -
  obtain l r where q: "q = (l, r)" by (cases q)
  have inv: "ep_inv xs ys (ep_isn r) l" "ep_inv ys xs (ep_isn l) r" using both by (simp_all add: tcp.both_def q)
  have lr: "ep_below xs ys (ep_next r) l" "ep_below ys xs (ep_next l) r" using below by (simp_all add: both_below_def q)
  have upto: "m \<in> ep_sent l \<Longrightarrow> seg_upto xs (ep_isn l) (ep_next l) m" "m \<in> ep_sent r \<Longrightarrow> seg_upto ys (ep_isn r) (ep_next r) m" for m
    using lr by (auto simp: ep_below_def)
  from step[unfolded q] show ?thesis
  proof cases
    case (left l')
    have "ep_below xs ys (ep_next r) l' \<and> ep_next l \<le> ep_next l' \<and> ep_isn l' = ep_isn l"
      by (rule ep_step_below[OF inv(1) _ tcp.pos_limit[OF inv(2)] lr(1) left(2)]) (use tcp.sent_ok[OF inv(2)] upto(2) in blast)
    then show ?thesis using lr(2) left(1) by (auto simp: both_below_def q intro: ep_below_mono)
  next
    case (right r')
    have "ep_below ys xs (ep_next l) r' \<and> ep_next r \<le> ep_next r' \<and> ep_isn r' = ep_isn r"
      by (rule ep_step_below[OF inv(2) _ tcp.pos_limit[OF inv(1)] lr(2) right(2)]) (use tcp.sent_ok[OF inv(1)] upto(1) in blast)
    then show ?thesis using lr(1) right(1) by (auto simp: both_below_def q intro: ep_below_mono)
  qed
qed

lemma duplex_below:
  assumes sz: "sized xs ys cl" "sized ys xs cr" and "duplex_reach ep_step ep_sent xs ys (ep_new cl u, ep_new cr v) q"
  shows "both_below xs ys q"
  using assms(3)
proof induction
  case start
  show ?case by (simp add: both_below_def ep_new_below)
next
  case (move q q')
  then show ?case using below_step duplex_both[OF sz move.hyps(1)] by blast
qed

lemma duplex_next:
  assumes sz: "sized xs ys cl" "sized ys xs cr" and start: "duplex_reach ep_step ep_sent xs ys (ep_new cl u, ep_new cr v) p"
    and "duplex_reach ep_step ep_sent xs ys p q"
  shows "ep_next (fst p) \<le> ep_next (fst q)"
  using assms(4)
proof induction
  case (move q q')
  have "duplex_reach ep_step ep_sent xs ys (ep_new cl u, ep_new cr v) q" by (rule reach_trans[OF move.hyps(1) start])
  then have "ep_next (fst q) \<le> ep_next (fst q')" using below_step[OF _ _ move.hyps(2)] duplex_both[OF sz] duplex_below[OF sz] by blast
  then show ?case using move.IH by simp
qed simp

section \<open>A retransmission and its answer\<close>

lemma tick_retransmits:
  assumes inv: "conn_inv zs ys pisn c" and out: "sd_outstandings (cn_sender c) = seg # segs"
    and expired: "ucast (sd_RTO (cn_sender c)) \<le> ms + sd_timePassed (cn_sender c)" and more: "sd_recount (cn_sender c) < MAX_RETX_ATTEMPTS"
  defines "c1 \<equiv> TCPConnection_tick c ms"
  shows "\<exists>segs'. cn_segments_out c1 = segs' @ [stamp (cn_receiver c) seg]" and "cn_receiver c1 = cn_receiver c"
    and "sd_outstandings (cn_sender c1) = seg # segs" and "sd_next_seqno (cn_sender c1) = sd_next_seqno (cn_sender c)"
proof -
  let ?s = "TCPSender_tick (cn_sender c) ms"
  have fields: "sd_outstandings ?s = seg # segs" "sd_next_seqno ?s = sd_next_seqno (cn_sender c)"
    "sd_in_flights ?s = sd_in_flights (cn_sender c)" "sd_segments_out ?s = sd_segments_out (cn_sender c) @ [seg]"
    using out expired by (simp_all add: TCPSender_tick_def Let_def)
  have recount: "\<not> MAX_RETX_ATTEMPTS < sd_recount ?s"
    using out expired more by (auto simp: TCPSender_tick_def Let_def MAX_RETX_ATTEMPTS_def not_less inc_le)
  have "\<exists>b. c1 = (seg_2_seg (c\<lparr>cn_sender := ?s, cn_time_since_last_segment_received := cn_time_since_last_segment_received c + ms\<rparr>))\<lparr>cn_active := b\<rparr>"
  proof (cases rule: conn_tick_cases[where c = c and ms = ms])
    case (wait x y z)
    then have "sd_in_flights (cn_sender c) = 0" using fields(3) by (simp add: summary_FIN_ACKED)
    then show ?thesis using in_flight_outstanding[of zs "cn_sender c"] inv out by (simp add: conn_inv_def)
  qed (use recount in \<open>auto simp: c1_def\<close>)
  then show "\<exists>segs'. cn_segments_out c1 = segs' @ [stamp (cn_receiver c) seg]" "cn_receiver c1 = cn_receiver c"
    "sd_outstandings (cn_sender c1) = seg # segs" "sd_next_seqno (cn_sender c1) = sd_next_seqno (cn_sender c)"
    using fields by (auto simp: seg_2_seg_def seg_2_seg_loop_eq)
qed

text \<open>The peer takes the segment in and its last answer acknowledges it.\<close>

lemma retransmission_taken:
  assumes inv: "conn_inv ys xs isn d" and below: "conn_sent ys d" "rx_upto xs N (cn_receiver d)"
    and m: "seg_at xs isn a seg" "a + seg_len seg \<le> N" "a \<le> rx_pos (cn_receiver d)"
    and ok: "seg_ok xs isn (sd_isn (cn_sender d)) Q (stamp rc seg)" "Q \<le> length ys + 2" and started: "0 < sd_next (cn_sender d)"
    and fits: "a - 1 + length (seg_payload seg) \<le>
      sr_read (rc_reassembler (cn_receiver d)) + unat (sr_capacity (rc_reassembler (cn_receiver d)))"
  shows "\<exists>d' reply k. TCPConnection_segment_received d (stamp rc seg) = Inr d' \<and> (\<exists>segs. cn_segments_out d' = segs @ [reply]) \<and>
    th_ack (seg_header reply) \<and> \<not> th_rst (seg_header reply) \<and> th_ackno (seg_header reply) = wrap (of_nat k) isn \<and>
    k = rx_pos (cn_receiver d') \<and> a + seg_len seg \<le> k \<and> k \<le> N \<and> 0 < sd_next (cn_sender d') \<and>
    sr_capacity (rc_reassembler (cn_receiver d')) = sr_capacity (rc_reassembler (cn_receiver d))"
proof -
  have same: "seg_payload (stamp rc seg) = seg_payload seg" "th_seqno (seg_header (stamp rc seg)) = th_seqno (seg_header seg)"
    "th_syn (seg_header (stamp rc seg)) = th_syn (seg_header seg)" "th_fin (seg_header (stamp rc seg)) = th_fin (seg_header seg)"
    "th_rst (seg_header (stamp rc seg)) = th_rst (seg_header seg)" "TCPSegment_length_in_sequence_space (stamp rc seg) = TCPSegment_length_in_sequence_space seg"
    by (simp_all add: stamp_def TCPSegment_length_in_sequence_space_def split: option.split)
  have len: "0 < seg_len seg" "seg_len seg \<le> 1002" "\<not> th_rst (seg_header seg)" using m(1) by (auto simp: seg_at_def seg_len_def)
  have pos: "0 < TCPSegment_length_in_sequence_space seg"
    using len(1,2) of_nat_less_u64[of 0 "seg_len seg"] by (simp add: length_in_sequence_space_eq)
  have "TCPSender_next_seqno_absolute (cn_sender d) \<noteq> 0" using started by (auto simp: TCPSender_next_seqno_absolute_def)
  then obtain d1 where d1: "TCPConnection_segment_received d (stamp rc seg) = Inr (seg_2_seg d1)"
    "TCPReceiver_segment_received (cn_receiver d) (stamp rc seg) = Inr (cn_receiver d1)"
    "sends ys (cn_sender d) (cn_sender d1)" "sd_segments_out (cn_sender d1) \<noteq> []"
    using receive_sends[OF inv ok] len(3) pos same(5,6) by auto
  have rx: "rx_ok xs isn (cn_receiver d)" using inv by (simp add: conn_inv_def)
  let ?k = "rx_pos (cn_receiver d1)"
  have rx1: "rx_ok xs isn (cn_receiver d1)" and k: "a + seg_len seg \<le> ?k"
    using receive_abs(1)[OF rx m(1) same(1-4) d1(2)] receive_takes[OF rx m(1) same(1-4) m(3) fits d1(2)] .
  have "seg_upto xs isn N (stamp rc seg)" using seg_at_upto[OF m(1,2)] by simp
  from rx_upto_pos[OF rx1 receive_upto[OF rx this below(2) d1(2)]] have kN: "?k \<le> N" .
  have syned: "rc_syned (cn_receiver d1)" using k len(1) by (cases "rc_syned (cn_receiver d1)") (simp_all add: rx_pos_def)
  define x where "x = last (sd_segments_out (cn_sender d1))"
  have "\<not> th_rst (seg_header x)"
    using d1(3) below(1) last_in_set[OF d1(4)] by (auto simp: sends_def conn_sent_def x_def)
  moreover have "cn_segments_out (seg_2_seg d1) = (cn_segments_out d1 @ map (stamp (cn_receiver d1)) (butlast (sd_segments_out (cn_sender d1)))) @ [stamp (cn_receiver d1) x]"
    using arg_cong[OF append_butlast_last_id[OF d1(4)], of "map (stamp (cn_receiver d1))"]
    by (simp add: seg_2_seg_def seg_2_seg_loop_eq x_def)
  moreover have "TCPReceiver_ackno (cn_receiver d1) = Some (wrap (of_nat ?k) isn)" using rx_ackno[OF rx1] syned by simp
  moreover have "cn_receiver (seg_2_seg d1) = cn_receiver d1" "0 < sd_next (cn_sender (seg_2_seg d1))"
    using d1(3) started by (simp_all add: seg_2_seg_def sends_def)
  ultimately show ?thesis
    using d1(1) k kN receive_abs(2)[OF rx m(1) same(1-4) d1(2)] by (intro exI[of _ "seg_2_seg d1"] exI[of _ "stamp (cn_receiver d1) x"] exI[of _ ?k]) (auto simp: stamp_def)
qed

lemma retransmission_acked:
  assumes inv: "conn_inv xs ys pisn c" and out: "sd_outstandings (cn_sender c) = seg # segs"
    and ok: "seg_ok ys pisn (sd_isn (cn_sender c)) k reply" and k: "k \<le> sd_next (cn_sender c)" "k \<le> length xs + 2"
    and reply: "th_ack (seg_header reply)" "\<not> th_rst (seg_header reply)" "th_ackno (seg_header reply) = wrap (of_nat k) (sd_isn (cn_sender c))"
    and a: "sd_una (cn_sender c) + seg_len seg \<le> k"
  shows "\<exists>c'. TCPConnection_segment_received c reply = Inr c' \<and> sd_una (cn_sender c) + seg_len seg \<le> sd_una (cn_sender c') \<and>
    sd_recount (cn_sender c') = 0"
proof -
  let ?s = "cn_sender c"
  have sinv: "sd_inv xs ?s" using inv by (simp add: conn_inv_def)
  have "0 < seg_len seg" using sd_una_chain[OF sinv] out by (simp add: seg_at_def)
  then have k0: "0 < k" using a by simp
  then have "TCPSender_next_seqno_absolute ?s \<noteq> 0" using k(1) by (auto simp: TCPSender_next_seqno_absolute_def)
  then obtain d s1 where d: "TCPConnection_segment_received c reply = Inr (seg_2_seg d)"
    "andthen (TCPSender_ack_received ?s (wrap (of_nat k) (sd_isn ?s)) (th_win (seg_header reply))) TCPSender_fill_window = Inr s1"
    "sd_una (cn_sender d) = sd_una s1" "sd_recount (cn_sender d) = sd_recount s1"
    using receive_sends[OF inv ok k(2)] reply by auto
  obtain t where t: "TCPSender_ack_received ?s (wrap (of_nat k) (sd_isn ?s)) (th_win (seg_header reply)) = Inr t"
    "TCPSender_fill_window t = Inr s1" using d(2) by (auto simp: andthen_Inr_iff)
  have tinv: "sd_inv xs t" using ack_received_sim[OF sinv k0 k(2), of "th_win (seg_header reply)"] t(1) by auto
  have "sd_una s1 = sd_una t" "sd_recount s1 = sd_recount t"
    using fill_window_una[OF tinv] fill_window_recount[OF tinv] t(2) by auto
  then show ?thesis
    using d ack_received_frees[OF sinv k0 k(2,1) out a t(1)] by (auto simp: seg_2_seg_def sd_una_def)
qed

text \<open>
  One round: the timer of the left endpoint expires, the retransmission reaches the right one, and the answer comes back
  after the left endpoint's queue has been handed to the network.
\<close>

definition repairs :: "endpoint \<Rightarrow> endpoint \<Rightarrow> size_t \<Rightarrow> TCPSegment \<Rightarrow> TCPConnection \<Rightarrow> TCPConnection \<Rightarrow> bool" where
  "repairs l r ms seg r' l' \<longleftrightarrow>
     (let l1 = TCPConnection_tick (ep_conn l) ms
      in TCPConnection_segment_received (ep_conn r) (last (cn_segments_out l1)) = Inr r' \<and>
         TCPConnection_segment_received (l1\<lparr>cn_segments_out := []\<rparr>) (last (cn_segments_out r')) = Inr l' \<and>
         cn_segments_out l1 \<noteq> [] \<and> cn_segments_out r' \<noteq> [] \<and> ep_una l + seg_len seg \<le> rx_pos (cn_receiver r') \<and>
         ep_una l + seg_len seg \<le> sd_una (cn_sender l') \<and> sd_recount (cn_sender l') = 0 \<and> 0 < sd_next (cn_sender r') \<and>
         sr_capacity (rc_reassembler (cn_receiver r')) = sr_capacity (ep_reassembler r))"

lemma repair_round:
  assumes sz: "sized xs ys cl" "sized ys xs cr" and reach: "duplex_reach ep_step ep_sent xs ys (ep_new cl u, ep_new cr v) (l, r)"
    and out: "sd_outstandings (cn_sender (ep_conn l)) = seg # segs"
    and expired: "ucast (sd_RTO (cn_sender (ep_conn l))) \<le> ms + sd_timePassed (cn_sender (ep_conn l))"
    and more: "sd_recount (cn_sender (ep_conn l)) < MAX_RETX_ATTEMPTS" and started: "0 < ep_next r"
    and fits: "ep_una l - 1 + length (seg_payload seg) \<le> sr_read (ep_reassembler r) + unat (sr_capacity (ep_reassembler r))"
  shows "\<exists>r' l'. repairs l r ms seg r' l'"
proof -
  let ?c = "ep_conn l" and ?d = "ep_conn r"
  define c1 where "c1 = TCPConnection_tick ?c ms"
  have both: "ep_inv xs ys (ep_isn r) l" "ep_inv ys xs (ep_isn l) r" "ep_una l \<le> ep_pos r"
    using duplex_both[OF sz reach] by (simp_all add: tcp.both_def)
  have cinv: "conn_inv xs ys (ep_isn r) ?c" and dinv: "conn_inv ys xs (ep_isn l) ?d" using both by (simp_all add: ep_inv_def)
  have below: "conn_sent ys ?d" "rx_upto xs (ep_next l) (cn_receiver ?d)" using duplex_below[OF sz reach] by (simp_all add: both_below_def ep_below_def)
  have sinv: "sd_inv xs (cn_sender ?c)" using cinv by (simp add: conn_inv_def)
  have seg: "seg_at xs (ep_isn l) (ep_una l) seg" "ep_una l + seg_len seg \<le> ep_next l"
    using sd_una_chain[OF sinv] out chain_le by (auto simp: out)
  note T = tick_retransmits[OF cinv out expired more, folded c1_def]
  obtain segs' where q: "cn_segments_out c1 = segs' @ [stamp (cn_receiver ?c) seg]" using T(1) by blast
  have adv: "conn_inv xs ys (ep_isn r) c1" "sd_isn (cn_sender c1) = ep_isn l"
    using conn_tick_adv[OF cinv, of 0 ms] by (auto simp: c1_def conn_adv_def)
  have una: "sd_una (cn_sender c1) = ep_una l"
    using adv(1) sd_una_chain[OF sinv] T(3,4) out by (intro sd_una_eq[of xs]) (simp_all add: conn_inv_def)
  have ok: "seg_ok xs (ep_isn l) (ep_isn r) (ep_pos l) (stamp (cn_receiver ?c) seg)"
    using adv(1,2) q T(2) by (auto simp: conn_inv_def)
  obtain d' reply k segs2 where d': "TCPConnection_segment_received ?d (stamp (cn_receiver ?c) seg) = Inr d'" "cn_segments_out d' = segs2 @ [reply]"
    "th_ack (seg_header reply)" "\<not> th_rst (seg_header reply)" "th_ackno (seg_header reply) = wrap (of_nat k) (ep_isn l)"
    "k = rx_pos (cn_receiver d')" "ep_una l + seg_len seg \<le> k" "k \<le> ep_next l" "0 < sd_next (cn_sender d')"
    "sr_capacity (rc_reassembler (cn_receiver d')) = sr_capacity (ep_reassembler r)"
    using retransmission_taken[OF dinv below seg both(3) ok tcp.pos_limit[OF both(1)] started fits] by blast
  have adv': "conn_inv ys xs (ep_isn l) d'" "sd_isn (cn_sender d') = ep_isn r"
    using conn_receive_adv[OF dinv ok tcp.pos_limit[OF both(1)]] d'(1) by (auto simp: conn_adv_def)
  have ok': "seg_ok ys (ep_isn r) (ep_isn l) k reply" using adv' d'(2,6) by (auto simp: conn_inv_def)
  have "k \<le> length xs + 2" using adv'(1) rx_pos_le unfolding d'(6) conn_inv_def by blast
  moreover have "conn_inv xs ys (ep_isn r) (c1\<lparr>cn_segments_out := []\<rparr>)" using adv(1) by (simp add: conn_inv_def)
  ultimately obtain c' where "TCPConnection_segment_received (c1\<lparr>cn_segments_out := []\<rparr>) reply = Inr c'" "ep_una l + seg_len seg \<le> sd_una (cn_sender c')"
    "sd_recount (cn_sender c') = 0"
    using retransmission_acked[of xs ys "ep_isn r" "c1\<lparr>cn_segments_out := []\<rparr>" seg segs k reply] T(3) ok' adv(2) una d'(3-5,7,8) T(4) by auto
  then have "repairs l r ms seg d' c'" using d' q unfolding repairs_def c1_def[symmetric] Let_def by simp
  then show ?thesis by blast
qed

section \<open>Nothing is ever stuck\<close>

lemma drain:
  "(ep_step zs inc)\<^sup>*\<^sup>* e (e\<lparr>ep_conn := (ep_conn e)\<lparr>cn_segments_out := []\<rparr>, ep_sent := ep_sent e \<union> set (cn_segments_out (ep_conn e))\<rparr>)"
proof (induction "cn_segments_out (ep_conn e)" arbitrary: e)
  case Nil
  have "e\<lparr>ep_conn := (ep_conn e)\<lparr>cn_segments_out := []\<rparr>, ep_sent := ep_sent e \<union> set (cn_segments_out (ep_conn e))\<rparr> = e"
    using Nil by (cases e; cases "ep_conn e") simp
  then show ?case by simp
next
  case (Cons seg segs)
  let ?e = "e\<lparr>ep_conn := (ep_conn e)\<lparr>cn_segments_out := segs\<rparr>, ep_sent := insert seg (ep_sent e)\<rparr>"
  have "ep_step zs inc e ?e" by (rule ep_transmit) (rule Cons.hyps(2)[symmetric])
  moreover have "(ep_step zs inc)\<^sup>*\<^sup>* ?e (e\<lparr>ep_conn := (ep_conn e)\<lparr>cn_segments_out := []\<rparr>, ep_sent := ep_sent e \<union> set (cn_segments_out (ep_conn e))\<rparr>)"
    using Cons.hyps(1)[of ?e] by (simp flip: Cons.hyps(2))
  ultimately show ?case by (rule converse_rtranclp_into_rtranclp)
qed

text \<open>The reader takes everything that is there.\<close>

lemma read_all:
  assumes "ep_inv ys xs pisn r"
  shows "\<exists>r1. ep_step ys inc r r1 \<and> cn_sender (ep_conn r1) = cn_sender (ep_conn r) \<and>
    sr_read (ep_reassembler r1) = prefix_len (sr_known (ep_reassembler r)) \<and> sr_capacity (ep_reassembler r1) = sr_capacity (ep_reassembler r)"
proof -
  let ?rc = "cn_receiver (ep_conn r)" and ?n = "- 1 :: size_t"
  have rx: "rx_ok xs pisn ?rc" using assms by (simp add: ep_inv_def conn_inv_def)
  obtain d rc where r: "rx_read ?rc ?n = Inr (d, rc)" "rx_inv xs pisn (sr_capacity (rc_reassembler ?rc)) rc"
    "rx_spec xs (unat (sr_capacity (rc_reassembler ?rc))) (Consume ?n) (rx_abs ?rc) = (d, rx_abs rc)"
    using consume_sim[OF rx, of ?n] by (auto simp: rx_read_def)
  have obs: "prefix_len (sr_known (rc_reassembler ?rc)) \<le> length xs" "sr_read (rc_reassembler ?rc) \<le> prefix_len (sr_known (rc_reassembler ?rc))"
    and small: "length xs < 2 ^ 31"
    using sr_observe(2,3)[of xs "rc_reassembler ?rc"] rx by (simp_all add: rx_inv_def)
  have "unat ?n = 2 ^ 64 - 1" by (simp add: unsigned_minus_1_eq_mask mask_eq_exp_minus_1)
  then have "sr_read (rc_reassembler rc) = prefix_len (sr_known (rc_reassembler ?rc))"
    using r(3) obs small by (auto simp: rx_abs_def sr_abs_def min_def split: if_splits)
  moreover have "sr_capacity (rc_reassembler rc) = sr_capacity (rc_reassembler ?rc)" using r(2) by (simp add: rx_inv_def)
  ultimately show ?thesis using ep_read[of r ?n d rc ys inc] r(1) by auto
qed

lemma unstuck_round:
  assumes sz: "sized xs ys cl" "sized ys xs cr" and reach: "duplex_reach ep_step ep_sent xs ys (ep_new cl u, ep_new cr v) (l, r)"
    and out: "sd_outstandings (cn_sender (ep_conn l)) = seg # segs"
    and more: "sd_recount (cn_sender (ep_conn l)) < MAX_RETX_ATTEMPTS" and started: "0 < ep_next r"
    and cap: "1000 \<le> unat (sr_capacity (ep_reassembler r))"
  shows "\<exists>l' r'. duplex_reach ep_step ep_sent xs ys (l, r) (l', r') \<and> ep_una l < ep_una l' \<and> sd_recount (cn_sender (ep_conn l')) = 0 \<and>
    0 < ep_next r' \<and> sr_capacity (ep_reassembler r') = sr_capacity (ep_reassembler r)"
proof -
  let ?reach = "duplex_reach ep_step ep_sent xs ys (l, r)"
  have both: "ep_inv xs ys (ep_isn r) l" "ep_inv ys xs (ep_isn l) r" "ep_una l \<le> ep_pos r"
    using duplex_both[OF sz reach] by (simp_all add: tcp.both_def)
  have rx: "rx_ok xs (ep_isn l) (cn_receiver (ep_conn r))" and sinv: "sd_inv xs (cn_sender (ep_conn l))"
    using both by (simp_all add: ep_inv_def conn_inv_def)
  have seg: "seg_at xs (ep_isn l) (ep_una l) seg" using sd_una_chain[OF sinv] by (simp add: out)
  obtain r1 where r1: "ep_step ys (ep_sent l) r r1" "cn_sender (ep_conn r1) = cn_sender (ep_conn r)"
    "sr_read (ep_reassembler r1) = prefix_len (sr_known (ep_reassembler r))" "sr_capacity (ep_reassembler r1) = sr_capacity (ep_reassembler r)"
    using read_all[OF both(2)] by blast
  have fits: "ep_una l - 1 + length (seg_payload seg) \<le> sr_read (ep_reassembler r1) + unat (sr_capacity (ep_reassembler r1))"
    using no_gap[OF rx seg both(3)] seg cap r1(3,4) by (simp add: seg_at_def)
  have R1: "?reach (l, r1)" by (rule reach_right[OF r_into_rtranclp duplex_reach.start]) (rule r1(1))
  define ms where "ms = ucast (sd_RTO (cn_sender (ep_conn l))) - sd_timePassed (cn_sender (ep_conn l))"
  obtain r' l' where rep: "repairs l r1 ms seg r' l'"
    using repair_round[OF sz reach_trans[OF R1 reach] out _ more _ fits, of ms] started r1(2) by (auto simp: ms_def)
  define l1 where "l1 = l\<lparr>ep_conn := (TCPConnection_tick (ep_conn l) ms)\<lparr>cn_segments_out := []\<rparr>,
    ep_sent := ep_sent l \<union> set (cn_segments_out (TCPConnection_tick (ep_conn l) ms))\<rparr>"
  note rep = rep[unfolded repairs_def Let_def]
  have "ep_step xs inc l (l\<lparr>ep_conn := TCPConnection_tick (ep_conn l) ms\<rparr>)" for inc by (rule ep_tick)
  then have "(ep_step xs inc)\<^sup>*\<^sup>* l l1" for inc
    using drain[of xs inc "l\<lparr>ep_conn := TCPConnection_tick (ep_conn l) ms\<rparr>"] by (auto simp: l1_def intro: converse_rtranclp_into_rtranclp)
  then have R2: "?reach (l1, r1)" by (rule reach_left) (rule R1)
  have "last (cn_segments_out (TCPConnection_tick (ep_conn l) ms)) \<in> ep_sent l1" using rep by (simp add: l1_def)
  then have "ep_step ys (ep_sent l1) r1 (r1\<lparr>ep_conn := r'\<rparr>)" by (rule ep_receive[OF _ alike_refl]) (use rep in simp)
  then have R3: "?reach (l1, r1\<lparr>ep_conn := r'\<rparr>)" by (intro reach_right[OF r_into_rtranclp R2])
  define r2 where "r2 = r1\<lparr>ep_conn := r'\<lparr>cn_segments_out := []\<rparr>, ep_sent := ep_sent r1 \<union> set (cn_segments_out r')\<rparr>"
  have "(ep_step ys (ep_sent l1))\<^sup>*\<^sup>* (r1\<lparr>ep_conn := r'\<rparr>) r2" using drain[of ys "ep_sent l1" "r1\<lparr>ep_conn := r'\<rparr>"] by (simp add: r2_def)
  then have R4: "?reach (l1, r2)" by (rule reach_right) (rule R3)
  have "last (cn_segments_out r') \<in> ep_sent r2" using rep by (simp add: r2_def)
  then have "ep_step xs (ep_sent r2) l1 (l1\<lparr>ep_conn := l'\<rparr>)" by (rule ep_receive[OF _ alike_refl]) (use rep in \<open>simp add: l1_def\<close>)
  then have R5: "?reach (l1\<lparr>ep_conn := l'\<rparr>, r2)" by (intro reach_left[OF r_into_rtranclp R4])
  have "0 < seg_len seg" using seg by (simp add: seg_at_def)
  then show ?thesis
    using R5 rep r1(4) by (intro exI[of _ "l1\<lparr>ep_conn := l'\<rparr>"] exI[of _ r2]) (simp add: r2_def)
qed

lemma unstuck:
  assumes sz: "sized xs ys cl" "sized ys xs cr" and "duplex_reach ep_step ep_sent xs ys (ep_new cl u, ep_new cr v) (l, r)"
    and "sd_recount (cn_sender (ep_conn l)) < MAX_RETX_ATTEMPTS" and "0 < ep_next r" and "1000 \<le> unat (sr_capacity (ep_reassembler r))"
  shows "\<exists>l' r'. duplex_reach ep_step ep_sent xs ys (l, r) (l', r') \<and> sd_outstandings (cn_sender (ep_conn l')) = []"
  using assms(3-6)
proof (induction "length xs + 2 - ep_una l" arbitrary: l r rule: less_induct)
  case less
  show ?case
  proof (cases "sd_outstandings (cn_sender (ep_conn l))")
    case Nil
    show ?thesis by (rule exI[of _ l], rule exI[of _ r]) (simp add: Nil duplex_reach.start)
  next
    case (Cons seg segs)
    from unstuck_round[OF sz less.prems(1) Cons less.prems(2-4)] obtain l1 r1 where
      one: "duplex_reach ep_step ep_sent xs ys (l, r) (l1, r1)" "ep_una l < ep_una l1" "sd_recount (cn_sender (ep_conn l1)) = 0"
        "0 < ep_next r1" "sr_capacity (ep_reassembler r1) = sr_capacity (ep_reassembler r)" by blast
    have reach1: "duplex_reach ep_step ep_sent xs ys (ep_new cl u, ep_new cr v) (l1, r1)" by (rule reach_trans[OF one(1) less.prems(1)])
    have "ep_inv xs ys (ep_isn r1) l1" using duplex_both[OF sz reach1] by (simp add: tcp.both_def)
    then have "sd_inv xs (cn_sender (ep_conn l1))" by (simp add: ep_inv_def conn_inv_def)
    then have "ep_una l1 \<le> length xs + 2" using sd_phase_bound[of xs] by (auto simp: sd_inv_def sd_una_def intro: le_trans[OF diff_le_self])
    then have dec: "length xs + 2 - ep_una l1 < length xs + 2 - ep_una l" using one(2) by linarith
    have "sd_recount (cn_sender (ep_conn l1)) < MAX_RETX_ATTEMPTS" using one(3) by (simp add: MAX_RETX_ATTEMPTS_def)
    from less.hyps[OF dec reach1 this one(4)] less.prems(4) one(5) obtain l' r' where
      "duplex_reach ep_step ep_sent xs ys (l1, r1) (l', r')" "sd_outstandings (cn_sender (ep_conn l')) = []" by auto
    then show ?thesis using reach_trans[OF _ one(1)] by (intro exI[of _ l'] exI[of _ r']) simp
  qed
qed

end
