(* ===== verification/Tcp_Liveness.thy ===== *)
theory Tcp_Liveness
  imports Tcp_Progress
begin

text \<open>
  What two connections can still achieve, and where they cannot: a loss is repaired by one retransmission, everything that
  has been sent can be delivered from every state, and one sequence of events after which a sender waits for ever.
\<close>

section \<open>Executions with delays\<close>

text \<open>
  Schedules with the clock, with reads, and with segments of the right endpoint that the network holds back and delivers
  later; the held segments are a list beside the two endpoints.
\<close>

datatype event = Act action | Tick bool size_t | Read bool size_t | Hold | Late

definition ep_reads :: "endpoint \<Rightarrow> size_t \<Rightarrow> endpoint result" where
  "ep_reads e n = andthen (rx_read (cn_receiver (ep_conn e)) n) (\<lambda>(d, rc).
     Inr (e\<lparr>ep_conn := (ep_conn e)\<lparr>cn_receiver := rc\<rparr>, ep_got := ep_got e @ d\<rparr>))"

definition ep_ticks :: "endpoint \<Rightarrow> size_t \<Rightarrow> endpoint" where
  "ep_ticks e ms = e\<lparr>ep_conn := TCPConnection_tick (ep_conn e) ms\<rparr>"

fun do_event :: "bytes \<Rightarrow> bytes \<Rightarrow> endpoint \<times> endpoint \<times> TCPSegment list \<Rightarrow> event \<Rightarrow> (endpoint \<times> endpoint \<times> TCPSegment list) result" where
  "do_event xs ys (l, r, h) (Act a) = andthen (do_act xs ys (l, r) a) (\<lambda>(l', r'). Inr (l', r', h))"
| "do_event xs ys (l, r, h) (Tick left ms) = Inr (if left then (ep_ticks l ms, r, h) else (l, ep_ticks r ms, h))"
| "do_event xs ys (l, r, h) (Read left n) =
     (if left then andthen (ep_reads l n) (\<lambda>l'. Inr (l', r, h)) else andthen (ep_reads r n) (\<lambda>r'. Inr (l, r', h)))"
| "do_event xs ys (l, r, h) Hold =
     (case cn_segments_out (ep_conn r) of
        [] \<Rightarrow> Inr (l, r, h)
      | seg # segs \<Rightarrow> Inr (l, r\<lparr>ep_conn := (ep_conn r)\<lparr>cn_segments_out := segs\<rparr>, ep_sent := insert seg (ep_sent r)\<rparr>, h @ [seg]))"
| "do_event xs ys (l, r, h) Late =
     (case h of
        [] \<Rightarrow> Inr (l, r, h)
      | seg # h' \<Rightarrow> andthen (TCPConnection_segment_received (ep_conn l) seg) (\<lambda>c. Inr (l\<lparr>ep_conn := c\<rparr>, r, h')))"

primrec do_events :: "bytes \<Rightarrow> bytes \<Rightarrow> endpoint \<times> endpoint \<times> TCPSegment list \<Rightarrow> event list \<Rightarrow> (endpoint \<times> endpoint \<times> TCPSegment list) result" where
  "do_events xs ys p [] = Inr p"
| "do_events xs ys p (a # as) = andthen (do_event xs ys p a) (\<lambda>q. do_events xs ys q as)"

lemma do_act_sent: "do_act xs ys (l, r) a = Inr (l', r') \<Longrightarrow> ep_sent r \<subseteq> ep_sent r'"
  by (cases a) (auto simp: do_act_def pass_front_def andthen_Inr_iff split: if_splits list.splits)

lemma do_event_reach:
  assumes reach: "duplex_reach ep_step ep_sent xs ys p (l, r)" and h: "set h \<subseteq> ep_sent r" and run: "do_event xs ys (l, r, h) a = Inr (l', r', h')"
  shows "duplex_reach ep_step ep_sent xs ys p (l', r') \<and> set h' \<subseteq> ep_sent r'"
proof -
  note L = reach_left[OF r_into_rtranclp reach] and R = reach_right[OF r_into_rtranclp reach]
  show ?thesis
  proof (cases a)
    case (Act b)
    then show ?thesis using run h do_act_sent[of xs ys l r b] do_act_reach[OF reach, of b] by (auto simp: andthen_Inr_iff)
  next
    case (Tick left ms)
    then show ?thesis using run h L[OF ep_tick, of ms] R[OF ep_tick, of ms] by (auto simp: ep_ticks_def split: if_splits)
  next
    case (Read left n)
    then show ?thesis using run h L[OF ep_read] R[OF ep_read] by (auto simp: ep_reads_def andthen_Inr_iff split: if_splits)
  next
    case Hold
    then show ?thesis using run h reach R[OF ep_transmit] by (auto split: list.splits)
  next
    case Late
    then show ?thesis using run h reach L[OF ep_receive[OF _ alike_refl]] by (auto simp: andthen_Inr_iff split: list.splits)
  qed
qed

lemma do_events_reach:
  "do_events xs ys (l, r, h) as = Inr (l', r', h') \<Longrightarrow> duplex_reach ep_step ep_sent xs ys p (l, r) \<Longrightarrow> set h \<subseteq> ep_sent r \<Longrightarrow>
   duplex_reach ep_step ep_sent xs ys p (l', r')"
proof (induction as arbitrary: l r h)
  case (Cons a as)
  obtain l1 r1 h1 where one: "do_event xs ys (l, r, h) a = Inr (l1, r1, h1)" "do_events xs ys (l1, r1, h1) as = Inr (l', r', h')"
    using Cons.prems(1) by (auto simp: andthen_Inr_iff)
  show ?case using Cons.IH[OF one(2)] do_event_reach[OF Cons.prems(2,3) one(1)] by blast
qed simp

text \<open>A run whose outcome satisfies an executable condition.\<close>

definition ends_in :: "bytes \<Rightarrow> bytes \<Rightarrow> endpoint \<times> endpoint \<Rightarrow> event list \<Rightarrow> (endpoint \<Rightarrow> endpoint \<Rightarrow> bool) \<Rightarrow> bool" where
  "ends_in xs ys = (\<lambda>(l, r) as P. case do_events xs ys (l, r, []) as of Inl e \<Rightarrow> False | Inr (l', r', h) \<Rightarrow> P l' r')"

lemma ends_in_reach:
  assumes "ends_in xs ys (l, r) as P"
  shows "\<exists>l' r'. duplex_reach ep_step ep_sent xs ys (l, r) (l', r') \<and> P l' r'"
proof -
  obtain l' r' h where "do_events xs ys (l, r, []) as = Inr (l', r', h)" "P l' r'"
    using assms by (auto simp: ends_in_def split: sum.splits prod.splits)
  then show ?thesis using do_events_reach[OF _ duplex_reach.start] by fastforce
qed

section \<open>The sender that no longer probes\<close>

text \<open>A sender with bytes to send that neither probes nor retransmits, and a peer that waits for the next segment.\<close>

definition stuck :: "TCPConnection \<Rightarrow> bool" where
  "stuck c \<longleftrightarrow> sd_window (cn_sender c) = 0 \<and> sd_probing (cn_sender c) \<and> sd_window_right (cn_sender c) < sd_next_seqno (cn_sender c) \<and>
     sd_outstandings (cn_sender c) = [] \<and> sd_segments_out (cn_sender c) = [] \<and> cn_segments_out c = [] \<and>
     \<not> ByteStream_buffer_empty (sd_stream (cn_sender c)) \<and> cn_active c \<and> sd_recount (cn_sender c) \<le> MAX_RETX_ATTEMPTS"

definition at_rest :: "TCPConnection \<Rightarrow> bool" where
  "at_rest c \<longleftrightarrow> sd_outstandings (cn_sender c) = [] \<and> sd_segments_out (cn_sender c) = [] \<and> cn_segments_out c = [] \<and>
     sd_recount (cn_sender c) \<le> MAX_RETX_ATTEMPTS"

definition small_window :: TCPConfig where
  "small_window = \<lparr>cfg_rt_timeout = 1000, cfg_recv_capacity = 2, cfg_send_capacity = 10, cfg_fixed_isn = Some (WrappingInt32 9)\<rparr>"

abbreviation "stall_start \<equiv> (ep_new (small_cfg 7) 0, ep_new small_window 0)"

text \<open>
  Five bytes from left to right into a buffer of two. The right endpoint has nothing to send and closes at once. Two bytes
  fill its buffer, the third is a probe and its answer is held back; the reader makes room, the probe is retransmitted and
  acknowledged with a window of one; then the held answer arrives.
\<close>

definition stall :: "event list" where
  "stall = [Act (Connect True), Act (Pass True), Act (Pass False), Act (Pass True),
     Act (Close False), Act (Pass False), Act (Pass True),
     Act (Write True 2), Act (Pass True), Act (Pass False),
     Act (Write True 1), Act (Pass True), Hold, Read False 2,
     Tick True 1000, Act (Pass True), Act (Pass False), Late,
     Act (Write True 1), Act (Pass True), Act (Pass False), Act (Write True 1), Read False 2]"

lemma stall_runs: "ends_in [1, 2, 3, 4, 5] [] stall_start stall (\<lambda>l r. stuck (ep_conn l) \<and> at_rest (ep_conn r) \<and>
   ep_got r = [1, 2, 3, 4] \<and> TCPState_summary_sender (cn_sender (ep_conn r)) = TCPSenderStateSummary_FIN_ACKED)"
  by code_simp

text \<open>
  What the two endpoints can do while the network delivers nothing: the left one connects, writes, closes, reads and lets
  time pass, the right one reads and lets time pass.
\<close>

inductive alone :: "endpoint \<times> endpoint \<Rightarrow> endpoint \<times> endpoint \<Rightarrow> bool" where
  alone_connect: "TCPConnection_connect (ep_conn l) = Inr c \<Longrightarrow> alone (l, r) (l\<lparr>ep_conn := c\<rparr>, r)"
| alone_write: "length data < 2 ^ 63 \<Longrightarrow> TCPConnection_write (ep_conn l) data = Inr (k, c) \<Longrightarrow> alone (l, r) (l\<lparr>ep_conn := c\<rparr>, r)"
| alone_close: "TCPConnection_end_input_stream (ep_conn l) = Inr c \<Longrightarrow> alone (l, r) (l\<lparr>ep_conn := c\<rparr>, r)"
| alone_tick: "alone (l, r) (ep_ticks l ms, r)"
| alone_read: "ep_reads l n = Inr l' \<Longrightarrow> alone (l, r) (l', r)"
| peer_tick: "alone (l, r) (l, ep_ticks r ms)"
| peer_read: "ep_reads r n = Inr r' \<Longrightarrow> alone (l, r) (l, r')"

definition deadlocked :: "endpoint \<Rightarrow> endpoint \<Rightarrow> bool" where
  "deadlocked l r \<longleftrightarrow> (\<forall>l' r'. alone\<^sup>*\<^sup>* (l, r) (l', r') \<longrightarrow>
     cn_segments_out (ep_conn l') = [] \<and> cn_segments_out (ep_conn r') = [] \<and> ep_sent l' = ep_sent l \<and> ep_sent r' = ep_sent r \<and>
     TCPConnection_active (ep_conn l') \<and> \<not> ByteStream_buffer_empty (sd_stream (cn_sender (ep_conn l'))))"

lemma stuck_refill:
  assumes c: "stuck c" and st: "bs_wf st" "bs_buffer st \<noteq> []" and run: "TCPSender_fill_window ((cn_sender c)\<lparr>sd_stream := st\<rparr>) = Inr s"
  shows "stuck (seg_2_seg (c\<lparr>cn_sender := s\<rparr>)) \<and> sd_stream (cn_sender (seg_2_seg (c\<lparr>cn_sender := s\<rparr>))) = st"
proof -
  have "\<not> sd_next_seqno (cn_sender c) \<le> sd_window_right (cn_sender c)" using c by (simp add: stuck_def not_le)
  then have "s = (cn_sender c)\<lparr>sd_stream := st\<rparr>"
    using c run by (simp add: stuck_def TCPSender_fill_window_def TCPSender_next_seqno_absolute_def)
  then show ?thesis using c st by (simp add: stuck_def seg_2_seg_def)
qed

lemma stuck_tick:
  assumes c: "stuck c" and wf: "bs_wf (sd_stream (cn_sender c))"
  shows "stuck (TCPConnection_tick c ms) \<and> sd_stream (cn_sender (TCPConnection_tick c ms)) = sd_stream (cn_sender c)"
proof -
  let ?d = "c\<lparr>cn_time_since_last_segment_received := cn_time_since_last_segment_received c + ms\<rparr>"
  have s: "TCPSender_tick (cn_sender c) ms = cn_sender c" using c by (simp add: stuck_def TCPSender_tick_def)
  have d: "c\<lparr>cn_sender := cn_sender c, cn_time_since_last_segment_received := cn_time_since_last_segment_received c + ms\<rparr> = ?d"
    by (cases c) simp
  have eof: "\<not> ByteStream_eof (sd_stream (cn_sender c))" using c wf by (simp add: stuck_def eof_iff)
  then have "TCPState_summary_sender (cn_sender c) \<noteq> TCPSenderStateSummary_FIN_ACKED" by (simp add: summary_FIN_ACKED)
  then have "\<not> TCPState_eq (TCPConnection_state ?d) (TCPState_official TIME_WAIT)"
    by (simp add: TCPConnection_state_def TCPState_new_def)
  moreover have "\<not> MAX_RETX_ATTEMPTS < TCPSender_consecutive_retransmissions (cn_sender c)"
    using c by (simp add: stuck_def TCPSender_consecutive_retransmissions_def not_less)
  ultimately have "TCPConnection_tick c ms = seg_2_seg ?d"
    using eof by (simp add: TCPConnection_tick_def s d Let_def seg_2_seg_def)
  then show ?thesis using c by (simp add: stuck_def seg_2_seg_def)
qed

lemma at_rest_tick:
  assumes "at_rest c"
  shows "at_rest (TCPConnection_tick c ms)"
proof -
  have s: "TCPSender_tick (cn_sender c) ms = cn_sender c" using assms by (simp add: at_rest_def TCPSender_tick_def)
  show ?thesis
    by (cases rule: conn_tick_cases[where c = c and ms = ms]) (use assms s in \<open>auto simp: at_rest_def seg_2_seg_def\<close>)
qed

definition stalled :: "endpoint \<times> endpoint \<Rightarrow> bool" where
  "stalled p \<longleftrightarrow> stuck (ep_conn (fst p)) \<and> bs_wf (sd_stream (cn_sender (ep_conn (fst p)))) \<and> at_rest (ep_conn (snd p))"

lemma stalled_step:
  assumes "alone p q" and "stalled p"
  shows "stalled q \<and> ep_sent (fst q) = ep_sent (fst p) \<and> ep_sent (snd q) = ep_sent (snd p)"
proof -
  obtain l r where p: "p = (l, r)" by (cases p)
  let ?st = "sd_stream (cn_sender (ep_conn l))"
  have c: "stuck (ep_conn l)" "bs_wf ?st" "at_rest (ep_conn r)" using assms(2) by (simp_all add: stalled_def p)
  have full: "bs_buffer ?st \<noteq> []" using c by (simp add: stuck_def)
  note refill = stuck_refill[OF c(1)]
  from assms(1)[unfolded p] show ?thesis
  proof cases
    case (alone_connect k)
    then obtain s where s: "TCPSender_fill_window (cn_sender (ep_conn l)) = Inr s" "k = seg_2_seg ((ep_conn l)\<lparr>cn_sender := s\<rparr>)"
      by (auto simp: TCPConnection_connect_def andthen_Inr_iff)
    then show ?thesis using alone_connect(1) refill[OF c(2) full, of s] c by (simp add: stalled_def p)
  next
    case (alone_write data n k)
    define st where "st = snd (ByteStream_write ?st data)"
    obtain s where s: "TCPSender_fill_window ((cn_sender (ep_conn l))\<lparr>sd_stream := st\<rparr>) = Inr s" "k = seg_2_seg ((ep_conn l)\<lparr>cn_sender := s\<rparr>)"
      using alone_write(3) by (auto simp: TCPConnection_write_def andthen_Inr_iff st_def case_prod_beta)
    have "bs_wf st" using write_wf[OF c(2) alone_write(2)] by (simp add: st_def)
    moreover have "bs_buffer st \<noteq> []" using full by (simp add: st_def ByteStream_write_def Let_def)
    ultimately show ?thesis using alone_write(1) refill[OF _ _ s(1)] c s(2) by (simp add: stalled_def p)
  next
    case (alone_close k)
    define st where "st = ByteStream_end_input ?st"
    obtain s where s: "TCPSender_fill_window ((cn_sender (ep_conn l))\<lparr>sd_stream := st\<rparr>) = Inr s" "k = seg_2_seg ((ep_conn l)\<lparr>cn_sender := s\<rparr>)"
      using alone_close(2) by (auto simp: TCPConnection_end_input_stream_def andthen_Inr_iff st_def Let_def)
    have "bs_wf st" "bs_buffer st \<noteq> []" using c(2) full by (simp_all add: st_def ByteStream_end_input_def bs_wf_def)
    then show ?thesis using alone_close(1) refill[OF _ _ s(1)] c s(2) by (simp add: stalled_def p)
  next
    case (alone_tick ms)
    then show ?thesis using c stuck_tick[OF c(1,2), of ms] by (simp add: stalled_def p ep_ticks_def)
  next
    case (alone_read n l')
    then show ?thesis using c by (auto simp: stalled_def p ep_reads_def andthen_Inr_iff stuck_def)
  next
    case (peer_tick ms)
    then show ?thesis using c at_rest_tick[OF c(3), of ms] by (simp add: stalled_def p ep_ticks_def)
  next
    case (peer_read n r')
    then show ?thesis using c by (auto simp: stalled_def p ep_reads_def andthen_Inr_iff at_rest_def)
  qed
qed

lemma stalled_steps:
  "alone\<^sup>*\<^sup>* p q \<Longrightarrow> stalled p \<Longrightarrow> stalled q \<and> ep_sent (fst q) = ep_sent (fst p) \<and> ep_sent (snd q) = ep_sent (snd p)"
  by (induction rule: rtranclp_induct) (auto dest: stalled_step)

lemma stalled_deadlocked: "stalled (l, r) \<Longrightarrow> deadlocked l r"
  unfolding deadlocked_def using stalled_steps by (fastforce simp: stalled_def stuck_def at_rest_def TCPConnection_active_def)

section \<open>Properties\<close>


definition lossy :: "event list" where
  "lossy = [Act (Connect True), Act (Pass True), Act (Pass False), Act (Write True 2)]"

definition roomy :: TCPConfig where
  "roomy = \<lparr>cfg_rt_timeout = 1000, cfg_recv_capacity = 1000, cfg_send_capacity = 10, cfg_fixed_isn = Some (WrappingInt32 9)\<rparr>"

lemma lossy_runs:
  "ends_in [1, 2] [] (ep_new (small_cfg 7) 0, ep_new roomy 0) lossy (\<lambda>l r. sd_outstandings (cn_sender (ep_conn l)) \<noteq> [] \<and>
     seg_payload (hd (sd_outstandings (cn_sender (ep_conn l)))) = [1, 2] \<and> ep_una l = 1 \<and>
     ucast (sd_RTO (cn_sender (ep_conn l))) \<le> 1000 + sd_timePassed (cn_sender (ep_conn l)) \<and>
     sd_recount (cn_sender (ep_conn l)) < MAX_RETX_ATTEMPTS \<and> 0 < ep_next r \<and> 1000 \<le> sr_capacity (ep_reassembler r))"
  by code_simp

lemma roomy_sized: "sized [1, 2] [] (small_cfg 7)" "sized [] [1, 2] roomy"
  by (simp_all add: sized_def small_cfg_def roomy_def)

lemma lossy_reach:
  "\<exists>l r seg segs. duplex_reach ep_step ep_sent [1, 2] [] (ep_new (small_cfg 7) 0, ep_new roomy 0) (l, r) \<and>
     sd_outstandings (cn_sender (ep_conn l)) = seg # segs \<and> seg_payload seg = [1, 2] \<and> ep_una l = 1 \<and>
     ucast (sd_RTO (cn_sender (ep_conn l))) \<le> 1000 + sd_timePassed (cn_sender (ep_conn l)) \<and>
     sd_recount (cn_sender (ep_conn l)) < MAX_RETX_ATTEMPTS \<and> 0 < ep_next r \<and> 1000 \<le> unat (sr_capacity (ep_reassembler r))"
proof -
  from ends_in_reach[OF lossy_runs] obtain l r where
    "duplex_reach ep_step ep_sent [1, 2] [] (ep_new (small_cfg 7) 0, ep_new roomy 0) (l, r)"
    "sd_outstandings (cn_sender (ep_conn l)) \<noteq> []" "seg_payload (hd (sd_outstandings (cn_sender (ep_conn l)))) = [1, 2]" "ep_una l = 1"
    "ucast (sd_RTO (cn_sender (ep_conn l))) \<le> 1000 + sd_timePassed (cn_sender (ep_conn l))"
    "sd_recount (cn_sender (ep_conn l)) < MAX_RETX_ATTEMPTS" "0 < ep_next r" "1000 \<le> sr_capacity (ep_reassembler r)" by blast
  then show ?thesis
    by (intro exI[of _ l] exI[of _ r] exI[of _ "hd (sd_outstandings (cn_sender (ep_conn l)))"] exI[of _ "tl (sd_outstandings (cn_sender (ep_conn l)))"])
      (simp add: word_le_nat_alt)
qed




text \<open>C39: A sender that waits for ever. A zero-window acknowledgment that is overtaken by the one that opens the
window makes \<open>fill_window\<close> set \<open>probing\<close> while there is room up to \<open>window_right\<close>; the flag is cleared only when
\<open>window_right\<close> moves. When the peer's buffer is full again the right edge has not moved, so the sender neither probes nor
has anything to retransmit: one byte stays in the outbound stream although the peer has read everything, both
connections are alive, and no passing of time, no writing, closing or reading sends a segment ever again.\<close>

theorem zero_window_deadlock:
  "\<exists>l r. duplex_reach ep_step ep_sent [1, 2, 3, 4, 5] [] stall_start (l, r) \<and> deadlocked l r \<and> ep_got r = [1, 2, 3, 4] \<and>
     TCPState_summary_sender (cn_sender (ep_conn r)) = TCPSenderStateSummary_FIN_ACKED"
proof -
  from ends_in_reach[OF stall_runs] obtain l r where
    run: "duplex_reach ep_step ep_sent [1, 2, 3, 4, 5] [] stall_start (l, r)" "stuck (ep_conn l)" "at_rest (ep_conn r)"
      "ep_got r = [1, 2, 3, 4]" "TCPState_summary_sender (cn_sender (ep_conn r)) = TCPSenderStateSummary_FIN_ACKED" by blast
  have "tcp.both [1, 2, 3, 4, 5] [] (l, r)"
    by (rule duplex_both[OF _ _ run(1)]) (simp_all add: sized_def small_cfg_def small_window_def)
  then have "sd_stream_inv [1, 2, 3, 4, 5] (sd_stream (cn_sender (ep_conn l)))" by (simp add: tcp.both_def ep_inv_def conn_inv_def sd_inv_def)
  then have "stalled (l, r)" using run stream_inv_facts(1) by (simp add: stalled_def)
  then show ?thesis using run stalled_deadlocked by blast
qed

end
