(* ===== verification/Stream_Copy.thy ===== *)
theory Stream_Copy
  imports Event_Loop Sockets Byte_Stream Intervals
begin

text \<open>
  \<open>apps/bidirectional_stream_copy.cc\<close>: four rules of an event loop between the standard input, a socket and the standard
  output, with a byte stream for each direction. The system calls are functions on the state of a kernel.
\<close>

section \<open>State and system calls\<close>

record 'k copy_env =
  ce_read :: "cint \<Rightarrow> size_t \<Rightarrow> 'k \<Rightarrow> read_answer \<times> 'k"
  ce_writev :: "'k writev"
  ce_shutdown :: "cint \<Rightarrow> cint \<Rightarrow> 'k \<Rightarrow> sys_answer \<times> 'k"
  ce_close :: "cint \<Rightarrow> 'k \<Rightarrow> sys_answer \<times> 'k"
  ce_poll :: "pollfd list \<Rightarrow> cint \<Rightarrow> 'k \<Rightarrow> (cint \<times> cint \<times> u16 list) \<times> 'k"
  ce_getfl :: "cint \<Rightarrow> cint \<times> cint"
  ce_setfl :: "cint \<Rightarrow> cint \<Rightarrow> cint \<times> cint"

record copy_state =
  cp_socket :: FDWrapper
  cp_input :: FDWrapper
  cp_output :: FDWrapper
  cp_outbound :: ByteStream
  cp_inbound :: ByteStream
  cp_outbound_shutdown :: bool
  cp_inbound_shutdown :: bool

type_synonym 'k copy_world = "copy_state \<times> 'k"

definition max_copy_length :: size_t where
  "max_copy_length = 65536"

definition copy_buffer_size :: size_t where
  "copy_buffer_size = 1048576"

section \<open>The four rules\<close>

text \<open>Reading from a descriptor into a stream, and writing from a stream to a descriptor.\<close>

definition copy_pull :: "'k copy_env \<Rightarrow> FDWrapper \<Rightarrow> ByteStream \<Rightarrow> 'k \<Rightarrow> (FDWrapper \<times> ByteStream \<times> 'k) result" where
  "copy_pull env fd st k =
     (let limit = ByteStream_remaining_capacity st;
          (answer, k1) = ce_read env (fd_fd fd) (min BUFFER_SIZE limit) k
      in andthen (FileDescriptor_read fd limit answer) (\<lambda>(data, fd1).
         let st1 = snd (ByteStream_write st data)
         in Inr (fd1, if fd_eof fd1 then ByteStream_end_input st1 else st1, k1)))"

definition copy_push :: "'k copy_env \<Rightarrow> FDWrapper \<Rightarrow> ByteStream \<Rightarrow> 'k \<Rightarrow> (FDWrapper \<times> ByteStream \<times> 'k) result" where
  "copy_push env fd st k =
     (let bytes_to_write = min max_copy_length (ByteStream_buffer_size st)
      in andthen (FileDescriptor_write (ce_writev env) fd [ByteStream_peek_output st bytes_to_write] False k) (\<lambda>(bytes_written, fd1, k1).
         andthen (ByteStream_pop_output st bytes_written) (\<lambda>st1. Inr (fd1, st1, k1))))"

text \<open>Rule 1: read from stdin into outbound byte stream.\<close>

fun copy1_callback :: "'k copy_env \<Rightarrow> 'k copy_world \<Rightarrow> 'k copy_world result" where
  "copy1_callback env (s, k) =
     andthen (copy_pull env (cp_input s) (cp_outbound s) k) (\<lambda>(fd, st, k1). Inr (s\<lparr>cp_input := fd, cp_outbound := st\<rparr>, k1))"

fun copy1_interest :: "'k copy_world \<Rightarrow> bool" where
  "copy1_interest (s, k) \<longleftrightarrow> \<not> ByteStream_error (cp_outbound s) \<and> 0 < ByteStream_remaining_capacity (cp_outbound s) \<and>
     \<not> ByteStream_error (cp_inbound s)"

text \<open>The cancellation of rules 1 and 2, and that of rules 3 and 4.\<close>

fun copy_end_outbound :: "'k copy_world \<Rightarrow> 'k copy_world result" where
  "copy_end_outbound (s, k) = Inr (s\<lparr>cp_outbound := ByteStream_end_input (cp_outbound s)\<rparr>, k)"

fun copy_end_inbound :: "'k copy_world \<Rightarrow> 'k copy_world result" where
  "copy_end_inbound (s, k) = Inr (s\<lparr>cp_inbound := ByteStream_end_input (cp_inbound s)\<rparr>, k)"

text \<open>Rule 2: read from outbound byte stream into socket.\<close>

fun copy2_callback :: "'k copy_env \<Rightarrow> 'k copy_world \<Rightarrow> 'k copy_world result" where
  "copy2_callback env (s, k) =
     andthen (copy_push env (cp_socket s) (cp_outbound s) k) (\<lambda>(fd, st, k1).
     let s1 = s\<lparr>cp_socket := fd, cp_outbound := st\<rparr>
     in if ByteStream_eof st
        then let (answer, k2) = ce_shutdown env (fd_fd fd) SHUT_WR k1
             in andthen (Socket_shutdown fd SHUT_WR answer) (\<lambda>fd1. Inr (s1\<lparr>cp_socket := fd1, cp_outbound_shutdown := True\<rparr>, k2))
        else Inr (s1, k1))"

fun copy2_interest :: "'k copy_world \<Rightarrow> bool" where
  "copy2_interest (s, k) \<longleftrightarrow> \<not> ByteStream_buffer_empty (cp_outbound s) \<or> (ByteStream_eof (cp_outbound s) \<and> \<not> cp_outbound_shutdown s)"

text \<open>Rule 3: read from socket into inbound byte stream.\<close>

fun copy3_callback :: "'k copy_env \<Rightarrow> 'k copy_world \<Rightarrow> 'k copy_world result" where
  "copy3_callback env (s, k) =
     andthen (copy_pull env (cp_socket s) (cp_inbound s) k) (\<lambda>(fd, st, k1). Inr (s\<lparr>cp_socket := fd, cp_inbound := st\<rparr>, k1))"

fun copy3_interest :: "'k copy_world \<Rightarrow> bool" where
  "copy3_interest (s, k) \<longleftrightarrow> \<not> ByteStream_error (cp_inbound s) \<and> 0 < ByteStream_remaining_capacity (cp_inbound s) \<and>
     \<not> ByteStream_error (cp_outbound s)"

text \<open>Rule 4: read from inbound byte stream into stdout.\<close>

fun copy4_callback :: "'k copy_env \<Rightarrow> 'k copy_world \<Rightarrow> 'k copy_world result" where
  "copy4_callback env (s, k) =
     andthen (copy_push env (cp_output s) (cp_inbound s) k) (\<lambda>(fd, st, k1).
     let s1 = s\<lparr>cp_output := fd, cp_inbound := st\<rparr>
     in if ByteStream_eof st
        then let ((ret, errno), k2) = ce_close env (fd_fd fd) k1
             in andthen (FDWrapper_close fd ret errno) (\<lambda>fd1. Inr (s1\<lparr>cp_output := fd1, cp_inbound_shutdown := True\<rparr>, k2))
        else Inr (s1, k1))"

fun copy4_interest :: "'k copy_world \<Rightarrow> bool" where
  "copy4_interest (s, k) \<longleftrightarrow> \<not> ByteStream_buffer_empty (cp_inbound s) \<or> (ByteStream_eof (cp_inbound s) \<and> \<not> cp_inbound_shutdown s)"

section \<open>The loop\<close>

text \<open>Descriptor 0 is the standard input, descriptor 1 the socket, descriptor 2 the standard output.\<close>

fun copy_fdw :: "'k copy_world fdw" where
  "copy_fdw (s, k) fd = (if fd = 0 then cp_input s else if fd = 1 then cp_socket s else cp_output s)"

fun copy_poll :: "'k copy_env \<Rightarrow> 'k copy_world poll" where
  "copy_poll env pfs timeout (s, k) = (let (answer, k1) = ce_poll env pfs timeout k in (answer, s, k1))"

definition copy_rules :: "'k copy_env \<Rightarrow> 'k copy_world EventLoop" where
  "copy_rules env =
     EventLoop_add_rule (EventLoop_add_rule (EventLoop_add_rule (EventLoop_add_rule EventLoop_new
       0 In (copy1_callback env) copy1_interest copy_end_outbound)
       1 Out (copy2_callback env) copy2_interest copy_end_outbound)
       1 In (copy3_callback env) copy3_interest copy_end_inbound)
       2 Out (copy4_callback env) copy4_interest copy_end_inbound"

definition copy_round ::
  "'k copy_env \<Rightarrow> 'k copy_world \<times> 'k copy_world EventLoop \<times> bool \<Rightarrow> ('k copy_world \<times> 'k copy_world EventLoop \<times> bool) result" where
  "copy_round env = (\<lambda>(w, el, exit).
     andthen (EventLoop_wait_next_event copy_fdw (copy_poll env) el (- 1) w) (\<lambda>(ret, el1, w1). Inr (w1, el1, ret = Exit)))"

definition copy_start :: "FDWrapper \<Rightarrow> FDWrapper \<Rightarrow> FDWrapper \<Rightarrow> copy_state" where
  "copy_start socket input output =
     \<lparr>cp_socket = socket, cp_input = input, cp_output = output,
      cp_outbound = ByteStream_new copy_buffer_size, cp_inbound = ByteStream_new copy_buffer_size,
      cp_outbound_shutdown = False, cp_inbound_shutdown = False\<rparr>"

definition copy_set_nonblocking :: "'k copy_env \<Rightarrow> FDWrapper \<Rightarrow> cint result" where
  "copy_set_nonblocking env fd = FileDescriptor_set_blocking False (ce_getfl env (fd_fd fd)) (ce_setfl env (fd_fd fd))"

definition bidirectional_stream_copy :: "'k copy_env \<Rightarrow> FDWrapper \<Rightarrow> 'k \<Rightarrow> 'k copy_world result" where
  "bidirectional_stream_copy env socket k =
     andthen (FDWrapper_new 0) (\<lambda>input.
     andthen (FDWrapper_new 1) (\<lambda>output.
     andthen (copy_set_nonblocking env socket) (\<lambda>_.
     andthen (copy_set_nonblocking env input) (\<lambda>_.
     andthen (copy_set_nonblocking env output) (\<lambda>_.
     andthen (while_loop (\<lambda>(w, el, exit). \<not> exit) (copy_round env) ((copy_start socket input output, k), copy_rules env, False))
       (\<lambda>(w, el, exit). Inr w))))))"

declare copy1_callback.simps [simp del] copy2_callback.simps [simp del] copy3_callback.simps [simp del] copy4_callback.simps [simp del]

section \<open>What the kernel promises\<close>

text \<open>
  Readings of the kernel's state: the bytes that will ever come from a descriptor, how many of them have been read, and
  the bytes a descriptor has taken.
\<close>

record 'k copy_reading =
  src_of :: "cint \<Rightarrow> bytes"
  pos_of :: "'k \<Rightarrow> cint \<Rightarrow> nat"
  out_of :: "'k \<Rightarrow> cint \<Rightarrow> bytes"

text \<open>
  A call of \<open>read\<close> fails with an error number or delivers the next bytes, none only at the end; a call of \<open>writev\<close> fails or
  takes some of the bytes offered, from the front; the other calls read and write nothing.
\<close>

definition copy_read_law :: "'k copy_env \<Rightarrow> 'k copy_reading \<Rightarrow> bool" where
  "copy_read_law env g \<longleftrightarrow> (\<forall>fd n k ret e d k'. ce_read env fd n k = ((ret, e, d), k') \<longrightarrow> length d \<le> unat n \<and>
     (sint (size_to_int ret) < 0 \<and> e \<noteq> 0 \<or>
      ret = of_nat (length d) \<and> d = slice (src_of g fd) (pos_of g k fd) (length d) \<and>
      pos_of g k fd + length d \<le> length (src_of g fd) \<and> (d = [] \<and> 0 < n \<longrightarrow> pos_of g k fd = length (src_of g fd)) \<and>
      pos_of g k' = (pos_of g k)(fd := pos_of g k fd + length d) \<and> out_of g k' = out_of g k))"

definition copy_write_law :: "'k copy_env \<Rightarrow> 'k copy_reading \<Rightarrow> bool" where
  "copy_write_law env g \<longleftrightarrow> (\<forall>fd s k ret e k'. ce_writev env fd [(s, size_of s)] k = (ret, e, k') \<longrightarrow>
     sint (size_to_int ret) < 0 \<and> e \<noteq> 0 \<or>
     (\<exists>n. ret = of_nat n \<and> n \<le> length s \<and> n < 2 ^ 31 \<and> (s \<noteq> [] \<longrightarrow> 0 < n) \<and>
        out_of g k' = (out_of g k)(fd := out_of g k fd @ take n s) \<and> pos_of g k' = pos_of g k))"

definition copy_same :: "'k copy_reading \<Rightarrow> 'k \<Rightarrow> 'k \<Rightarrow> bool" where
  "copy_same g k k' \<longleftrightarrow> pos_of g k' = pos_of g k \<and> out_of g k' = out_of g k"

definition copy_lawful :: "'k copy_env \<Rightarrow> 'k copy_reading \<Rightarrow> bool" where
  "copy_lawful env g \<longleftrightarrow> copy_read_law env g \<and> copy_write_law env g \<and>
     (\<forall>fd how k. copy_same g k (snd (ce_shutdown env fd how k))) \<and> (\<forall>fd k. copy_same g k (snd (ce_close env fd k))) \<and>
     (\<forall>pfs t k. copy_same g k (snd (ce_poll env pfs t k)))"

text \<open>No signal interrupts the wait, and no descriptor reports a hangup without being ready.\<close>

definition copy_calm :: "'k copy_env \<Rightarrow> bool" where
  "copy_calm env \<longleftrightarrow> (\<forall>pfs t k ret e revs k'. ce_poll env pfs t k = ((ret, e, revs), k') \<longrightarrow>
     (sint ret < 0 \<longrightarrow> e \<noteq> EINTR) \<and> (\<forall>(pf, rev)\<in>set (zip pfs revs). \<not> pf_defunct (pf\<lparr>pf_revents := rev\<rparr>)))"

section \<open>One transfer\<close>

lemma pull_spec:
  assumes law: "copy_lawful env g" and st: "bs_wf st" and run: "copy_pull env fd st k = Inr (fd1, st1, k1)"
  shows "\<exists>d. fd_fd fd1 = fd_fd fd \<and> fd_closed fd1 = fd_closed fd \<and>
    (fd_eof fd1 \<longrightarrow> fd_eof fd \<or> pos_of g k (fd_fd fd) = length (src_of g (fd_fd fd))) \<and> (fd_eof fd \<longrightarrow> fd_eof fd1) \<and>
    bs_wf st1 \<and> bs_buffer st1 = bs_buffer st @ d \<and> bs_end st1 = (bs_end st \<or> fd_eof fd1) \<and>
    bs_capacity st1 = bs_capacity st \<and> bs_error st1 = bs_error st \<and>
    d = slice (src_of g (fd_fd fd)) (pos_of g k (fd_fd fd)) (length d) \<and> pos_of g k (fd_fd fd) + length d \<le> length (src_of g (fd_fd fd)) \<and>
    pos_of g k1 = (pos_of g k)(fd_fd fd := pos_of g k (fd_fd fd) + length d) \<and> out_of g k1 = out_of g k"
proof -
  let ?limit = "ByteStream_remaining_capacity st"
  obtain ret e d k' where r: "ce_read env (fd_fd fd) (min BUFFER_SIZE ?limit) k = ((ret, e, d), k')" by (metis surj_pair)
  have ld: "length d \<le> unat (min BUFFER_SIZE ?limit)" and ans: "sint (size_to_int ret) < 0 \<and> e \<noteq> 0 \<or>
     ret = of_nat (length d) \<and> d = slice (src_of g (fd_fd fd)) (pos_of g k (fd_fd fd)) (length d) \<and>
     pos_of g k (fd_fd fd) + length d \<le> length (src_of g (fd_fd fd)) \<and>
     (d = [] \<and> 0 < min BUFFER_SIZE ?limit \<longrightarrow> pos_of g k (fd_fd fd) = length (src_of g (fd_fd fd))) \<and>
     pos_of g k' = (pos_of g k)(fd_fd fd := pos_of g k (fd_fd fd) + length d) \<and> out_of g k' = out_of g k"
    using law r unfolding copy_lawful_def copy_read_law_def by blast+
  have room: "length d \<le> bs_room st" "length d < 2 ^ 63"
    using ld bs_wf_length[OF st] remaining_capacity_room[OF st] st
    by (auto simp: min_def word_le_nat_alt BUFFER_SIZE_def bs_room_def bs_wf_def split: if_splits)
  let ?fd = "fd\<lparr>fd_eof := (fd_eof fd \<or> 0 < ?limit \<and> d = []), fd_read_count := fd_read_count fd + 1\<rparr>"
  have rd: "FileDescriptor_read fd ?limit (ret, e, d) = Inr (d, ?fd)" "\<not> (sint (size_to_int ret) < 0 \<and> e \<noteq> 0)"
    using read_outcome[OF ld, of ret e fd] ans run by (auto simp: copy_pull_def r andthen_Inr_iff Let_def split: if_splits)
  define st' where "st' = snd (ByteStream_write st d)"
  have st': "bs_wf st'" "bs_buffer st' = bs_buffer st @ d" "bs_end st' = bs_end st" "bs_capacity st' = bs_capacity st" "bs_error st' = bs_error st"
    using write_wf[OF st room(2)] write_spec[OF st room(2)] room(1) by (simp_all add: st'_def)
  have eq: "fd1 = ?fd" "st1 = (if fd_eof ?fd then ByteStream_end_input st' else st')" "k1 = k'"
    using run by (auto simp: copy_pull_def r rd(1) Let_def st'_def split: if_splits)
  have "0 < ?limit \<Longrightarrow> 0 < min BUFFER_SIZE ?limit" by (simp add: BUFFER_SIZE_def min_def)
  then show ?thesis
    using ans rd(2) st' unfolding eq by (intro exI[of _ d]) (auto simp: ByteStream_end_input_def bs_wf_def)
qed

lemma push_spec:
  assumes law: "copy_lawful env g" and st: "bs_wf st" and run: "copy_push env fd st k = Inr (fd1, st1, k1)"
  shows "\<exists>n. fd1 = fd\<lparr>fd_write_count := fd_write_count fd + 1\<rparr> \<and> bs_wf st1 \<and> bs_buffer st1 = drop n (bs_buffer st) \<and>
    bs_end st1 = bs_end st \<and> bs_capacity st1 = bs_capacity st \<and> bs_error st1 = bs_error st \<and>
    out_of g k1 = (out_of g k)(fd_fd fd := out_of g k (fd_fd fd) @ take n (bs_buffer st)) \<and> pos_of g k1 = pos_of g k"
proof -
  define buf where "buf = ByteStream_peek_output st (min max_copy_length (ByteStream_buffer_size st))"
  have buf: "buf = take (unat (min max_copy_length (ByteStream_buffer_size st))) (bs_buffer st)" by (simp add: buf_def ByteStream_peek_output_def)
  have len: "length buf < 2 ^ 63" using bs_wf_length[OF st] by (simp add: buf min_def)
  obtain ret e k' where w: "ce_writev env (fd_fd fd) [(buf, size_of buf)] k = (ret, e, k')" by (metis surj_pair)
  let ?P = "\<lambda>n. out_of g k' = (out_of g k)(fd_fd fd := out_of g k (fd_fd fd) @ take n buf) \<and> pos_of g k' = pos_of g k"
  have "sint (size_to_int ret) < 0 \<and> e \<noteq> 0 \<or> (\<exists>n. ret = of_nat n \<and> n \<le> length buf \<and> n < 2 ^ 31 \<and> (buf \<noteq> [] \<longrightarrow> 0 < n) \<and> ?P n)"
    using law w unfolding copy_lawful_def copy_write_law_def by blast
  from write_outcome[where writev = "ce_writev env" and P = ?P, OF w len this] obtain n where
    n: "FileDescriptor_write (ce_writev env) fd [buf] False k = Inr (of_nat n, fd\<lparr>fd_write_count := fd_write_count fd + 1\<rparr>, k')"
      "n \<le> length buf" "n < 2 ^ 31" "?P n" and pop: "ByteStream_pop_output st (of_nat n) = Inr st1"
      "fd1 = fd\<lparr>fd_write_count := fd_write_count fd + 1\<rparr>" "k1 = k'"
    using run by (auto simp: copy_push_def Let_def andthen_Inr_iff buf_def[symmetric])
  have u: "unat (of_nat n :: size_t) = n" using n(3) by (simp add: unat_of_nat)
  have "n \<le> unat (min max_copy_length (ByteStream_buffer_size st))" using n(2) unfolding buf length_take by simp
  then have "take n buf = take n (bs_buffer st)" unfolding buf take_take by (simp only: min_absorb1)
  then show ?thesis
    using n(4) pop pop_output_wf[OF st pop(1)] pop_output_spec[OF st, of "of_nat n"] u
    by (intro exI[of _ n]) (auto split: if_splits)
qed

section \<open>Nothing is lost\<close>

text \<open>What was read is what was written, followed by what is in the stream.\<close>

definition carried :: "'k copy_reading \<Rightarrow> cint \<Rightarrow> cint \<Rightarrow> ByteStream \<Rightarrow> 'k \<Rightarrow> bool" where
  "carried g a b st k \<longleftrightarrow> bs_wf st \<and> pos_of g k a \<le> length (src_of g a) \<and> take (pos_of g k a) (src_of g a) = out_of g k b @ bs_buffer st"

lemma take_extend: "p + n \<le> length xs \<Longrightarrow> take (p + n) xs = take p xs @ slice xs p n"
  by (simp add: slice_def take_add)

lemma carried_pull:
  assumes law: "copy_lawful env g" and "carried g (fd_fd fd) b st k" and run: "copy_pull env fd st k = Inr (fd1, st1, k1)"
  shows "carried g (fd_fd fd) b st1 k1"
proof -
  have st: "bs_wf st" using assms(2) by (simp add: carried_def)
  from pull_spec[OF law st run] obtain d where d: "bs_wf st1" "bs_buffer st1 = bs_buffer st @ d"
    "d = slice (src_of g (fd_fd fd)) (pos_of g k (fd_fd fd)) (length d)" "pos_of g k (fd_fd fd) + length d \<le> length (src_of g (fd_fd fd))"
    "pos_of g k1 = (pos_of g k)(fd_fd fd := pos_of g k (fd_fd fd) + length d)" "out_of g k1 = out_of g k" by blast
  show ?thesis using assms(2) d(1,2,4,5,6) take_extend[OF d(4)] d(3) by (simp add: carried_def)
qed

lemma carried_push:
  assumes law: "copy_lawful env g" and "carried g a (fd_fd fd) st k" and run: "copy_push env fd st k = Inr (fd1, st1, k1)"
  shows "carried g a (fd_fd fd) st1 k1"
proof -
  have st: "bs_wf st" using assms(2) by (simp add: carried_def)
  from push_spec[OF law st run] obtain n where n: "bs_wf st1" "bs_buffer st1 = drop n (bs_buffer st)"
    "out_of g k1 = (out_of g k)(fd_fd fd := out_of g k (fd_fd fd) @ take n (bs_buffer st))" "pos_of g k1 = pos_of g k" by blast
  show ?thesis using assms(2) n by (simp add: carried_def)
qed

lemma carried_other: "carried g a b st k \<Longrightarrow> pos_of g k' a = pos_of g k a \<Longrightarrow> out_of g k' b = out_of g k b \<Longrightarrow> carried g a b st k'"
  by (simp add: carried_def)

lemma carried_end [simp]: "carried g a b (ByteStream_end_input st) k = carried g a b st k"
  by (simp add: carried_def ByteStream_end_input_def bs_wf_def)

section \<open>The rules keep it\<close>

text \<open>\<open>f\<close> is the number of the socket's descriptor.\<close>

definition copy_inv :: "'k copy_reading \<Rightarrow> cint \<Rightarrow> 'k copy_world \<Rightarrow> bool" where
  "copy_inv g f = (\<lambda>(s, k). fd_fd (cp_input s) = 0 \<and> fd_fd (cp_socket s) = f \<and> fd_fd (cp_output s) = 1 \<and>
     carried g 0 f (cp_outbound s) k \<and> carried g f 1 (cp_inbound s) k)"

lemma copy_rules_cases:
  assumes "r \<in> set (el_rules (copy_rules env))"
  obtains (one) "ru_fd r = 0" "ru_direction r = In" "ru_callback r = copy1_callback env" "ru_interest r = copy1_interest" "ru_cancel r = copy_end_outbound"
  | (two) "ru_fd r = 1" "ru_direction r = Out" "ru_callback r = copy2_callback env" "ru_interest r = copy2_interest" "ru_cancel r = copy_end_outbound"
  | (three) "ru_fd r = 1" "ru_direction r = In" "ru_callback r = copy3_callback env" "ru_interest r = copy3_interest" "ru_cancel r = copy_end_inbound"
  | (four) "ru_fd r = 2" "ru_direction r = Out" "ru_callback r = copy4_callback env" "ru_interest r = copy4_interest" "ru_cancel r = copy_end_inbound"
  using assms that unfolding copy_rules_def EventLoop_add_rule_def EventLoop_new_def by auto

text \<open>What each callback does, in terms of one transfer.\<close>

lemma copy1_run:
  assumes "copy1_callback env (s, k) = Inr (s', k')"
  obtains fd st where "copy_pull env (cp_input s) (cp_outbound s) k = Inr (fd, st, k')" "s' = s\<lparr>cp_input := fd, cp_outbound := st\<rparr>"
  using assms by (auto simp: copy1_callback.simps andthen_Inr_iff)

lemma copy3_run:
  assumes "copy3_callback env (s, k) = Inr (s', k')"
  obtains fd st where "copy_pull env (cp_socket s) (cp_inbound s) k = Inr (fd, st, k')" "s' = s\<lparr>cp_socket := fd, cp_inbound := st\<rparr>"
  using assms by (auto simp: copy3_callback.simps andthen_Inr_iff)

lemma copy2_run:
  assumes law: "copy_lawful env g" and run: "copy2_callback env (s, k) = Inr (s', k')"
  obtains fd st k1 fd' b where "copy_push env (cp_socket s) (cp_outbound s) k = Inr (fd, st, k1)" "copy_same g k1 k'"
    "s' = s\<lparr>cp_socket := fd', cp_outbound := st, cp_outbound_shutdown := b\<rparr>" "fd_fd fd' = fd_fd fd" "fd_eof fd' = fd_eof fd" "fd_closed fd' = fd_closed fd"
proof -
  obtain fd st k1 where p: "copy_push env (cp_socket s) (cp_outbound s) k = Inr (fd, st, k1)"
    using run by (auto simp: copy2_callback.simps andthen_Inr_iff)
  obtain answer k2 where sh: "ce_shutdown env (fd_fd fd) SHUT_WR k1 = (answer, k2)" by (metis surj_pair)
  have same: "copy_same g k1 k2" "copy_same g k1 k1" using law sh unfolding copy_lawful_def by (metis snd_conv, simp add: copy_same_def)
  consider "s' = s\<lparr>cp_socket := fd, cp_outbound := st\<rparr>" "k' = k1"
    | fd1 where "Socket_shutdown fd SHUT_WR answer = Inr fd1" "s' = s\<lparr>cp_socket := fd1, cp_outbound := st, cp_outbound_shutdown := True\<rparr>" "k' = k2"
    using run p sh by (auto simp: copy2_callback.simps andthen_Inr_iff Let_def split: if_splits)
  then show ?thesis
  proof cases
    case 1
    then show ?thesis using that[OF p, where fd' = fd and b = "cp_outbound_shutdown s"] same(2) by simp
  next
    case (2 fd1)
    then have "fd1 = FileDescriptor_register_write fd" by (auto simp: Socket_shutdown_def andthen_Inr_iff split: if_splits)
    then show ?thesis using 2 that[OF p, where fd' = fd1 and b = True] same(1) by (simp add: FileDescriptor_register_write_def)
  qed
qed

lemma copy4_run:
  assumes law: "copy_lawful env g" and run: "copy4_callback env (s, k) = Inr (s', k')"
  obtains fd st k1 fd' b where "copy_push env (cp_output s) (cp_inbound s) k = Inr (fd, st, k1)" "copy_same g k1 k'"
    "s' = s\<lparr>cp_output := fd', cp_inbound := st, cp_inbound_shutdown := b\<rparr>" "fd_fd fd' = fd_fd fd"
    "fd_eof fd \<longrightarrow> fd_eof fd'" "fd_closed fd \<longrightarrow> fd_closed fd'" "fd_closed fd' \<longrightarrow> fd_closed fd \<or> ByteStream_eof st"
proof -
  obtain fd st k1 where p: "copy_push env (cp_output s) (cp_inbound s) k = Inr (fd, st, k1)"
    using run by (auto simp: copy4_callback.simps andthen_Inr_iff)
  obtain ret e k2 where cl: "ce_close env (fd_fd fd) k1 = ((ret, e), k2)" by (metis surj_pair)
  have same: "copy_same g k1 k2" "copy_same g k1 k1" using law cl unfolding copy_lawful_def by (metis snd_conv, simp add: copy_same_def)
  consider "s' = s\<lparr>cp_output := fd, cp_inbound := st\<rparr>" "k' = k1"
    | fd1 where "FDWrapper_close fd ret e = Inr fd1" "s' = s\<lparr>cp_output := fd1, cp_inbound := st, cp_inbound_shutdown := True\<rparr>" "k' = k2" "ByteStream_eof st"
    using run p cl by (auto simp: copy4_callback.simps andthen_Inr_iff Let_def split: if_splits)
  then show ?thesis
  proof cases
    case 1
    then show ?thesis using that[OF p, where fd' = fd and b = "cp_inbound_shutdown s"] same(2) by simp
  next
    case (2 fd1)
    then have "fd1 = fd\<lparr>fd_eof := True, fd_closed := True\<rparr>" by (auto simp: FDWrapper_close_def andthen_Inr_iff)
    then show ?thesis using 2 that[OF p, where fd' = fd1 and b = True] same(1) by simp
  qed
qed

lemma copy_callback_inv:
  assumes law: "copy_lawful env g" and f: "f \<noteq> 0" "f \<noteq> 1" and r: "r \<in> set (el_rules (copy_rules env))" and inv: "copy_inv g f w"
    and run: "ru_callback r w = Inr w'"
  shows "copy_inv g f w'"
proof -
  obtain s k s' k' where w: "w = (s, k)" "w' = (s', k')" by (metis surj_pair)
  have I: "fd_fd (cp_input s) = 0" "fd_fd (cp_socket s) = f" "fd_fd (cp_output s) = 1"
    "carried g 0 f (cp_outbound s) k" "carried g f 1 (cp_inbound s) k" using inv by (simp_all add: copy_inv_def w)
  have wf: "bs_wf (cp_outbound s)" "bs_wf (cp_inbound s)" using I by (simp_all add: carried_def)
  from r show ?thesis
  proof (cases rule: copy_rules_cases)
    case one
    with run w obtain fd st where p: "copy_pull env (cp_input s) (cp_outbound s) k = Inr (fd, st, k')" "s' = s\<lparr>cp_input := fd, cp_outbound := st\<rparr>"
      by (auto elim: copy1_run)
    have "carried g 0 f st k'" using carried_pull[OF law _ p(1), of f] I by simp
    moreover have "carried g f 1 (cp_inbound s) k'" "fd_fd fd = 0"
      using pull_spec[OF law wf(1) p(1)] I f by (auto intro: carried_other)
    ultimately show ?thesis using I p(2) by (simp add: copy_inv_def w)
  next
    case three
    with run w obtain fd st where p: "copy_pull env (cp_socket s) (cp_inbound s) k = Inr (fd, st, k')" "s' = s\<lparr>cp_socket := fd, cp_inbound := st\<rparr>"
      by (auto elim: copy3_run)
    have "carried g f 1 st k'" using carried_pull[OF law _ p(1), of 1] I by simp
    moreover have "carried g 0 f (cp_outbound s) k'" "fd_fd fd = f"
      using pull_spec[OF law wf(2) p(1)] I f by (auto intro: carried_other)
    ultimately show ?thesis using I p(2) by (simp add: copy_inv_def w)
  next
    case two
    with run w obtain fd st k1 fd' b where p: "copy_push env (cp_socket s) (cp_outbound s) k = Inr (fd, st, k1)" "copy_same g k1 k'"
      "s' = s\<lparr>cp_socket := fd', cp_outbound := st, cp_outbound_shutdown := b\<rparr>" "fd_fd fd' = fd_fd fd" by (auto elim: copy2_run[OF law])
    have "carried g 0 f st k1" using carried_push[OF law _ p(1), of 0] I by simp
    moreover have "carried g f 1 (cp_inbound s) k1" "fd_fd fd = f"
      using push_spec[OF law wf(1) p(1)] I f by (auto intro: carried_other)
    ultimately show ?thesis using I p(2-4) by (auto simp: copy_inv_def w copy_same_def intro: carried_other)
  next
    case four
    with run w obtain fd st k1 fd' b where p: "copy_push env (cp_output s) (cp_inbound s) k = Inr (fd, st, k1)" "copy_same g k1 k'"
      "s' = s\<lparr>cp_output := fd', cp_inbound := st, cp_inbound_shutdown := b\<rparr>" "fd_fd fd' = fd_fd fd" by (auto elim: copy4_run[OF law])
    have "carried g f 1 st k1" using carried_push[OF law _ p(1), of f] I by simp
    moreover have "carried g 0 f (cp_outbound s) k1" "fd_fd fd = 1"
      using push_spec[OF law wf(2) p(1)] I f by (auto intro: carried_other)
    ultimately show ?thesis using I p(2-4) by (auto simp: copy_inv_def w copy_same_def intro: carried_other)
  qed
qed

lemma copy_cancel_inv: "r \<in> set (el_rules (copy_rules env)) \<Longrightarrow> copy_inv g f w \<Longrightarrow> ru_cancel r w = Inr w' \<Longrightarrow> copy_inv g f w'"
  by (cases w) (auto simp: copy_inv_def elim!: copy_rules_cases)

lemma copy_poll_same:
  assumes "copy_lawful env g" and "copy_poll env pfs t (s, k) = (answer, s', k')"
  shows "s' = s" and "copy_same g k k'"
  using assms unfolding copy_lawful_def by (auto simp: Let_def split: prod.splits) (metis snd_conv)

lemma copy_wait_inv:
  assumes law: "copy_lawful env g" and f: "f \<noteq> 0" "f \<noteq> 1" and rules: "set (el_rules el) \<subseteq> set (el_rules (copy_rules env))"
    and inv: "copy_inv g f w" and run: "EventLoop_wait_next_event copy_fdw (copy_poll env) el t w = Inr (res, el', w')"
  shows "copy_inv g f w' \<and> set (el_rules el') \<subseteq> set (el_rules (copy_rules env))"
proof -
  have "copy_inv g f w' \<and> set (el_rules el') \<subseteq> set (el_rules el)"
  proof (rule wait_keeps[where I = "copy_inv g f" and D = "\<lambda>_. copy_inv g f", OF run inv])
    fix pfs v ret e revs v' assume v: "copy_inv g f v" and p: "copy_poll env pfs t v = ((ret, e, revs), v')"
    obtain s k s' k' where sk: "v = (s, k)" "v' = (s', k')" by (metis surj_pair)
    have "s' = s" "copy_same g k k'" using copy_poll_same[OF law] p sk by blast+
    then show "copy_inv g f v'" using v by (auto simp: copy_inv_def sk copy_same_def intro: carried_other)
  qed (use rules copy_cancel_inv copy_callback_inv[OF law f] in blast)+
  then show ?thesis using rules by blast
qed

section \<open>The copy ends when everything is copied\<close>

text \<open>
  Without hangups, the end of a stream is recorded only at the end of the file it is read from, and the output is closed only
  when nothing more can come.
\<close>

definition copy_full :: "'k copy_reading \<Rightarrow> cint \<Rightarrow> 'k copy_world \<Rightarrow> bool" where
  "copy_full g f = (\<lambda>(s, k). copy_inv g f (s, k) \<and>
     (fd_eof (cp_input s) \<longrightarrow> pos_of g k 0 = length (src_of g 0)) \<and> (fd_eof (cp_socket s) \<longrightarrow> pos_of g k f = length (src_of g f)) \<and>
     (bs_end (cp_outbound s) \<longrightarrow> fd_eof (cp_input s)) \<and> (bs_end (cp_inbound s) \<longrightarrow> fd_eof (cp_socket s)) \<and>
     \<not> fd_closed (cp_input s) \<and> \<not> fd_closed (cp_socket s) \<and> (fd_closed (cp_output s) \<longrightarrow> bs_buffer (cp_inbound s) = [] \<and> fd_eof (cp_socket s)) \<and>
     \<not> bs_error (cp_outbound s) \<and> \<not> bs_error (cp_inbound s) \<and> 0 < unat (bs_capacity (cp_outbound s)) \<and> 0 < unat (bs_capacity (cp_inbound s)))"

definition copy_later :: "'k copy_world \<Rightarrow> 'k copy_world \<Rightarrow> bool" where
  "copy_later w w' \<longleftrightarrow> (\<forall>fd. (fd_eof (copy_fdw w fd) \<longrightarrow> fd_eof (copy_fdw w' fd)) \<and> (fd_closed (copy_fdw w fd) \<longrightarrow> fd_closed (copy_fdw w' fd)))"

lemma copy_later_trans: "copy_later u v \<Longrightarrow> copy_later v w \<Longrightarrow> copy_later u w"
  by (simp add: copy_later_def)

text \<open>A read at the end of a file adds nothing.\<close>

lemma pull_end:
  assumes law: "copy_lawful env g" and st: "bs_wf st" and run: "copy_pull env fd st k = Inr (fd1, st1, k1)"
    and seen: "fd_eof fd \<longrightarrow> pos_of g k (fd_fd fd) = length (src_of g (fd_fd fd))" and ended: "bs_end st \<longrightarrow> fd_eof fd"
  shows "fd_closed fd1 = fd_closed fd" and "fd_eof fd \<Longrightarrow> fd_eof fd1" and "bs_error st1 = bs_error st" and "bs_capacity st1 = bs_capacity st"
    and "bs_end st1 \<longrightarrow> fd_eof fd1" and "fd_eof fd1 \<longrightarrow> pos_of g k1 (fd_fd fd) = length (src_of g (fd_fd fd))"
    and "b \<noteq> fd_fd fd \<Longrightarrow> pos_of g k1 b = pos_of g k b" and "fd_eof fd \<Longrightarrow> bs_buffer st1 = bs_buffer st"
proof -
  let ?f = "fd_fd fd"
  obtain d where d: "fd_closed fd1 = fd_closed fd" "fd_eof fd1 \<longrightarrow> fd_eof fd \<or> pos_of g k ?f = length (src_of g ?f)" "fd_eof fd \<longrightarrow> fd_eof fd1"
    "bs_buffer st1 = bs_buffer st @ d" "bs_end st1 = (bs_end st \<or> fd_eof fd1)" "bs_capacity st1 = bs_capacity st" "bs_error st1 = bs_error st"
    "pos_of g k ?f + length d \<le> length (src_of g ?f)" "pos_of g k1 = (pos_of g k)(?f := pos_of g k ?f + length d)"
    using pull_spec[OF law st run] by blast
  have at_end: "d = []" if "pos_of g k ?f = length (src_of g ?f)" using d(8) that by simp
  show "fd_closed fd1 = fd_closed fd" "fd_eof fd \<Longrightarrow> fd_eof fd1" "bs_error st1 = bs_error st" "bs_capacity st1 = bs_capacity st" "bs_end st1 \<longrightarrow> fd_eof fd1"
    using d ended by auto
  show "b \<noteq> ?f \<Longrightarrow> pos_of g k1 b = pos_of g k b" using d(9) by simp
  show "fd_eof fd1 \<longrightarrow> pos_of g k1 ?f = length (src_of g ?f)" using d(2,8,9) seen by auto
  show "fd_eof fd \<Longrightarrow> bs_buffer st1 = bs_buffer st" using at_end d(4) seen by simp
qed

lemma copy1_full:
  assumes law: "copy_lawful env g" and f: "f \<noteq> 0" "f \<noteq> 1" and w: "copy_full g f (s, k)" and inv: "copy_inv g f (s', k')"
    and run: "copy1_callback env (s, k) = Inr (s', k')"
  shows "copy_full g f (s', k') \<and> copy_later (s, k) (s', k')"
proof -
  obtain fd st where p: "copy_pull env (cp_input s) (cp_outbound s) k = Inr (fd, st, k')" "s' = s\<lparr>cp_input := fd, cp_outbound := st\<rparr>"
    using copy1_run[OF run] by blast
  have I: "fd_fd (cp_input s) = 0" "bs_wf (cp_outbound s)" using w by (simp_all add: copy_full_def copy_inv_def carried_def)
  have "fd_eof (cp_input s) \<longrightarrow> pos_of g k (fd_fd (cp_input s)) = length (src_of g (fd_fd (cp_input s)))" "bs_end (cp_outbound s) \<longrightarrow> fd_eof (cp_input s)"
    using w I(1) by (simp_all add: copy_full_def)
  note P = pull_end[OF law I(2) p(1) this, unfolded I(1)]
  show ?thesis using P(1-6,8) P(7)[of f] w inv f unfolding p(2) by (auto simp: copy_full_def copy_later_def)
qed

lemma copy3_full:
  assumes law: "copy_lawful env g" and f: "f \<noteq> 0" "f \<noteq> 1" and w: "copy_full g f (s, k)" and inv: "copy_inv g f (s', k')"
    and run: "copy3_callback env (s, k) = Inr (s', k')"
  shows "copy_full g f (s', k') \<and> copy_later (s, k) (s', k')"
proof -
  obtain fd st where p: "copy_pull env (cp_socket s) (cp_inbound s) k = Inr (fd, st, k')" "s' = s\<lparr>cp_socket := fd, cp_inbound := st\<rparr>"
    using copy3_run[OF run] by blast
  have I: "fd_fd (cp_socket s) = f" "bs_wf (cp_inbound s)" using w by (simp_all add: copy_full_def copy_inv_def carried_def)
  have "fd_eof (cp_socket s) \<longrightarrow> pos_of g k (fd_fd (cp_socket s)) = length (src_of g (fd_fd (cp_socket s)))" "bs_end (cp_inbound s) \<longrightarrow> fd_eof (cp_socket s)"
    using w I(1) by (simp_all add: copy_full_def)
  note P = pull_end[OF law I(2) p(1) this, unfolded I(1)]
  show ?thesis using P(1-6,8) P(7)[of 0] w inv f unfolding p(2) by (auto simp: copy_full_def copy_later_def)
qed

lemma copy2_full:
  assumes law: "copy_lawful env g" and w: "copy_full g f (s, k)" and inv: "copy_inv g f (s', k')"
    and run: "copy2_callback env (s, k) = Inr (s', k')"
  shows "copy_full g f (s', k') \<and> copy_later (s, k) (s', k')"
proof -
  obtain fd st k1 fd' b where p: "copy_push env (cp_socket s) (cp_outbound s) k = Inr (fd, st, k1)" "copy_same g k1 k'"
    "s' = s\<lparr>cp_socket := fd', cp_outbound := st, cp_outbound_shutdown := b\<rparr>" "fd_fd fd' = fd_fd fd" "fd_eof fd' = fd_eof fd" "fd_closed fd' = fd_closed fd"
    by (rule copy2_run[OF law run])
  have "bs_wf (cp_outbound s)" using w by (simp add: copy_full_def copy_inv_def carried_def)
  note P = push_spec[OF law this p(1)]
  show ?thesis using P w inv p(2,4-6) unfolding p(3) by (auto simp: copy_full_def copy_later_def copy_same_def)
qed

lemma copy4_full:
  assumes law: "copy_lawful env g" and w: "copy_full g f (s, k)" and inv: "copy_inv g f (s', k')"
    and run: "copy4_callback env (s, k) = Inr (s', k')"
  shows "copy_full g f (s', k') \<and> copy_later (s, k) (s', k')"
proof -
  obtain fd st k1 fd' b where p: "copy_push env (cp_output s) (cp_inbound s) k = Inr (fd, st, k1)" "copy_same g k1 k'"
    "s' = s\<lparr>cp_output := fd', cp_inbound := st, cp_inbound_shutdown := b\<rparr>" "fd_fd fd' = fd_fd fd"
    "fd_eof fd \<longrightarrow> fd_eof fd'" "fd_closed fd \<longrightarrow> fd_closed fd'" "fd_closed fd' \<longrightarrow> fd_closed fd \<or> ByteStream_eof st"
    by (rule copy4_run[OF law run])
  have "bs_wf (cp_inbound s)" using w by (simp add: copy_full_def copy_inv_def carried_def)
  from push_spec[OF law this p(1)] obtain n where P: "fd = (cp_output s)\<lparr>fd_write_count := fd_write_count (cp_output s) + 1\<rparr>" "bs_wf st"
    "bs_buffer st = drop n (bs_buffer (cp_inbound s))" "bs_end st = bs_end (cp_inbound s)" "bs_capacity st = bs_capacity (cp_inbound s)"
    "bs_error st = bs_error (cp_inbound s)" "pos_of g k1 = pos_of g k" by blast
  show ?thesis using P w inv p(2,4-7) eof_iff[OF P(2)] unfolding p(3) by (auto simp: copy_full_def copy_later_def copy_same_def)
qed

lemma copy_callback_full:
  assumes law: "copy_lawful env g" and f: "f \<noteq> 0" "f \<noteq> 1" and r: "r \<in> set (el_rules (copy_rules env))" and w: "copy_full g f w"
    and run: "ru_callback r w = Inr w'"
  shows "copy_full g f w' \<and> copy_later w w'"
proof -
  obtain s k s' k' where sk: "w = (s, k)" "w' = (s', k')" by (metis surj_pair)
  have "copy_inv g f w" using w by (simp add: copy_full_def sk)
  from copy_callback_inv[OF law f r this run] have inv: "copy_inv g f (s', k')" by (simp add: sk)
  have w: "copy_full g f (s, k)" using w by (simp add: sk)
  from r have "copy_full g f (s', k') \<and> copy_later (s, k) (s', k')"
  proof (cases rule: copy_rules_cases)
    case one
    show ?thesis by (rule copy1_full[OF law f w inv]) (use run one(3) in \<open>simp add: sk\<close>)
  next
    case two
    show ?thesis by (rule copy2_full[OF law w inv]) (use run two(3) in \<open>simp add: sk\<close>)
  next
    case three
    show ?thesis by (rule copy3_full[OF law f w inv]) (use run three(3) in \<open>simp add: sk\<close>)
  next
    case four
    show ?thesis by (rule copy4_full[OF law w inv]) (use run four(3) in \<open>simp add: sk\<close>)
  qed
  then show ?thesis by (simp add: sk)
qed

text \<open>Cancelling a rule whose descriptor is at its end or closed changes neither descriptors nor what is buffered.\<close>

definition same_buffers :: "'k copy_world \<Rightarrow> 'k copy_world \<Rightarrow> bool" where
  "same_buffers w v \<longleftrightarrow> bs_buffer (cp_outbound (fst v)) = bs_buffer (cp_outbound (fst w)) \<and> bs_buffer (cp_inbound (fst v)) = bs_buffer (cp_inbound (fst w))"

lemma copy_cancel_full:
  assumes r: "r \<in> set (el_rules (copy_rules env))" and w: "copy_full g f w" and gone: "gone copy_fdw w r" and run: "ru_cancel r w = Inr w'"
  shows "copy_full g f w' \<and> same_buffers w w' \<and> copy_fdw w' = copy_fdw w"
proof -
  obtain s k where sk: "w = (s, k)" by (cases w)
  have inv: "copy_inv g f w'" using copy_cancel_inv[OF r _ run] w by (simp add: copy_full_def sk)
  from r show ?thesis
    by (cases rule: copy_rules_cases) (use run w inv gone in \<open>auto simp: sk copy_full_def same_buffers_def ByteStream_end_input_def\<close>)
qed

text \<open>The rules that are left, and those that are gone.\<close>

definition copy_rules_ok :: "'k copy_env \<Rightarrow> 'k copy_world EventLoop \<Rightarrow> 'k copy_world \<Rightarrow> bool" where
  "copy_rules_ok env el w \<longleftrightarrow> set (el_rules el) \<subseteq> set (el_rules (copy_rules env)) \<and>
     (\<forall>r\<in>set (el_rules (copy_rules env)). r \<in> set (el_rules el) \<or> gone copy_fdw w r)"

lemma copy_rules_later:
  assumes "copy_rules_ok env el w" and "copy_later w w'" and "el_rules el' = el_rules el"
  shows "copy_rules_ok env el' w'"
  unfolding copy_rules_ok_def assms(3) using assms(1,2) unfolding copy_rules_ok_def copy_later_def by blast

text \<open>When nothing is left to poll, everything that was read has been written.\<close>

lemma idle_complete:
  assumes w: "copy_full g f (s, k)" and idle: "\<And>r. r \<in> set (el_rules (copy_rules env)) \<Longrightarrow>
      gone copy_fdw (s, k) r \<or> (\<exists>v. copy_full g f v \<and> same_buffers (s, k) v \<and> \<not> ru_interest r v)"
  shows "out_of g k f = src_of g 0 \<and> out_of g k 1 = src_of g f"
proof -
  let ?out = "cp_outbound s" and ?in = "cp_inbound s"
  have room: "bs_buffer st \<noteq> []" if "bs_wf st" "0 < unat (bs_capacity st)" "\<not> 0 < ByteStream_remaining_capacity st" for st
    using that remaining_capacity_room[OF that(1)] by (auto simp: bs_room_def word_less_nat_alt)
  have v: "bs_wf (cp_outbound v) \<and> bs_wf (cp_inbound v) \<and> 0 < unat (bs_capacity (cp_outbound v)) \<and> 0 < unat (bs_capacity (cp_inbound v)) \<and>
      \<not> ByteStream_error (cp_outbound v) \<and> \<not> ByteStream_error (cp_inbound v)" if "copy_full g f (v, k')" for v k'
    using that by (simp add: copy_full_def copy_inv_def carried_def ByteStream_error_def)
  have rules: "\<lparr>ru_fd = 0, ru_direction = In, ru_callback = copy1_callback env, ru_interest = copy1_interest, ru_cancel = copy_end_outbound\<rparr> \<in> set (el_rules (copy_rules env))"
    "\<lparr>ru_fd = 1, ru_direction = Out, ru_callback = copy2_callback env, ru_interest = copy2_interest, ru_cancel = copy_end_outbound\<rparr> \<in> set (el_rules (copy_rules env))"
    "\<lparr>ru_fd = 1, ru_direction = In, ru_callback = copy3_callback env, ru_interest = copy3_interest, ru_cancel = copy_end_inbound\<rparr> \<in> set (el_rules (copy_rules env))"
    "\<lparr>ru_fd = 2, ru_direction = Out, ru_callback = copy4_callback env, ru_interest = copy4_interest, ru_cancel = copy_end_inbound\<rparr> \<in> set (el_rules (copy_rules env))"
    by (simp_all add: copy_rules_def EventLoop_add_rule_def EventLoop_new_def)
  have closed: "\<not> fd_closed (cp_input s)" "\<not> fd_closed (cp_socket s)" "fd_closed (cp_output s) \<longrightarrow> bs_buffer ?in = []"
    using w by (simp_all add: copy_full_def)
  have unint: "\<exists>v k'. copy_full g f (v, k') \<and> bs_buffer (cp_outbound v) = bs_buffer ?out \<and> bs_buffer (cp_inbound v) = bs_buffer ?in \<and> \<not> ru_interest r (v, k')"
    if "r \<in> set (el_rules (copy_rules env))" "\<not> gone copy_fdw (s, k) r" for r
  proof -
    from idle[OF that(1)] that(2) obtain u where u: "copy_full g f u" "same_buffers (s, k) u" "\<not> ru_interest r u" by blast
    obtain v k' where "u = (v, k')" by (cases u)
    with u show ?thesis by (auto simp: same_buffers_def)
  qed
  obtain v2 k2 where "copy_full g f (v2, k2)" "bs_buffer (cp_outbound v2) = bs_buffer ?out" "\<not> copy2_interest (v2, k2)"
    using unint[OF rules(2)] closed(2) by auto
  then have outb: "bs_buffer ?out = []" using v[of v2 k2] by simp
  have inb: "bs_buffer ?in = []"
  proof (cases "fd_closed (cp_output s)")
    case False
    then obtain v4 k4 where "copy_full g f (v4, k4)" "bs_buffer (cp_inbound v4) = bs_buffer ?in" "\<not> copy4_interest (v4, k4)"
      using unint[OF rules(4)] by auto
    then show ?thesis using v[of v4 k4] by simp
  qed (use closed(3) in simp)
  have "fd_eof (cp_input s)"
  proof (rule ccontr)
    assume "\<not> fd_eof (cp_input s)"
    then obtain v1 k1 where "copy_full g f (v1, k1)" "bs_buffer (cp_outbound v1) = bs_buffer ?out" "\<not> copy1_interest (v1, k1)"
      using unint[OF rules(1)] closed(1) by auto
    then show False using v[of v1 k1] room[of "cp_outbound v1"] outb by auto
  qed
  moreover have "fd_eof (cp_socket s)"
  proof (rule ccontr)
    assume "\<not> fd_eof (cp_socket s)"
    then obtain v3 k3 where "copy_full g f (v3, k3)" "bs_buffer (cp_inbound v3) = bs_buffer ?in" "\<not> copy3_interest (v3, k3)"
      using unint[OF rules(3)] closed(2) by auto
    then show False using v[of v3 k3] room[of "cp_inbound v3"] inb by auto
  qed
  ultimately show ?thesis using w outb inb by (auto simp: copy_full_def copy_inv_def carried_def)
qed

lemma copy_wait_full:
  assumes law: "copy_lawful env g" and calm: "copy_calm env" and f: "f \<noteq> 0" "f \<noteq> 1" and rules: "copy_rules_ok env el w" and w: "copy_full g f w"
    and run: "EventLoop_wait_next_event copy_fdw (copy_poll env) el t w = Inr (res, el', w')"
  shows "copy_full g f w' \<and> copy_rules_ok env el' w' \<and>
    (res = Exit \<longrightarrow> (\<forall>r\<in>set (el_rules (copy_rules env)). gone copy_fdw w' r \<or> (\<exists>v. copy_full g f v \<and> same_buffers w' v \<and> \<not> ru_interest r v)))"
proof -
  obtain rs pfs b w1 where s: "el_setup copy_fdw (el_rules el) w = Inr (rs, pfs, b, w1)"
    using run by (auto simp: EventLoop_wait_next_event_def andthen_Inr_iff)
  let ?Q = "\<lambda>v. copy_full g f v \<and> same_buffers w v"
  have S: "?Q w1 \<and> copy_fdw w1 = copy_fdw w \<and> rs = filter (\<lambda>r. \<not> gone copy_fdw w r) (el_rules el) \<and>
      (\<not> b \<longrightarrow> (\<forall>r\<in>set rs. \<exists>v. ?Q v \<and> \<not> ru_interest r v))"
  proof (rule setup_spec[where Q = ?Q, OF s])
    fix r v v' assume "r \<in> set (el_rules el)" "?Q v" "gone copy_fdw v r" "ru_cancel r v = Inr v'"
    then show "?Q v' \<and> copy_fdw v' = copy_fdw v"
      using copy_cancel_full[of r env g f v v'] rules by (auto simp: copy_rules_ok_def same_buffers_def)
  qed (use w in \<open>simp add: same_buffers_def\<close>)
  then have ok1: "copy_rules_ok env \<lparr>el_rules = rs\<rparr> w1" using rules by (auto simp: copy_rules_ok_def)
  obtain ret e revs w2 where p: "copy_poll env pfs t w1 = ((ret, e, revs), w2)" by (metis surj_pair)
  obtain s1 k1 s2 k2 where sk: "w1 = (s1, k1)" "w2 = (s2, k2)" by (metis surj_pair)
  have same: "s2 = s1" "copy_same g k1 k2" using copy_poll_same[OF law] p sk by blast+
  have kp: "ce_poll env pfs t k1 = ((ret, e, revs), k2)" using p sk same by (auto simp: Let_def split: prod.splits)
  have "copy_full g f (s1, k1)" using S sk by blast
  then have w2: "copy_full g f w2" "copy_fdw w2 = copy_fdw w1"
    using same by (auto simp: sk copy_full_def copy_inv_def copy_same_def intro: carried_other)
  have ok2: "copy_rules_ok env \<lparr>el_rules = rs\<rparr> w2" using ok1 w2(2) by (simp add: copy_rules_ok_def)
  let ?ans = "map2 (\<lambda>pf rev. pf\<lparr>pf_revents := rev\<rparr>) pfs revs"
  have nohup: "\<forall>pf\<in>set ?ans. \<not> pf_defunct pf" and nosig: "sint ret < 0 \<longrightarrow> e \<noteq> EINTR" using calm kp unfolding copy_calm_def by fastforce+
  consider (idle) "\<not> b" "w' = w1" "el_rules el' = rs" | (wait) "res \<noteq> Exit" "w' = w2" "el_rules el' = rs"
    | (serve) rs' where "res \<noteq> Exit" "el_dispatch copy_fdw rs ?ans w2 = Inr (rs', w')" "el_rules el' = rs'"
    using run nosig
    by (auto simp: EventLoop_wait_next_event_def s p andthen_Inr_iff Let_def SystemCall_def split: if_splits sum.splits failure.splits)
  then show ?thesis
  proof cases
    case idle
    have "gone copy_fdw w1 r \<or> (\<exists>v. copy_full g f v \<and> same_buffers w1 v \<and> \<not> ru_interest r v)" if "r \<in> set (el_rules (copy_rules env))" for r
      using that ok1 S idle(1) by (auto simp: copy_rules_ok_def same_buffers_def)
    then show ?thesis using idle S ok1 by (simp add: copy_rules_ok_def)
  next
    case wait
    then show ?thesis using w2 ok2 by (simp add: copy_rules_ok_def)
  next
    case (serve rs')
    have sub: "set rs \<subseteq> set (el_rules (copy_rules env))" using ok1 by (simp add: copy_rules_ok_def)
    let ?I = "\<lambda>v. copy_full g f v \<and> copy_later w2 v"
    have "?I w' \<and> set rs' \<subseteq> set rs"
    proof (rule dispatch_keeps[where I = ?I, OF serve(2)])
      fix r v v' assume "r \<in> set rs" "?I v" "ru_callback r v = Inr v'"
      then show "?I v'" using copy_callback_full[OF law f] sub copy_later_trans by blast
    next
      fix r pf v v' assume "(r, pf) \<in> set (zip rs ?ans)" "pf_defunct pf"
      then show "?I v'" using nohup by (meson set_zip_rightD)
    qed (use w2 in \<open>simp add: copy_later_def\<close>)
    moreover have "rs' = rs" by (rule dispatch_rules[OF serve(2) nohup])
    ultimately show ?thesis using copy_rules_later[OF ok2, of w' el'] serve by auto
  qed
qed

section \<open>Runs\<close>

lemma copy_start_inv:
  assumes "fd_fd socket = f" "fd_fd inp = 0" "fd_fd outp = 1" and "pos_of g k = (\<lambda>_. 0)" "out_of g k = (\<lambda>_. [])"
  shows "copy_inv g f (copy_start socket inp outp, k)"
  using assms by (simp add: copy_inv_def copy_start_def carried_def ByteStream_new_def bs_wf_def copy_buffer_size_def)

lemma copy_start_full:
  assumes "copy_inv g f (copy_start socket inp outp, k)" and "\<not> fd_eof inp" "\<not> fd_eof socket" "\<not> fd_closed inp" "\<not> fd_closed socket" "\<not> fd_closed outp"
  shows "copy_full g f (copy_start socket inp outp, k)"
  using assms by (simp add: copy_full_def copy_start_def ByteStream_new_def copy_buffer_size_def)

text \<open>The states between the rounds of the loop.\<close>

inductive copy_reach :: "'k copy_env \<Rightarrow> FDWrapper \<Rightarrow> 'k \<Rightarrow> 'k copy_world \<times> 'k copy_world EventLoop \<times> bool \<Rightarrow> bool" for env socket k where
  set_up: "FDWrapper_new 0 = Inr inp \<Longrightarrow> FDWrapper_new 1 = Inr outp \<Longrightarrow> copy_reach env socket k ((copy_start socket inp outp, k), copy_rules env, False)"
| round: "copy_reach env socket k (w, el, False) \<Longrightarrow> copy_round env (w, el, False) = Inr q \<Longrightarrow> copy_reach env socket k q"

lemma copy_reach_inv:
  assumes law: "copy_lawful env g" and f: "fd_fd socket \<noteq> 0" "fd_fd socket \<noteq> 1" and start: "pos_of g k = (\<lambda>_. 0)" "out_of g k = (\<lambda>_. [])"
    and "copy_reach env socket k q"
  shows "copy_inv g (fd_fd socket) (fst q) \<and> set (el_rules (fst (snd q))) \<subseteq> set (el_rules (copy_rules env))"
  using assms(6)
proof induction
  case (set_up inp outp)
  then show ?case using copy_start_inv[of socket _ inp outp g k] start by (auto simp: FDWrapper_new_def)
next
  case (round w el q)
  obtain ret el1 w1 where r: "EventLoop_wait_next_event copy_fdw (copy_poll env) el (- 1) w = Inr (ret, el1, w1)" "q = (w1, el1, ret = Exit)"
    using round.hyps(2) by (auto simp: copy_round_def andthen_Inr_iff)
  show ?case using copy_wait_inv[OF law f _ _ r(1)] round.IH r(2) by simp
qed

lemma copy_run_complete:
  assumes law: "copy_lawful env g" and calm: "copy_calm env" and f: "fd_fd socket \<noteq> 0" "fd_fd socket \<noteq> 1"
    and open_socket: "\<not> fd_eof socket" "\<not> fd_closed socket" and start: "pos_of g k = (\<lambda>_. 0)" "out_of g k = (\<lambda>_. [])"
    and run: "bidirectional_stream_copy env socket k = Inr (s, k')"
  shows "out_of g k' (fd_fd socket) = src_of g 0 \<and> out_of g k' 1 = src_of g (fd_fd socket)"
proof -
  let ?f = "fd_fd socket"
  obtain inp outp el x where io: "FDWrapper_new 0 = Inr inp" "FDWrapper_new 1 = Inr outp" and
    loop: "while_loop (\<lambda>(w, el, exit). \<not> exit) (copy_round env) ((copy_start socket inp outp, k), copy_rules env, False) = Inr ((s, k'), el, x)"
    using run by (auto simp: bidirectional_stream_copy_def andthen_Inr_iff)
  have fds: "fd_fd inp = 0" "fd_fd outp = 1" "\<not> fd_eof inp" "\<not> fd_closed inp" "\<not> fd_closed outp" using io by (auto simp: FDWrapper_new_def)
  let ?idle = "\<lambda>w. \<forall>r\<in>set (el_rules (copy_rules env)). gone copy_fdw w r \<or> (\<exists>v. copy_full g ?f v \<and> same_buffers w v \<and> \<not> ru_interest r v)"
  let ?I = "\<lambda>(w, el, exit). copy_full g ?f w \<and> copy_rules_ok env el w \<and> (exit \<longrightarrow> ?idle w)"
  have "?I ((s, k'), el, x)"
  proof (rule while_loop_keeps[where I = ?I, OF loop])
    show "?I ((copy_start socket inp outp, k), copy_rules env, False)"
      using copy_start_full[OF copy_start_inv[OF refl fds(1,2) start]] fds(3-5) open_socket by (simp add: copy_rules_ok_def)
    fix u v assume u: "?I u" and v: "copy_round env u = Inr v"
    obtain w el0 x0 where u': "u = (w, el0, x0)" by (metis surj_pair)
    obtain res el1 w1 where r: "EventLoop_wait_next_event copy_fdw (copy_poll env) el0 (- 1) w = Inr (res, el1, w1)" "v = (w1, el1, res = Exit)"
      using v by (auto simp: u' copy_round_def andthen_Inr_iff)
    have "copy_rules_ok env el0 w" "copy_full g ?f w" using u u' by simp_all
    from copy_wait_full[OF law calm f this r(1)] show "?I v" by (simp add: r(2))
  qed
  moreover have x using while_loop_ends[OF loop] by simp
  ultimately have full: "copy_full g ?f (s, k')" and idle: "?idle (s, k')" by simp_all
  from idle_complete[OF full] idle show ?thesis by blast
qed

section \<open>A desk\<close>

text \<open>
  A kernel whose state says how many bytes were read from the standard input and from the socket, and what was written. All
  descriptors are always ready, a read gives everything there is, and a write takes at most two bytes.
\<close>

record desk =
  dk_in :: nat
  dk_net :: nat
  dk_sent :: bytes
  dk_shown :: bytes

definition desk_src :: "cint \<Rightarrow> bytes" where
  "desk_src fd = (if fd = 0 then [1, 2, 3] else if fd = 5 then [7, 8] else [])"

definition desk_pos :: "desk \<Rightarrow> cint \<Rightarrow> nat" where
  "desk_pos k = (\<lambda>fd. if fd = 0 then dk_in k else if fd = 5 then dk_net k else 0)"

definition desk_out :: "desk \<Rightarrow> cint \<Rightarrow> bytes" where
  "desk_out k = (\<lambda>fd. if fd = 5 then dk_sent k else if fd = 1 then dk_shown k else [])"

definition desk_read :: "cint \<Rightarrow> size_t \<Rightarrow> desk \<Rightarrow> read_answer \<times> desk" where
  "desk_read fd n k =
     (let rest = drop (desk_pos k fd) (desk_src fd)
      in if fd \<noteq> 0 \<and> fd \<noteq> 5 \<or> uint n < int (length rest) \<or> length (desk_src fd) < desk_pos k fd then ((- 1, 11, []), k)
         else ((of_nat (length rest), 0, rest),
               if fd = 0 then k\<lparr>dk_in := dk_in k + length rest\<rparr> else k\<lparr>dk_net := dk_net k + length rest\<rparr>))"

definition desk_writev :: "desk writev" where
  "desk_writev fd iov k =
     (let s = concat (map fst iov); n = min 2 (length s)
      in if fd = 5 then (of_nat n, 0, k\<lparr>dk_sent := dk_sent k @ take n s\<rparr>)
         else if fd = 1 then (of_nat n, 0, k\<lparr>dk_shown := dk_shown k @ take n s\<rparr>) else (- 1, 9, k))"

definition desk_env :: "desk copy_env" where
  "desk_env = \<lparr>ce_read = desk_read, ce_writev = desk_writev, ce_shutdown = (\<lambda>fd how k. ((0, 0), k)), ce_close = (\<lambda>fd k. ((0, 0), k)),
     ce_poll = (\<lambda>pfs t k. ((1, 0, map pf_events pfs), k)), ce_getfl = (\<lambda>fd. (2, 0)), ce_setfl = (\<lambda>fd flags. (0, 0))\<rparr>"

definition desk_reading :: "desk copy_reading" where
  "desk_reading = \<lparr>src_of = desk_src, pos_of = desk_pos, out_of = desk_out\<rparr>"

definition desk_socket :: FDWrapper where
  "desk_socket = \<lparr>fd_fd = 5, fd_eof = False, fd_closed = False, fd_read_count = 0, fd_write_count = 0\<rparr>"

definition desk_start :: desk where
  "desk_start = \<lparr>dk_in = 0, dk_net = 0, dk_sent = [], dk_shown = []\<rparr>"

lemma minus_one_negative: "sint (size_to_int (- 1)) < 0"
  by code_simp

lemma desk_read_law: "copy_read_law desk_env desk_reading"
  unfolding copy_read_law_def
proof (intro allI impI)
  fix fd n k ret e d k' assume "ce_read desk_env fd n k = ((ret, e, d), k')"
  then have r: "desk_read fd n k = ((ret, e, d), k')" by (simp add: desk_env_def)
  define rest where "rest = drop (desk_pos k fd) (desk_src fd)"
  have size: "uint n < int m \<longleftrightarrow> unat n < m" for m unfolding uint_nat by (rule of_nat_less_iff)
  show "length d \<le> unat n \<and> (sint (size_to_int ret) < 0 \<and> e \<noteq> 0 \<or>
      ret = of_nat (length d) \<and> d = slice (src_of desk_reading fd) (pos_of desk_reading k fd) (length d) \<and>
      pos_of desk_reading k fd + length d \<le> length (src_of desk_reading fd) \<and>
      (d = [] \<and> 0 < n \<longrightarrow> pos_of desk_reading k fd = length (src_of desk_reading fd)) \<and>
      pos_of desk_reading k' = (pos_of desk_reading k)(fd := pos_of desk_reading k fd + length d) \<and> out_of desk_reading k' = out_of desk_reading k)"
  proof (cases "fd \<noteq> 0 \<and> fd \<noteq> 5 \<or> unat n < length rest \<or> length (desk_src fd) < desk_pos k fd")
    case True
    then have "ret = - 1" "e = 11" "d = []" using r by (auto simp: desk_read_def rest_def[symmetric] Let_def size)
    then show ?thesis using minus_one_negative by simp
  next
    case False
    then have v: "d = rest" "ret = of_nat (length rest)" and fd: "fd = 0 \<or> fd = 5" "length rest \<le> unat n" "desk_pos k fd \<le> length (desk_src fd)"
      and k': "k' = (if fd = 0 then k\<lparr>dk_in := dk_in k + length rest\<rparr> else k\<lparr>dk_net := dk_net k + length rest\<rparr>)"
      using r by (auto simp: desk_read_def rest_def[symmetric] Let_def size split: if_splits)
    have "desk_pos k' = (desk_pos k)(fd := desk_pos k fd + length rest)" "desk_out k' = desk_out k"
      using fd(1) k' by (auto simp: desk_pos_def desk_out_def fun_eq_iff)
    moreover have "rest = slice (desk_src fd) (desk_pos k fd) (length rest)" "desk_pos k fd + length rest = length (desk_src fd)"
      using fd(3) by (simp_all add: rest_def slice_def)
    ultimately show ?thesis using v fd by (auto simp: desk_reading_def)
  qed
qed

lemma desk_write_law: "copy_write_law desk_env desk_reading"
  unfolding copy_write_law_def
proof (intro allI impI)
  fix fd s k ret e k' assume "ce_writev desk_env fd [(s, size_of s)] k = (ret, e, k')"
  then have r: "desk_writev fd [(s, size_of s)] k = (ret, e, k')" by (simp add: desk_env_def)
  let ?n = "min 2 (length s)"
  show "sint (size_to_int ret) < 0 \<and> e \<noteq> 0 \<or> (\<exists>n. ret = of_nat n \<and> n \<le> length s \<and> n < 2 ^ 31 \<and> (s \<noteq> [] \<longrightarrow> 0 < n) \<and>
      out_of desk_reading k' = (out_of desk_reading k)(fd := out_of desk_reading k fd @ take n s) \<and> pos_of desk_reading k' = pos_of desk_reading k)"
  proof (cases "fd = 5 \<or> fd = 1")
    case True
    then have "ret = of_nat ?n" "desk_pos k' = desk_pos k" "desk_out k' = (desk_out k)(fd := desk_out k fd @ take ?n s)"
      using r by (auto simp: desk_writev_def Let_def desk_pos_def desk_out_def fun_eq_iff split: if_splits)
    then show ?thesis by (intro disjI2 exI[of _ ?n]) (simp add: desk_reading_def)
  next
    case False
    then show ?thesis using r minus_one_negative by (auto simp: desk_writev_def Let_def)
  qed
qed

lemma desk_lawful: "copy_lawful desk_env desk_reading"
  using desk_read_law desk_write_law by (simp add: copy_lawful_def copy_same_def desk_env_def)

lemma desk_calm: "copy_calm desk_env"
proof -
  have "\<not> pf_defunct (pf\<lparr>pf_revents := rev\<rparr>)" if "(pf, rev) \<in> set (zip pfs (map pf_events pfs))" for pf rev pfs
    using that by (auto simp: pf_defunct_def pf_ready_def in_set_zip)
  then show ?thesis by (auto simp: copy_calm_def desk_env_def)
qed

lemma desk_runs: "case bidirectional_stream_copy desk_env desk_socket desk_start of Inl e \<Rightarrow> False | Inr (s, k) \<Rightarrow> cp_outbound_shutdown s \<and> cp_inbound_shutdown s"
  by code_simp

definition desk_begin :: "desk copy_world \<times> desk copy_world EventLoop \<times> bool" where
  "desk_begin = ((copy_start desk_socket \<lparr>fd_fd = 0, fd_eof = False, fd_closed = False, fd_read_count = 0, fd_write_count = 0\<rparr>
     \<lparr>fd_fd = 1, fd_eof = False, fd_closed = False, fd_read_count = 0, fd_write_count = 0\<rparr>, desk_start), copy_rules desk_env, False)"

lemma desk_round:
  "case copy_round desk_env desk_begin of Inl e \<Rightarrow> False
   | Inr ((s, k), el, x) \<Rightarrow> bs_buffer (cp_outbound s) = [1, 2, 3] \<and> desk_pos k 0 = 3 \<and> bs_buffer (cp_inbound s) = [7, 8]"
  by code_simp

section \<open>Properties\<close>

text \<open>C10: The copy loses and invents nothing. After any number of rounds of the event loop, in each direction: the bytes
the far end has taken, followed by those in the byte stream between, are exactly the bytes read so far. This
needs of the kernel only that \<open>read\<close> delivers the next bytes and that \<open>writev\<close> takes bytes from the front; calls may be
partial, descriptors may hang up and waits may be interrupted.\<close>

theorem stream_copy_conserves:
  assumes "copy_lawful env g" and "fd_fd socket \<noteq> 0" "fd_fd socket \<noteq> 1" and "pos_of g k = (\<lambda>_. 0)" "out_of g k = (\<lambda>_. [])"
    and "copy_reach env socket k ((s, k'), el, x)"
  shows "out_of g k' (fd_fd socket) @ bs_buffer (cp_outbound s) = take (pos_of g k' 0) (src_of g 0) \<and>
    out_of g k' 1 @ bs_buffer (cp_inbound s) = take (pos_of g k' (fd_fd socket)) (src_of g (fd_fd socket))"
  using copy_reach_inv[OF assms] by (simp add: copy_inv_def carried_def)

theorem stream_copy_conserves_witness:
  "\<exists>s k el x. copy_reach desk_env desk_socket desk_start ((s, k), el, x) \<and> bs_buffer (cp_outbound s) = [1, 2, 3] \<and>
     desk_out k 5 @ bs_buffer (cp_outbound s) = take 3 (desk_src 0)"
proof -
  obtain s k el x where run: "copy_round desk_env desk_begin = Inr ((s, k), el, x)" "bs_buffer (cp_outbound s) = [1, 2, 3]" "desk_pos k 0 = 3"
    using desk_round by (auto split: sum.splits)
  have "copy_reach desk_env desk_socket desk_start desk_begin"
    unfolding desk_begin_def by (rule copy_reach.set_up) (simp_all add: FDWrapper_new_def)
  then have reach: "copy_reach desk_env desk_socket desk_start ((s, k), el, x)"
    using copy_reach.round run(1) by (simp add: desk_begin_def)
  have "out_of desk_reading k (fd_fd desk_socket) @ bs_buffer (cp_outbound s) = take (pos_of desk_reading k 0) (src_of desk_reading 0) \<and>
      out_of desk_reading k 1 @ bs_buffer (cp_inbound s) = take (pos_of desk_reading k (fd_fd desk_socket)) (src_of desk_reading (fd_fd desk_socket))"
    by (rule stream_copy_conserves[OF desk_lawful _ _ _ _ reach])
      (simp_all add: desk_socket_def desk_reading_def desk_start_def desk_pos_def desk_out_def fun_eq_iff)
  then show ?thesis using reach run(2,3) by (intro exI[of _ s] exI[of _ k] exI[of _ el] exI[of _ x]) (simp add: desk_reading_def desk_socket_def)
qed

text \<open>C11: The copy returns only when it is complete. If no signal interrupts the wait and no descriptor hangs up without being
ready, \<open>bidirectional_stream_copy\<close> returns only after everything that comes from the standard input has gone into the
socket and everything that comes from the socket has gone to the standard output.\<close>

theorem stream_copy_complete:
  assumes "copy_lawful env g" and "copy_calm env" and "fd_fd socket \<noteq> 0" "fd_fd socket \<noteq> 1" and "\<not> fd_eof socket" "\<not> fd_closed socket"
    and "pos_of g k = (\<lambda>_. 0)" "out_of g k = (\<lambda>_. [])" and "bidirectional_stream_copy env socket k = Inr (s, k')"
  shows "out_of g k' (fd_fd socket) = src_of g 0 \<and> out_of g k' 1 = src_of g (fd_fd socket)"
  by (rule copy_run_complete[OF assms])

theorem stream_copy_complete_witness:
  "\<exists>s k. bidirectional_stream_copy desk_env desk_socket desk_start = Inr (s, k) \<and> dk_sent k = [1, 2, 3] \<and> dk_shown k = [7, 8]"
proof -
  obtain s k where run: "bidirectional_stream_copy desk_env desk_socket desk_start = Inr (s, k)"
    using desk_runs by (auto split: sum.splits)
  have "out_of desk_reading k (fd_fd desk_socket) = src_of desk_reading 0 \<and> out_of desk_reading k 1 = src_of desk_reading (fd_fd desk_socket)"
    by (rule stream_copy_complete[OF desk_lawful desk_calm _ _ _ _ _ _ run])
      (simp_all add: desk_socket_def desk_reading_def desk_start_def desk_pos_def desk_out_def fun_eq_iff)
  then show ?thesis using run by (simp add: desk_reading_def desk_out_def desk_src_def desk_socket_def)
qed

end
