(* ===== verification/Text_Output.thy ===== *)
theory Text_Output
  imports Addresses Ethernet_Frame
begin

text \<open>
  The functions that only produce text: \<open>to_string\<close> and \<open>summary\<close> of the headers and messages of \<open>tcp_helpers\<close>, and
  \<open>hexdump\<close> of \<open>util/util.cc\<close>. What is written to a stream is a string.
\<close>

section \<open>Streams\<close>

text \<open>Numbers under \<open>hex\<close>, \<open>setw\<close> with a fill character, \<open>boolalpha\<close>, the end of a line.\<close>

definition hex_digit :: "nat \<Rightarrow> char" where
  "hex_digit d = (if d < 10 then digit_char d else char_of (87 + d))"

fun to_string_hex :: "nat \<Rightarrow> string" where
  "to_string_hex n = (if n < 16 then [hex_digit n] else to_string_hex (n div 16) @ [hex_digit (n mod 16)])"

declare to_string_hex.simps [simp del]

definition setw :: "nat \<Rightarrow> char \<Rightarrow> string \<Rightarrow> string" where
  "setw n fill s = replicate (n - length s) fill @ s"

definition boolalpha :: "bool \<Rightarrow> string" where
  "boolalpha b = (if b then ''true'' else ''false'')"

abbreviation newline :: string where
  "newline \<equiv> [CHR 0x0A]"

section \<open>Headers and messages\<close>

definition TCPHeader_to_string :: "TCPHeader \<Rightarrow> string" where
  "TCPHeader_to_string h =
     ''TCP source port: '' @ to_string_hex (unat (th_sport h)) @ newline @
     ''TCP dest port: '' @ to_string_hex (unat (th_dport h)) @ newline @
     ''TCP seqno: '' @ to_string_hex (unat (raw_value (th_seqno h))) @ newline @
     ''TCP ackno: '' @ to_string_hex (unat (raw_value (th_ackno h))) @ newline @
     ''TCP doff: '' @ to_string_hex (unat (th_doff h)) @ newline @
     ''Flags: urg: '' @ boolalpha (th_urg h) @ '' ack: '' @ boolalpha (th_ack h) @ '' psh: '' @ boolalpha (th_psh h) @
     '' rst: '' @ boolalpha (th_rst h) @ '' syn: '' @ boolalpha (th_syn h) @ '' fin: '' @ boolalpha (th_fin h) @ newline @
     ''TCP winsize: '' @ to_string_hex (unat (th_win h)) @ newline @
     ''TCP cksum: '' @ to_string_hex (unat (th_cksum h)) @ newline @
     ''TCP uptr: '' @ to_string_hex (unat (th_uptr h)) @ newline"

definition TCPHeader_summary :: "TCPHeader \<Rightarrow> string" where
  "TCPHeader_summary h =
     ''Header(flags='' @ (if th_syn h then ''S'' else '''') @ (if th_ack h then ''A'' else '''') @ (if th_rst h then ''R'' else '''') @
     (if th_fin h then ''F'' else '''') @ '',seqno='' @ to_string_dec (unat (raw_value (th_seqno h))) @
     '',ack='' @ to_string_dec (unat (raw_value (th_ackno h))) @ '',win='' @ to_string_dec (unat (th_win h)) @ '')''"

definition IPv4Header_to_string :: "IPv4Header \<Rightarrow> string" where
  "IPv4Header_to_string h =
     ''IP version: '' @ to_string_hex (unat (ih_ver h)) @ newline @
     ''IP hdr len: '' @ to_string_hex (unat (ih_hlen h)) @ newline @
     ''IP tos: '' @ to_string_hex (unat (ih_tos h)) @ newline @
     ''IP dgram len: '' @ to_string_hex (unat (ih_len h)) @ newline @
     ''IP id: '' @ to_string_hex (unat (ih_id h)) @ newline @
     ''Flags: df: '' @ boolalpha (ih_df h) @ '' mf: '' @ boolalpha (ih_mf h) @ newline @
     ''Offset: '' @ to_string_hex (unat (ih_offset h)) @ newline @
     ''TTL: '' @ to_string_hex (unat (ih_ttl h)) @ newline @
     ''Protocol: '' @ to_string_hex (unat (ih_proto h)) @ newline @
     ''Checksum: '' @ to_string_hex (unat (ih_cksum h)) @ newline @
     ''Src addr: '' @ to_string_hex (unat (ih_src h)) @ newline @
     ''Dst addr: '' @ to_string_hex (unat (ih_dst h)) @ newline"

definition IPv4Header_summary :: "IPv4Header \<Rightarrow> string" where
  "IPv4Header_summary h =
     ''IPv'' @ to_string_hex (unat (ih_ver h)) @ '', '' @
     ''len='' @ to_string_hex (unat (ih_len h)) @ '', '' @
     ''protocol='' @ to_string_hex (unat (ih_proto h)) @ '', '' @
     (if 10 \<le> ih_ttl h then '''' else ''ttl='' @ to_string_dec (unat (ih_ttl h)) @ '', '') @
     ''src='' @ inet_ntoa (ih_src h) @ '', '' @
     ''dst='' @ inet_ntoa (ih_dst h)"

fun mac_loop :: "bytes \<Rightarrow> string" where
  "mac_loop [] = ''''"
| "mac_loop [b] = setw 2 CHR ''0'' (to_string_hex (unat b))"
| "mac_loop (b # bs) = setw 2 CHR ''0'' (to_string_hex (unat b)) @ '':'' @ mac_loop bs"

definition EthernetAddress_to_string :: "EthernetAddress \<Rightarrow> string" where
  "EthernetAddress_to_string address = mac_loop (EthernetAddress_bytes address)"

definition EthernetHeader_to_string :: "EthernetHeader \<Rightarrow> string" where
  "EthernetHeader_to_string h =
     ''dst='' @ EthernetAddress_to_string (eh_dst h) @ '', src='' @ EthernetAddress_to_string (eh_src h) @ '', type='' @
     (if eh_type h = TYPE_IPv4 then ''IPv4'' else if eh_type h = TYPE_ARP then ''ARP''
      else ''[unknown type '' @ to_string_hex (unat (eh_type h)) @ ''!]'')"

definition ARPMessage_to_string :: "ARPMessage \<Rightarrow> string" where
  "ARPMessage_to_string m =
     (let opcode_str0 = ''(unknown type)'';
          opcode_str1 = (if arp_opcode m = OPCODE_REQUEST then ''REQUEST'' else opcode_str0);
          opcode_str = (if arp_opcode m = OPCODE_REPLY then ''REPLY'' else opcode_str1)
      in ''opcode='' @ opcode_str @ '', sender='' @ EthernetAddress_to_string (arp_sender_ethernet_address m) @ ''/'' @
         inet_ntoa (arp_sender_ip_address m) @ '', target='' @ EthernetAddress_to_string (arp_target_ethernet_address m) @ ''/'' @
         inet_ntoa (arp_target_ip_address m))"

section \<open>Hexadecimal dump\<close>

text \<open>
  A string stream is its contents and the position of the next character; a stream that is made from a string, like one whose
  contents are set by \<open>str\<close>, starts at position 0, so that what is written next replaces the string from its front.
\<close>

type_synonym stringstream = "string \<times> nat"

definition stringstream_new :: "string \<Rightarrow> stringstream" where
  "stringstream_new s = (s, 0)"

definition stringstream_put :: "stringstream \<Rightarrow> char \<Rightarrow> stringstream" where
  "stringstream_put ss c = (let (s, p) = ss in (take p s @ [c] @ drop (p + 1) s, p + 1))"

definition isprint :: "byte \<Rightarrow> bool" where
  "isprint b \<longleftrightarrow> 0x20 \<le> b \<and> b \<le> 0x7e"

text \<open>The loop, on the output so far, the number of bytes printed and the characters of the current line.\<close>

fun hexdump_loop :: "string \<Rightarrow> bytes \<Rightarrow> string \<Rightarrow> nat \<Rightarrow> stringstream \<Rightarrow> string \<times> nat \<times> stringstream" where
  "hexdump_loop indent [] out printed pchars = (out, printed, pchars)"
| "hexdump_loop indent (b # bs) out printed pchars =
     (let (out1, pchars1) =
            (if printed mod 16 = 0
             then let (o1, p1) = (if printed \<noteq> 0 then (out @ ''    '' @ fst pchars @ newline, stringstream_new '' '') else (out, pchars))
                  in (o1 @ indent @ setw 8 CHR ''0'' (to_string_hex printed) @ '':    '', p1)
             else if printed mod 2 = 0 then (out @ '' '', pchars) else (out, pchars))
      in hexdump_loop indent bs (out1 @ setw 2 CHR ''0'' (to_string_hex (unat b))) (printed + 1)
           (stringstream_put pchars1 (if isprint b then char_of (unat b) else CHR ''.'')))"

definition hexdump :: "bytes \<Rightarrow> nat \<Rightarrow> string" where
  "hexdump data indent =
     (let (out, printed, pchars) = hexdump_loop (replicate indent CHR '' '') data '''' 0 (stringstream_new '' '');
          print_rem = (16 - printed mod 16) mod 16
      in out @ replicate (2 * print_rem + print_rem div 2 + 4) CHR '' '' @ fst pchars @ newline @ newline)"

section \<open>Two digits for a byte\<close>

definition hex2 :: "byte \<Rightarrow> string" where
  "hex2 b = [hex_digit (unat b div 16), hex_digit (unat b mod 16)]"

lemma hex_digit_0: "hex_digit 0 = CHR ''0''"
  by code_simp

lemma byte_hex: "setw 2 CHR ''0'' (to_string_hex (unat b)) = hex2 b"
proof -
  have lt: "unat b div 16 < 16" using unsigned_less[of b, where ?'a = nat] by simp
  show ?thesis
  proof (cases "unat b < 16")
    case True
    then show ?thesis by (simp add: setw_def hex2_def to_string_hex.simps hex_digit_0)
  next
    case False
    have "to_string_hex (unat b) = [hex_digit (unat b div 16), hex_digit (unat b mod 16)]"
      using False lt by (subst to_string_hex.simps, subst to_string_hex.simps) simp
    then show ?thesis by (simp add: setw_def hex2_def)
  qed
qed

definition hex_value :: "char \<Rightarrow> nat" where
  "hex_value c = (if of_char c < (97 :: nat) then of_char c - 48 else of_char c - 87)"

lemma hex_value_digit: "d < 16 \<Longrightarrow> hex_value (hex_digit d) = d"
  by (auto simp: hex_value_def hex_digit_def digit_char_def)

fun read_hex :: "string \<Rightarrow> bytes" where
  "read_hex (a # b # s) = of_nat (16 * hex_value a + hex_value b) # read_hex s"
| "read_hex s = []"

lemma read_hex2: "read_hex (hex2 b @ s) = b # read_hex s"
proof -
  have "unat b div 16 < 16" using unsigned_less[of b, where ?'a = nat] by simp
  then show ?thesis by (simp add: hex2_def hex_value_digit)
qed

text \<open>Every third character of the text of an Ethernet address is a colon; without them it is the twelve digits.\<close>

definition read_mac :: "string \<Rightarrow> bytes" where
  "read_mac s = read_hex (filter (\<lambda>c. c \<noteq> CHR '':'') s)"

lemma hex_digit_no_colon: "d < 16 \<Longrightarrow> hex_digit d \<noteq> CHR '':''"
  by (auto simp: hex_digit_def digit_char_def dest!: arg_cong[where f = "of_char :: char \<Rightarrow> nat"])

lemma hex2_no_colon: "filter (\<lambda>c. c \<noteq> CHR '':'') (hex2 b) = hex2 b"
proof -
  have "unat b div 16 < 16" using unsigned_less[of b, where ?'a = nat] by simp
  then show ?thesis using hex_digit_no_colon by (simp add: hex2_def)
qed

lemma mac_loop_text: "read_mac (mac_loop bs) = bs \<and> length (mac_loop bs) = 3 * length bs - 1"
proof (induction bs rule: mac_loop.induct)
  case (2 b)
  show ?case using read_hex2[of b "[]"] by (simp add: byte_hex read_mac_def hex2_no_colon) (simp add: hex2_def)
next
  case (3 b c bs)
  then show ?case by (simp add: byte_hex read_mac_def hex2_no_colon read_hex2) (simp add: hex2_def)
qed (simp add: read_mac_def)

section \<open>The dump, line by line\<close>

definition shown :: "byte \<Rightarrow> char" where
  "shown b = (if isprint b then char_of (unat b) else CHR ''.'')"

text \<open>The digits of the bytes of a line from column \<open>j\<close> on, with a blank before every second byte but the first.\<close>

fun columns :: "nat \<Rightarrow> bytes \<Rightarrow> string" where
  "columns j [] = ''''"
| "columns j (b # bs) = (if j \<noteq> 0 \<and> even j then '' '' else '''') @ hex2 b @ columns (j + 1) bs"

definition dump_head :: "nat \<Rightarrow> nat \<Rightarrow> string" where
  "dump_head indent n = replicate indent CHR '' '' @ setw 8 CHR ''0'' (to_string_hex n) @ '':    ''"

text \<open>A line: the offset, the digits padded to their full width, four blanks and the characters.\<close>

definition dump_line :: "nat \<Rightarrow> nat \<Rightarrow> bytes \<Rightarrow> string" where
  "dump_line indent n bs =
     (let r = 16 - length bs
      in dump_head indent n @ columns 0 bs @ replicate (2 * r + r div 2 + 4) CHR '' '' @ map shown bs @ newline)"

function dump_lines :: "nat \<Rightarrow> nat \<Rightarrow> bytes \<Rightarrow> string" where
  "dump_lines indent n bs = (if bs = [] then '''' else dump_line indent n (take 16 bs) @ dump_lines indent (n + 16) (drop 16 bs))"
  by auto
termination by (relation "measure (\<lambda>(indent, n, bs). length bs)") auto

declare dump_lines.simps [simp del]

lemma put_at_end: "length s = p \<Longrightarrow> stringstream_put (s, p) c = (s @ [c], p + 1)"
  by (simp add: stringstream_put_def)

lemma put_first: "stringstream_put (stringstream_new '' '') c = ([c], 1)"
  by (simp add: stringstream_put_def stringstream_new_def)

lemma line_rest:
  assumes "0 < j" "j + length bs \<le> 16" and "length s = j"
  shows "hexdump_loop ind (bs @ rest) out (16 * k + j) (s, j) =
    hexdump_loop ind rest (out @ columns j bs) (16 * k + j + length bs) (s @ map shown bs, j + length bs)"
  using assms
proof (induction bs arbitrary: j out s)
  case (Cons b bs)
  have m: "j mod 16 \<noteq> 0" using Cons.prems by simp
  have e: "(16 * k + j) mod 2 = 0 \<longleftrightarrow> even j" by presburger
  have put: "stringstream_put (s, j) (shown b) = (s @ [shown b], Suc j)" using put_at_end[OF Cons.prems(3)] by simp
  have "hexdump_loop ind ((b # bs) @ rest) out (16 * k + j) (s, j) =
      hexdump_loop ind (bs @ rest) (out @ (if even j then '' '' else '''') @ hex2 b) (16 * k + Suc j) (s @ [shown b], Suc j)"
    using Cons.prems(1) by (simp add: m e byte_hex put shown_def[symmetric])
  also have "\<dots> = hexdump_loop ind rest ((out @ (if even j then '' '' else '''') @ hex2 b) @ columns (Suc j) bs) (16 * k + Suc j + length bs)
      ((s @ [shown b]) @ map shown bs, Suc j + length bs)"
    using Cons.prems by (intro Cons.IH) auto
  finally show ?case using Cons.prems(1) by simp
qed simp

text \<open>One line, from its first byte.\<close>

lemma line_loop:
  assumes "bs \<noteq> []" "length bs \<le> 16" and pc: "k = 0 \<longrightarrow> pc = stringstream_new '' ''"
  shows "hexdump_loop (replicate indent CHR '' '') (bs @ rest) out (16 * k) pc =
    hexdump_loop (replicate indent CHR '' '') rest
      ((if k = 0 then out else out @ ''    '' @ fst pc @ newline) @ dump_head indent (16 * k) @ columns 0 bs)
      (16 * k + length bs) (map shown bs, length bs)"
proof -
  obtain b cs where bs: "bs = b # cs" using assms(1) by (cases bs) auto
  let ?out = "(if k = 0 then out else out @ ''    '' @ fst pc @ newline) @ dump_head indent (16 * k)"
  have "hexdump_loop (replicate indent CHR '' '') (bs @ rest) out (16 * k) pc =
      hexdump_loop (replicate indent CHR '' '') (cs @ rest) (?out @ hex2 b) (16 * k + 1) ([shown b], 1)"
    using pc by (simp add: bs byte_hex put_first shown_def[symmetric] dump_head_def)
  also have "\<dots> = hexdump_loop (replicate indent CHR '' '') rest ((?out @ hex2 b) @ columns 1 cs) (16 * k + 1 + length cs) ([shown b] @ map shown cs, 1 + length cs)"
    using assms(2) by (intro line_rest) (auto simp: bs)
  finally show ?thesis by (simp add: bs)
qed

lemma four_blanks: "replicate 4 CHR '' '' = ''    ''"
  by code_simp

lemma hexdump_from:
  assumes "bs \<noteq> []" and pc: "k = 0 \<longrightarrow> pc = stringstream_new '' ''"
  shows "(let (out', printed, pchars) = hexdump_loop (replicate indent CHR '' '') bs out (16 * k) pc; r = (16 - printed mod 16) mod 16
      in out' @ replicate (2 * r + r div 2 + 4) CHR '' '' @ fst pchars @ newline) =
    (if k = 0 then out else out @ ''    '' @ fst pc @ newline) @ dump_lines indent (16 * k) bs"
  using assms
proof (induction "length bs" arbitrary: bs k out pc rule: less_induct)
  case less
  let ?ind = "replicate indent CHR '' ''" and ?out = "if k = 0 then out else out @ ''    '' @ fst pc @ newline"
  show ?case
  proof (cases "length bs \<le> 16")
    case True
    have loop: "hexdump_loop ?ind bs out (16 * k) pc = (?out @ dump_head indent (16 * k) @ columns 0 bs, 16 * k + length bs, map shown bs, length bs)"
      using line_loop[of bs k pc indent "[]" out] less.prems True by simp
    have "(16 - (16 * k + length bs) mod 16) mod 16 = 16 - length bs"
      using less.prems(1) True by (cases "length bs = 16") auto
    moreover have "dump_lines indent (16 * k) bs = dump_line indent (16 * k) bs"
      using less.prems(1) True by (subst dump_lines.simps, subst dump_lines.simps) simp
    ultimately show ?thesis unfolding loop by (simp add: dump_line_def Let_def)
  next
    case False
    define cs ds where "cs = take 16 bs" and "ds = drop 16 bs"
    have cd: "bs = cs @ ds" "length cs = 16" "cs \<noteq> []" "ds \<noteq> []" "length ds < length bs" using False by (auto simp: cs_def ds_def)
    have "hexdump_loop ?ind bs out (16 * k) pc =
        hexdump_loop ?ind ds (?out @ dump_head indent (16 * k) @ columns 0 cs) (16 * Suc k) (map shown cs, 16)"
      unfolding cd(1) using line_loop[of cs k pc indent ds out] cd less.prems(2) by (simp add: add.commute)
    then show ?thesis
      using less.hyps[OF cd(5,4), of "Suc k" "(map shown cs, 16)" "?out @ dump_head indent (16 * k) @ columns 0 cs"] less.prems(1)
      by (subst dump_lines.simps) (simp add: dump_line_def cd(2) add.commute four_blanks flip: cs_def ds_def)
  qed
qed

section \<open>Properties\<close>

text \<open>The text of an Ethernet address is 17 characters long and determines the address: without the colons it is the
two hexadecimal digits of each of the six bytes, in order.\<close>

theorem ethernet_address_text:
  "length (EthernetAddress_to_string a) = 17 \<and> read_mac (EthernetAddress_to_string a) = EthernetAddress_bytes a"
proof -
  have "length (EthernetAddress_bytes a) = 6" by (cases a) simp
  then show ?thesis using mac_loop_text[of "EthernetAddress_bytes a"] by (simp add: EthernetAddress_to_string_def)
qed

text \<open>\<open>hexdump\<close> prints lines of sixteen bytes. For any data it prints the same text as the specification by lines: the
offset in eight digits, the bytes in pairs, the last line padded to the width of the others, four blanks and the printable
characters. The blank that the code puts in front of the characters of a line never appears: writing to the string stream
replaces it.\<close>

theorem hexdump_by_lines:
  "hexdump data indent = (if data = [] then replicate 5 CHR '' '' @ newline @ newline else dump_lines indent 0 data @ newline)"
proof (cases "data = []")
  case True
  have "replicate (2 * 0 + 0 div 2 + 4) CHR '' '' @ '' '' = replicate 5 CHR '' ''" by code_simp
  then show ?thesis using True by (simp add: hexdump_def stringstream_new_def)
next
  case False
  have "hexdump data indent = (let (out', printed, pchars) = hexdump_loop (replicate indent CHR '' '') data '''' (16 * 0) (stringstream_new '' '');
        r = (16 - printed mod 16) mod 16 in out' @ replicate (2 * r + r div 2 + 4) CHR '' '' @ fst pchars @ newline) @ newline"
    by (simp add: hexdump_def Let_def case_prod_beta)
  then show ?thesis using hexdump_from[OF False, of 0 "stringstream_new '' ''" indent "''''"] False by simp
qed

end
