(* ===== verification/Spec2Isabelle.thy ===== *)
theory Spec2Isabelle
  imports Reassembler_Correct Buffers Router Socket_Correct Tcp_Liveness Stream_Copy Text_Output
begin

text \<open>
  This library is a model, with proofs, of Sponge: a TCP/IP stack in C++ whose classes live under
  \<open>src/libsponge\<close>. A user-space TCP connection (\<open>TCPConnection\<close>) couples a sender and a receiver; the
  receiver puts the peer's stream together with a \<open>StreamReassembler\<close> that writes into a
  \<open>ByteStream\<close>; sequence numbers are 32-bit \<open>WrappingInt32\<close>s. Adapters put the segments into UDP
  datagrams or into IPv4 datagrams, these go out on a TUN device or, through a \<open>NetworkInterface\<close> that
  speaks ARP, in Ethernet frames on a TAP device; a \<open>Router\<close> forwards datagrams between interfaces.

  \<^bold>\<open>How code becomes definitions.\<close> A class is a \<open>record\<close> with its members in their order, an enum a
  \<open>datatype\<close>; a method \<open>C::m\<close> is a function \<open>C_m\<close> from the object's old state and the arguments to its new state
  and the result. A call that may throw, be undefined or never return has a \<open>result\<close> type: \<open>Inl\<close> says
  why there is no normal return, \<open>Inr\<close> is the normal return. Machine integers are words of their
  width (theory \<open>Prelude\<close>). A \<open>while\<close> loop is \<open>while_loop\<close>, for which a loop that does not
  end is the value \<open>Diverges\<close>: no loop has a bound on the number of its rounds, and every statement that
  a call returns is proved as such. What the code gets from outside (the random initial sequence
  number, what a device delivers, what the C library's resolver answers, the iteration order of a hash
  table) is an argument.

  \<^bold>\<open>The theories and the code.\<close>
  \<^item> \<open>Prelude\<close>: integer types, results, loops, byte strings; \<open>Interfaces\<close>: the contracts (locales) of a
    bounded pipe, a FIFO history, a string that loses a prefix, a simulation, a sequence number codec.
  \<^item> \<open>Byte_Stream\<close>: \<open>byte_stream.{hh,cc}\<close>. A stream is a bounded FIFO; the \<open>int\<close> counters are kept at
    their width and the bound \<open>2^31\<close> in later theorems comes from them.
  \<^item> \<open>Wrapping_Integers\<close>: \<open>wrapping_integers.{hh,cc}\<close>. \<open>unwrap\<close> returns the closest number to the
    checkpoint, and exactly when its second loop never ends.
  \<^item> \<open>Stream_Reassembler\<close>, \<open>Intervals\<close>, \<open>Reassembler_Correct\<close>: \<open>stream_reassembler.{hh,cc}\<close>; the
    invariant of the stored pieces, and that the code implements a machine that stores a set of known positions.
  \<^item> \<open>Tcp_Receiver\<close>: \<open>tcp_receiver.{hh,cc}\<close>; refinement of an abstract receiver, the acknowledgment number.
  \<^item> \<open>Tcp_Sender\<close>, \<open>Sender_Correct\<close>: \<open>tcp_sender.{hh,cc}\<close> and \<open>TCPConfig\<close>; the invariant of all reachable
    senders, what \<open>fill_window\<close>, \<open>ack_received\<close> and \<open>tick\<close> do in them.
  \<^item> \<open>Tcp_State\<close>, \<open>Tcp_Connection\<close>, \<open>Connection_Correct\<close>, \<open>Connection_Written\<close>: \<open>tcp_state.{hh,cc}\<close>, \<open>tcp_connection.{hh,cc}\<close>;
    answering, TIME_WAIT, giving up, and that every operation keeps the invariant of a connection.
  \<^item> \<open>Tcp_End_To_End\<close>: two connections and a network that loses, repeats, delays and reorders segments;
    delivery in order, reliability, and that every call returns.
  \<^item> \<open>Tcp_Progress\<close>, \<open>Tcp_Liveness\<close>: the same two connections; nobody acknowledges what was not sent, one
    retransmission with its answer removes the oldest outstanding segment, everything sent can still be delivered
    from every state, and a schedule after which a sender with bytes to send stays silent for ever.
  \<^item> \<open>Buffers\<close>, \<open>Net_Parser\<close>, \<open>Checksum\<close>, \<open>Addresses\<close>: \<open>util/buffer\<close>, \<open>util/parser\<close>, the checksum class of
    \<open>util/util\<close>, \<open>util/address\<close>.
  \<^item> \<open>Tcp_Segment\<close>, \<open>Ipv4_Datagram\<close>, \<open>Ethernet_Frame\<close>: the headers, segments, datagrams, frames and ARP
    messages of \<open>tcp_helpers\<close>; each is shown to survive the wire (locale \<open>wire_format\<close>).
  \<^item> \<open>Network_Interface\<close>, \<open>Router\<close>: \<open>network_interface.{hh,cc}\<close>, \<open>router.{hh,cc}\<close>; address resolution, aging
    of the tables (locale \<open>aging_table\<close>), longest-prefix match.
  \<^item> \<open>Tcp_Adapters\<close>: \<open>fd_adapter\<close>, \<open>tcp_over_ip\<close>, \<open>tuntap_adapter\<close>, \<open>lossy_fd_adapter\<close> of \<open>tcp_helpers\<close>; a segment
    crosses two Ethernet adapters, a listening adapter is taken over by a SYN, filtering.
  \<^item> \<open>File_Descriptor\<close>, \<open>Sockets\<close>, \<open>Event_Loop\<close>: \<open>file_descriptor\<close>, \<open>socket\<close>, \<open>tun\<close> and \<open>eventloop\<close> of \<open>util\<close>; every system
    call is an argument (its answer, or a function on the state of a kernel when there is more than
    one). Writing everything ends; a round of the event loop calls the ready rules and cancels the hung-up ones.
  \<^item> \<open>Sponge_Socket\<close>, \<open>Socket_Steps\<close>, \<open>Socket_Correct\<close>: \<open>tcp_sponge_socket.{hh,cc}\<close>. The event loop of a socket is a
    sequence of calls of its four callbacks and ticks; each of these is a sequence of steps of an endpoint of
    \<open>Tcp_End_To_End\<close>, so that what one owner writes into its pipe is what the other gets out of its own.
    What the kernel and the adapter promise is the hypothesis \<open>lawful\<close>; \<open>world_env\<close> keeps it.
  \<^item> \<open>Text_Output\<close>: \<open>to_string\<close> and \<open>summary\<close> of the headers and messages of \<open>tcp_helpers\<close>, \<open>hexdump\<close> of \<open>util/util\<close>; the text of an
    Ethernet address can be read back, a dump is the list of its lines.
  \<^item> \<open>Stream_Copy\<close>: \<open>apps/bidirectional_stream_copy.cc\<close>, four rules around two byte streams and the loop; nothing is
    lost on the way and the copy returns only when it is complete. What the kernel promises is \<open>copy_lawful\<close>; \<open>desk_env\<close> keeps it.

  \<^bold>\<open>Bounds.\<close> \<open>ByteStream\<close> counts in \<open>int\<close>; the theorems about streams therefore bound their total
  length (together with the capacity) by \<open>2^31\<close>, and separate theorems show what goes wrong beyond
  it. The checksum theorems bound a packet by \<open>2^16\<close> bytes, which the length fields of the formats do anyway.

  \<^bold>\<open>Reading choices.\<close> \<open>seg_2_seg\<close> reads a segment through a reference to a queue element it has already popped;
  the model takes the value the element had. Signed overflow is two's complement. Hash maps that are
  iterated over are association lists or take the order as an argument. Shared strings are values because
  they are never written after construction. Debugging output is left out.

  \<^bold>\<open>Not modelled.\<close> Starting, joining and aborting the thread of \<open>tcp_sponge_socket\<close> (its body is modelled), the other
  programs under \<open>src/apps\<close> and \<open>src/doctests\<close>, which are input and output around the classes above;
  \<open>printme\<close>, which only prints; the seeding of random generators and the clock; \<open>MyTests\<close>, an experiment with \<open>std::map\<close>.
\<close>

end
